(* ===== verification/Prelude.thy ===== *)
theory Prelude
  imports Main "HOL-Library.Word" "HOL-Library.Multiset"
begin

text \<open>
  Shared ground of the development: the machine types of the C++ sources (fixed width unsigned
  integers as words, UTF-16 strings as lists of 16 bit units, byte buffers as lists of bytes),
  the little-endian \<open>memcpy\<close> codec that every wire and snapshot structure rests on, and generic
  lemmas on slices of lists. FastFiles targets x64 Windows only, so integers are little-endian,
  \<open>wchar_t\<close> and \<open>char16_t\<close> are both 16 bits wide and \<open>size_t\<close> is 64 bits wide.
\<close>

unbundle bit_operations_syntax

type_synonym byte = "8 word"
type_synonym u16 = "16 word"
type_synonym u32 = "32 word"
type_synonym u64 = "64 word"

text \<open>\<open>std::u16string\<close> and \<open>std::wstring\<close>: on Windows both hold UTF-16 code units.\<close>

type_synonym u16string = "u16 list"

text \<open>Rewrite rules of the codecs: lengths of encodings and decode/encode inverses.\<close>

named_theorems codec_simps

section \<open>Little-endian integers\<close>

text \<open>
  \<open>put_le n w\<close> is the object representation of an \<open>n\<close> byte unsigned integer, and \<open>get_le\<close>
  is \<open>memcpy\<close> of such a representation into an integer.
\<close>

definition put_le :: "nat \<Rightarrow> 'a::len word \<Rightarrow> byte list" where
  "put_le n w = map (\<lambda>i. ucast (drop_bit (8 * i) w)) [0..<n]"

definition get_le :: "byte list \<Rightarrow> 'a::len word" where
  "get_le bs = foldr (\<lambda>b acc. push_bit 8 acc OR ucast b) bs 0"

lemma length_put_le [simp, codec_simps]: "length (put_le n w) = n"
  by (simp add: put_le_def)

lemma nth_put_le: "i < n \<Longrightarrow> put_le n w ! i = ucast (drop_bit (8 * i) w)"
  by (simp add: put_le_def)

lemma get_le_Nil [simp]: "get_le [] = 0"
  by (simp add: get_le_def)

lemma get_le_Cons: "get_le (b # bs) = push_bit 8 (get_le bs) OR ucast b"
  by (simp add: get_le_def)

lemma bit_get_le:
  "bit (get_le bs :: 'a::len word) k \<longleftrightarrow>
     k < LENGTH('a) \<and> k div 8 < length bs \<and> bit (bs ! (k div 8)) (k mod 8)"
proof (induction bs arbitrary: k)
  case Nil
  then show ?case by simp
next
  case (Cons b bs)
  show ?case
  proof (cases "k < 8")
    case True
    then show ?thesis
      by (auto simp: get_le_Cons bit_or_iff bit_push_bit_iff bit_ucast_iff)
  next
    case False
    then obtain j where j: "k = j + 8" by (metis add.commute le_Suc_ex not_less)
    have nb: "\<not> bit b k" using j bit_imp_le_length [of b k] by auto
    have dv: "(j + 8) div 8 = Suc (j div 8)" by simp
    show ?thesis
      using Cons.IH [of j] nb j dv
      by (auto simp: get_le_Cons bit_or_iff bit_push_bit_iff bit_ucast_iff dest: bit_imp_le_length)
  qed
qed

lemma get_put_le:
  assumes "LENGTH('a) = 8 * n"
  shows "get_le (put_le n w) = (w :: 'a::len word)"
proof (rule bit_word_eqI)
  fix k assume k: "k < LENGTH('a)"
  then have "k div 8 < n" using assms by auto
  then show "bit (get_le (put_le n w) :: 'a word) k = bit w k"
    using k by (simp add: bit_get_le nth_put_le bit_ucast_iff bit_drop_bit_eq)
qed

lemma put_get_le:
  assumes "LENGTH('a) = 8 * n" and "length bs = n"
  shows "put_le n (get_le bs :: 'a::len word) = bs"
proof (rule nth_equalityI)
  show "length (put_le n (get_le bs :: 'a word)) = length bs" using assms by simp
next
  fix i assume "i < length (put_le n (get_le bs :: 'a word))"
  then have i: "i < n" by simp
  show "put_le n (get_le bs :: 'a word) ! i = bs ! i"
  proof (rule bit_word_eqI)
    fix k assume "k < LENGTH(8)"
    then have k: "k < 8" by simp
    have "(8 * i + k) div 8 = i" "(8 * i + k) mod 8 = k" using k by auto
    moreover have "8 * i + k < LENGTH('a)" using i k assms(1) by simp
    ultimately show "bit (put_le n (get_le bs :: 'a word) ! i) k = bit (bs ! i) k"
      using i k assms(2)
      by (simp add: nth_put_le bit_ucast_iff bit_drop_bit_eq bit_get_le)
  qed
qed

lemma get_put_words [simp, codec_simps]:
  "get_le (put_le 2 (a :: u16)) = a"
  "get_le (put_le 4 (b :: u32)) = b"
  "get_le (put_le 8 (c :: u64)) = c"
  by (simp_all add: get_put_le)

lemma put_get_words [simp, codec_simps]:
  "length bs = 2 \<Longrightarrow> put_le 2 (get_le bs :: u16) = bs"
  "length bs = 4 \<Longrightarrow> put_le 4 (get_le bs :: u32) = bs"
  "length bs = 8 \<Longrightarrow> put_le 8 (get_le bs :: u64) = bs"
  by (simp_all add: put_get_le)

section \<open>Widening\<close>

lemma unat_u8_less [simp]: "unat (c :: byte) < 256"
  using unsigned_less [of c, where 'a = nat] by simp

lemma unat_u16_less [simp]: "unat (b :: u16) < 65536"
  using unsigned_less [of b, where 'a = nat] by simp

lemma unat_u32_less [simp]: "unat (a :: u32) < 4294967296"
  using unsigned_less [of a, where 'a = nat] by simp

lemma unat_u64_less [simp]: "unat (d :: u64) < 18446744073709551616"
  using unsigned_less [of d, where 'a = nat] by simp

lemma unat_widen [simp]:
  "unat (ucast (a :: u32) :: u64) = unat a" "unat (ucast (b :: u16) :: u64) = unat b"
  "unat (ucast (b :: u16) :: u32) = unat b" "unat (ucast (c :: byte) :: u64) = unat c"
  using unat_u32_less [of a] unat_u16_less [of b] unat_u8_less [of c]
  by (simp_all add: unsigned_ucast_eq take_bit_nat_def del: unat_u32_less unat_u16_less unat_u8_less)

section \<open>Slices\<close>

lemma slice_step [codec_simps]: "m = n + k \<Longrightarrow> take k (drop n bs) @ drop m bs = drop n bs"
  by (metis append_take_drop_id drop_drop add.commute)

lemma slice_last [codec_simps]: "length bs \<le> n + k \<Longrightarrow> take k (drop n bs) = drop n bs"
  by simp

section \<open>UTF-16 text as bytes\<close>

text \<open>\<open>memcpy\<close> between a byte buffer and the code units of a string.\<close>

definition put_u16s :: "u16string \<Rightarrow> byte list" where
  "put_u16s cs = concat (map (put_le 2) cs)"

fun get_u16s :: "nat \<Rightarrow> byte list \<Rightarrow> u16string" where
  "get_u16s 0 bs = []"
| "get_u16s (Suc n) bs = get_le (take 2 bs) # get_u16s n (drop 2 bs)"

lemma put_u16s_simps [simp]:
  "put_u16s [] = []" "put_u16s (c # cs) = put_le 2 c @ put_u16s cs"
  by (simp_all add: put_u16s_def)

lemma length_put_u16s [simp, codec_simps]: "length (put_u16s cs) = 2 * length cs"
  by (induction cs) auto

lemma length_get_u16s [simp, codec_simps]: "length (get_u16s n bs) = n"
  by (induction n bs rule: get_u16s.induct) auto

lemma get_put_u16s [simp, codec_simps]: "get_u16s (length cs) (put_u16s cs @ rest) = cs"
  by (induction cs) auto

lemma put_get_u16s: "length bs = 2 * n \<Longrightarrow> put_u16s (get_u16s n bs) = bs"
proof (induction n bs rule: get_u16s.induct)
  case (1 bs)
  then show ?case by simp
next
  case (2 n bs)
  then have "put_u16s (get_u16s n (drop 2 bs)) = drop 2 bs" by simp
  moreover have "length (take 2 bs) = 2" using 2 by simp
  ultimately show ?case by simp
qed

lemma get_u16s_take: "2 * n \<le> k \<Longrightarrow> get_u16s n (take k bs) = get_u16s n bs"
proof (induction n bs arbitrary: k rule: get_u16s.induct)
  case (1 bs)
  then show ?case by simp
next
  case (2 n bs)
  then have "get_u16s n (take (k - 2) (drop 2 bs)) = get_u16s n (drop 2 bs)" by simp
  then show ?case using "2.prems" by (simp add: drop_take min_def)
qed

section \<open>Results that may be errors\<close>

text \<open>
  An operation that may throw returns \<open>'e + 'a\<close>, with \<^term>\<open>Inl e\<close> for the exception. \<open>bind_res\<close>
  is sequencing: the continuation runs only when the first operation returned.
\<close>

definition bind_res :: "'e + 'a \<Rightarrow> ('a \<Rightarrow> 'e + 'b) \<Rightarrow> 'e + 'b" where
  "bind_res r f = (case r of Inl e \<Rightarrow> Inl e | Inr a \<Rightarrow> f a)"

lemma bind_res_simps [simp]: "bind_res (Inl e) f = Inl e" "bind_res (Inr a) f = f a"
  by (simp_all add: bind_res_def)

lemma bind_res_Inr_iff: "bind_res r f = Inr b \<longleftrightarrow> (\<exists>a. r = Inr a \<and> f a = Inr b)"
  by (cases r) auto

lemma bind_res_Inl_iff: "bind_res r f = Inl e \<longleftrightarrow> r = Inl e \<or> (\<exists>a. r = Inr a \<and> f a = Inl e)"
  by (cases r) auto

lemma bind_res_cong [fundef_cong]:
  "r = r' \<Longrightarrow> (\<And>a. r' = Inr a \<Longrightarrow> f a = g a) \<Longrightarrow> bind_res r f = bind_res r' g"
  by (cases r') auto

section \<open>Masks of power-of-two sizes\<close>

lemma and_pow2_minus_1: "(x :: nat) AND (2 ^ k - 1) = x mod 2 ^ k"
  by (metis mask_eq_exp_minus_1 take_bit_eq_mask take_bit_eq_mod)

end
