(* ===== verification/Wire.thy ===== *)
theory Wire
  imports Prelude
begin

text \<open>
  The engine/service wire protocol below the record level: protocol versions
  (\<open>protocol/Version\<close>), the closed command surface (\<open>protocol/Commands\<close>), the frame header
  (\<open>protocol/Frame\<close>) and the validation that runs on every header before a payload is allocated
  or dispatched (\<open>protocol/Dispatch\<close>).
\<close>

section \<open>Protocol versions\<close>

record ProtocolVersion =
  pv_major :: u16
  pv_minor :: u16

definition kCurrentProtocolVersion :: ProtocolVersion where
  "kCurrentProtocolVersion = \<lparr>pv_major = 2, pv_minor = 3\<rparr>"

text \<open>The operands of \<open>peer.major + 1\<close> are promoted to \<open>int\<close>: the sum does not wrap.\<close>

definition IsVersionCompatible :: "ProtocolVersion \<Rightarrow> ProtocolVersion \<Rightarrow> bool" where
  "IsVersionCompatible local_v peer =
     (if pv_major peer = pv_major local_v then True
      else uint (pv_major peer) + 1 = uint (pv_major local_v))"

definition ProtocolSupportsAllocatedSize :: "ProtocolVersion \<Rightarrow> bool" where
  "ProtocolSupportsAllocatedSize v \<longleftrightarrow> pv_major v > 2 \<or> (pv_major v = 2 \<and> pv_minor v \<ge> 1)"

definition ProtocolSupportsScanFailure :: "ProtocolVersion \<Rightarrow> bool" where
  "ProtocolSupportsScanFailure v \<longleftrightarrow> pv_major v > 2 \<or> (pv_major v = 2 \<and> pv_minor v \<ge> 2)"

definition ProtocolSupportsScanAttemptStarted :: "ProtocolVersion \<Rightarrow> bool" where
  "ProtocolSupportsScanAttemptStarted v \<longleftrightarrow> pv_major v > 2 \<or> (pv_major v = 2 \<and> pv_minor v \<ge> 3)"

lemma supports_chain:
  "ProtocolSupportsScanAttemptStarted v \<Longrightarrow> ProtocolSupportsScanFailure v"
  "ProtocolSupportsScanFailure v \<Longrightarrow> ProtocolSupportsAllocatedSize v"
  unfolding ProtocolSupportsScanAttemptStarted_def ProtocolSupportsScanFailure_def
    ProtocolSupportsAllocatedSize_def
  by (auto simp: word_le_nat_alt)

section \<open>The closed command surface\<close>

datatype MessageType =
    Handshake | HandshakeAck | HandshakeReject | IncompatibleVersion | EnumerateVolumes
  | VolumeList | StartVolumeScan | StopVolumeScan | OpenUsnJournal | CloseUsnJournal
  | Heartbeat | HeartbeatAck | ScanRecordBatch | ScanComplete | UsnJournalOpened
  | JournalRecordBatch | JournalResumeInvalid | JournalRecordBatchV2 | ScanRecordBatchV2
  | JournalRecordBatchV3 | ScanFailed | ScanAttemptStarted

fun MessageType_value :: "MessageType \<Rightarrow> u16" where
  "MessageType_value Handshake = 1"
| "MessageType_value HandshakeAck = 2"
| "MessageType_value HandshakeReject = 3"
| "MessageType_value IncompatibleVersion = 4"
| "MessageType_value EnumerateVolumes = 5"
| "MessageType_value VolumeList = 6"
| "MessageType_value StartVolumeScan = 7"
| "MessageType_value StopVolumeScan = 8"
| "MessageType_value OpenUsnJournal = 9"
| "MessageType_value CloseUsnJournal = 10"
| "MessageType_value Heartbeat = 12"
| "MessageType_value HeartbeatAck = 13"
| "MessageType_value ScanRecordBatch = 14"
| "MessageType_value ScanComplete = 15"
| "MessageType_value UsnJournalOpened = 16"
| "MessageType_value JournalRecordBatch = 17"
| "MessageType_value JournalResumeInvalid = 18"
| "MessageType_value JournalRecordBatchV2 = 19"
| "MessageType_value ScanRecordBatchV2 = 20"
| "MessageType_value JournalRecordBatchV3 = 21"
| "MessageType_value ScanFailed = 22"
| "MessageType_value ScanAttemptStarted = 23"

text \<open>The \<open>switch\<close> over the raw wire integer, one test per \<open>case\<close> label.\<close>

definition ToMessageType :: "u16 \<Rightarrow> MessageType option" where
  "ToMessageType raw =
     (if raw = 1 then Some Handshake
      else if raw = 2 then Some HandshakeAck
      else if raw = 3 then Some HandshakeReject
      else if raw = 4 then Some IncompatibleVersion
      else if raw = 5 then Some EnumerateVolumes
      else if raw = 6 then Some VolumeList
      else if raw = 7 then Some StartVolumeScan
      else if raw = 8 then Some StopVolumeScan
      else if raw = 9 then Some OpenUsnJournal
      else if raw = 10 then Some CloseUsnJournal
      else if raw = 12 then Some Heartbeat
      else if raw = 13 then Some HeartbeatAck
      else if raw = 14 then Some ScanRecordBatch
      else if raw = 15 then Some ScanComplete
      else if raw = 16 then Some UsnJournalOpened
      else if raw = 17 then Some JournalRecordBatch
      else if raw = 18 then Some JournalResumeInvalid
      else if raw = 19 then Some JournalRecordBatchV2
      else if raw = 20 then Some ScanRecordBatchV2
      else if raw = 21 then Some JournalRecordBatchV3
      else if raw = 22 then Some ScanFailed
      else if raw = 23 then Some ScanAttemptStarted
      else None)"

lemma ToMessageType_value: "ToMessageType (MessageType_value m) = Some m"
  by (cases m) (simp_all add: ToMessageType_def)

lemma ToMessageType_SomeD: "ToMessageType raw = Some m \<Longrightarrow> raw = MessageType_value m"
  by (auto simp: ToMessageType_def split: if_splits)

lemma ToMessageType_Some_iff: "ToMessageType raw = Some m \<longleftrightarrow> raw = MessageType_value m"
  using ToMessageType_value ToMessageType_SomeD by blast

definition kMaxScanCursorLengthBytes :: u16 where
  "kMaxScanCursorLengthBytes = 256"

definition kKnownStartVolumeScanFlags :: u16 where
  "kKnownStartVolumeScanFlags = 0x0001"

definition AreStartVolumeScanFlagsValid :: "u16 \<Rightarrow> bool" where
  "AreStartVolumeScanFlagsValid flags \<longleftrightarrow> flags AND NOT kKnownStartVolumeScanFlags = 0"

definition IsScanCursorLengthValid :: "u16 \<Rightarrow> bool" where
  "IsScanCursorLengthValid lengthBytes \<longleftrightarrow> lengthBytes \<le> kMaxScanCursorLengthBytes"

text \<open>Exactly the two flag words the protocol defines pass: nothing set, or low priority.\<close>

lemma AreStartVolumeScanFlagsValid_iff:
  "AreStartVolumeScanFlagsValid flags \<longleftrightarrow> flags = 0 \<or> flags = 1"
proof
  assume "AreStartVolumeScanFlagsValid flags"
  then have z: "flags AND NOT 1 = 0"
    by (simp add: AreStartVolumeScanFlagsValid_def kKnownStartVolumeScanFlags_def)
  have "flags = (flags AND 1) OR (flags AND NOT 1)"
    by (rule bit_word_eqI) (auto simp: bit_and_iff bit_or_iff bit_not_iff)
  with z have "flags = flags AND 1" by (metis or.right_neutral)
  also have "\<dots> = of_bool (odd flags)" by (simp add: and_one_eq mod_2_eq_odd)
  finally show "flags = 0 \<or> flags = 1" by (cases "odd flags") auto
next
  assume "flags = 0 \<or> flags = 1"
  then show "AreStartVolumeScanFlagsValid flags"
    by (auto simp: AreStartVolumeScanFlagsValid_def kKnownStartVolumeScanFlags_def)
qed

section \<open>Frames\<close>

record FrameHeader =
  fh_totalLength :: u32
  fh_structVersion :: u16
  fh_messageType :: u16

text \<open>The packed eight byte header as it lies on the pipe.\<close>

definition put_FrameHeader :: "FrameHeader \<Rightarrow> byte list" where
  "put_FrameHeader h =
     put_le 4 (fh_totalLength h) @ put_le 2 (fh_structVersion h) @ put_le 2 (fh_messageType h)"

definition get_FrameHeader :: "byte list \<Rightarrow> FrameHeader" where
  "get_FrameHeader bs =
     \<lparr>fh_totalLength = get_le (take 4 (drop 0 bs)),
      fh_structVersion = get_le (take 2 (drop 4 bs)),
      fh_messageType = get_le (take 2 (drop 6 bs))\<rparr>"

definition sizeof_FrameHeader :: nat where
  "sizeof_FrameHeader = 8"

definition kMaxFrameSize :: nat where
  "kMaxFrameSize = 1 * 1024 * 1024"

text \<open>The length is widened to 64 bits before it is compared, so the comparison is exact.\<close>

definition IsFrameLengthValid :: "u32 \<Rightarrow> bool" where
  "IsFrameLengthValid totalLength =
     (let length64 = unat (ucast totalLength :: u64)
      in sizeof_FrameHeader \<le> length64 \<and> length64 \<le> kMaxFrameSize)"

lemma IsFrameLengthValid_iff:
  "IsFrameLengthValid n \<longleftrightarrow> 8 \<le> unat n \<and> unat n \<le> 1048576"
  by (simp add: IsFrameLengthValid_def sizeof_FrameHeader_def kMaxFrameSize_def Let_def)

definition kCurrentStructVersion :: u16 where
  "kCurrentStructVersion = 1"

datatype FrameValidationResult =
    Valid | RejectedOversizedFrame | RejectedUnknownMessageType | RejectedUnsupportedStructVersion

definition ValidateFrame :: "FrameHeader \<Rightarrow> FrameValidationResult" where
  "ValidateFrame header =
     (if \<not> IsFrameLengthValid (fh_totalLength header) then RejectedOversizedFrame
      else if ToMessageType (fh_messageType header) = None then RejectedUnknownMessageType
      else if fh_structVersion header \<noteq> kCurrentStructVersion
      then RejectedUnsupportedStructVersion
      else Valid)"

lemma get_put_FrameHeader: "get_FrameHeader (put_FrameHeader h) = h"
  by (simp add: get_FrameHeader_def put_FrameHeader_def)

text \<open>
  A frame header is accepted exactly when its total length lies between the header size and
  one MiB, its message type is one of the closed set of commands and its structure version is the
  current one; in particular the decoded command is then determined and re-encodes to the raw
  wire integer, and the payload that may be allocated for it is at most one MiB minus the header.
\<close>

theorem ValidateFrame_Valid_iff:
  "ValidateFrame h = Valid \<longleftrightarrow>
     (\<exists>m. ToMessageType (fh_messageType h) = Some m \<and> fh_messageType h = MessageType_value m
        \<and> fh_structVersion h = 1 \<and> 8 \<le> unat (fh_totalLength h)
        \<and> unat (fh_totalLength h) - sizeof_FrameHeader \<le> 1048568)"
proof -
  have "ValidateFrame h = Valid \<longleftrightarrow>
     IsFrameLengthValid (fh_totalLength h) \<and> (\<exists>m. ToMessageType (fh_messageType h) = Some m)
     \<and> fh_structVersion h = 1"
    by (auto simp: ValidateFrame_def kCurrentStructVersion_def)
  then show ?thesis
    by (auto simp: IsFrameLengthValid_iff sizeof_FrameHeader_def ToMessageType_Some_iff)
qed

end
