(* ===== verification/Records.thy ===== *)
theory Records
  imports Wire
begin

text \<open>
  The record level of the engine/service protocol (\<open>protocol/Records\<close>): the packed fixed layouts
  of MFT and USN records, the count and length guards, the batch parser and serializer, which the
  source writes once as templates over the fixed layout, and the conversions between the record
  versions that peers of different protocol minors exchange.
\<close>

section \<open>Fixed layouts\<close>

text \<open>
  Each packed structure, its size and its object representation. The order of the fields is the
  order of the declaration, with no padding (\<open>#pragma pack(push, 1)\<close>).
\<close>

record MftRecordFixedV1 =
  m1_fileReferenceNumber :: u64
  m1_parentFileReferenceNumber :: u64
  m1_creationTime :: u64
  m1_lastModifiedTime :: u64
  m1_lastAccessTime :: u64
  m1_sizeBytes :: u64
  m1_fileAttributes :: u32
  m1_fileNameLengthChars :: u16

definition sizeof_MftRecordFixedV1 :: nat where
  "sizeof_MftRecordFixedV1 = 54"

definition put_MftRecordFixedV1 :: "MftRecordFixedV1 \<Rightarrow> byte list" where
  "put_MftRecordFixedV1 r =
     put_le 8 (m1_fileReferenceNumber r) @
     put_le 8 (m1_parentFileReferenceNumber r) @
     put_le 8 (m1_creationTime r) @
     put_le 8 (m1_lastModifiedTime r) @
     put_le 8 (m1_lastAccessTime r) @
     put_le 8 (m1_sizeBytes r) @
     put_le 4 (m1_fileAttributes r) @
     put_le 2 (m1_fileNameLengthChars r)"

definition get_MftRecordFixedV1 :: "byte list \<Rightarrow> MftRecordFixedV1" where
  "get_MftRecordFixedV1 bs =
     \<lparr>m1_fileReferenceNumber = get_le (take 8 (drop 0 bs)),
      m1_parentFileReferenceNumber = get_le (take 8 (drop 8 bs)),
      m1_creationTime = get_le (take 8 (drop 16 bs)),
      m1_lastModifiedTime = get_le (take 8 (drop 24 bs)),
      m1_lastAccessTime = get_le (take 8 (drop 32 bs)),
      m1_sizeBytes = get_le (take 8 (drop 40 bs)),
      m1_fileAttributes = get_le (take 4 (drop 48 bs)),
      m1_fileNameLengthChars = get_le (take 2 (drop 52 bs))\<rparr>"

record MftRecordFixedV2 =
  m2_fileReferenceNumber :: u64
  m2_parentFileReferenceNumber :: u64
  m2_creationTime :: u64
  m2_lastModifiedTime :: u64
  m2_lastAccessTime :: u64
  m2_sizeBytes :: u64
  m2_allocatedSizeBytes :: u64
  m2_fileAttributes :: u32
  m2_fileNameLengthChars :: u16

definition sizeof_MftRecordFixedV2 :: nat where
  "sizeof_MftRecordFixedV2 = 62"

definition put_MftRecordFixedV2 :: "MftRecordFixedV2 \<Rightarrow> byte list" where
  "put_MftRecordFixedV2 r =
     put_le 8 (m2_fileReferenceNumber r) @
     put_le 8 (m2_parentFileReferenceNumber r) @
     put_le 8 (m2_creationTime r) @
     put_le 8 (m2_lastModifiedTime r) @
     put_le 8 (m2_lastAccessTime r) @
     put_le 8 (m2_sizeBytes r) @
     put_le 8 (m2_allocatedSizeBytes r) @
     put_le 4 (m2_fileAttributes r) @
     put_le 2 (m2_fileNameLengthChars r)"

definition get_MftRecordFixedV2 :: "byte list \<Rightarrow> MftRecordFixedV2" where
  "get_MftRecordFixedV2 bs =
     \<lparr>m2_fileReferenceNumber = get_le (take 8 (drop 0 bs)),
      m2_parentFileReferenceNumber = get_le (take 8 (drop 8 bs)),
      m2_creationTime = get_le (take 8 (drop 16 bs)),
      m2_lastModifiedTime = get_le (take 8 (drop 24 bs)),
      m2_lastAccessTime = get_le (take 8 (drop 32 bs)),
      m2_sizeBytes = get_le (take 8 (drop 40 bs)),
      m2_allocatedSizeBytes = get_le (take 8 (drop 48 bs)),
      m2_fileAttributes = get_le (take 4 (drop 56 bs)),
      m2_fileNameLengthChars = get_le (take 2 (drop 60 bs))\<rparr>"

record UsnDeltaFixedV1 =
  d1_usn :: u64
  d1_fileReferenceNumber :: u64
  d1_parentFileReferenceNumber :: u64
  d1_reason :: u32
  d1_timestamp :: u64
  d1_sizeBytes :: u64
  d1_fileAttributes :: u32
  d1_fileNameLengthChars :: u16

definition sizeof_UsnDeltaFixedV1 :: nat where
  "sizeof_UsnDeltaFixedV1 = 50"

definition put_UsnDeltaFixedV1 :: "UsnDeltaFixedV1 \<Rightarrow> byte list" where
  "put_UsnDeltaFixedV1 r =
     put_le 8 (d1_usn r) @
     put_le 8 (d1_fileReferenceNumber r) @
     put_le 8 (d1_parentFileReferenceNumber r) @
     put_le 4 (d1_reason r) @
     put_le 8 (d1_timestamp r) @
     put_le 8 (d1_sizeBytes r) @
     put_le 4 (d1_fileAttributes r) @
     put_le 2 (d1_fileNameLengthChars r)"

definition get_UsnDeltaFixedV1 :: "byte list \<Rightarrow> UsnDeltaFixedV1" where
  "get_UsnDeltaFixedV1 bs =
     \<lparr>d1_usn = get_le (take 8 (drop 0 bs)),
      d1_fileReferenceNumber = get_le (take 8 (drop 8 bs)),
      d1_parentFileReferenceNumber = get_le (take 8 (drop 16 bs)),
      d1_reason = get_le (take 4 (drop 24 bs)),
      d1_timestamp = get_le (take 8 (drop 28 bs)),
      d1_sizeBytes = get_le (take 8 (drop 36 bs)),
      d1_fileAttributes = get_le (take 4 (drop 44 bs)),
      d1_fileNameLengthChars = get_le (take 2 (drop 48 bs))\<rparr>"

record UsnDeltaFixedV2 =
  d2_usn :: u64
  d2_fileReferenceNumber :: u64
  d2_parentFileReferenceNumber :: u64
  d2_reason :: u32
  d2_timestamp :: u64
  d2_creationTime :: u64
  d2_lastModifiedTime :: u64
  d2_lastAccessTime :: u64
  d2_sizeBytes :: u64
  d2_fileAttributes :: u32
  d2_fieldMask :: u32
  d2_fileNameLengthChars :: u16

definition sizeof_UsnDeltaFixedV2 :: nat where
  "sizeof_UsnDeltaFixedV2 = 78"

definition put_UsnDeltaFixedV2 :: "UsnDeltaFixedV2 \<Rightarrow> byte list" where
  "put_UsnDeltaFixedV2 r =
     put_le 8 (d2_usn r) @
     put_le 8 (d2_fileReferenceNumber r) @
     put_le 8 (d2_parentFileReferenceNumber r) @
     put_le 4 (d2_reason r) @
     put_le 8 (d2_timestamp r) @
     put_le 8 (d2_creationTime r) @
     put_le 8 (d2_lastModifiedTime r) @
     put_le 8 (d2_lastAccessTime r) @
     put_le 8 (d2_sizeBytes r) @
     put_le 4 (d2_fileAttributes r) @
     put_le 4 (d2_fieldMask r) @
     put_le 2 (d2_fileNameLengthChars r)"

definition get_UsnDeltaFixedV2 :: "byte list \<Rightarrow> UsnDeltaFixedV2" where
  "get_UsnDeltaFixedV2 bs =
     \<lparr>d2_usn = get_le (take 8 (drop 0 bs)),
      d2_fileReferenceNumber = get_le (take 8 (drop 8 bs)),
      d2_parentFileReferenceNumber = get_le (take 8 (drop 16 bs)),
      d2_reason = get_le (take 4 (drop 24 bs)),
      d2_timestamp = get_le (take 8 (drop 28 bs)),
      d2_creationTime = get_le (take 8 (drop 36 bs)),
      d2_lastModifiedTime = get_le (take 8 (drop 44 bs)),
      d2_lastAccessTime = get_le (take 8 (drop 52 bs)),
      d2_sizeBytes = get_le (take 8 (drop 60 bs)),
      d2_fileAttributes = get_le (take 4 (drop 68 bs)),
      d2_fieldMask = get_le (take 4 (drop 72 bs)),
      d2_fileNameLengthChars = get_le (take 2 (drop 76 bs))\<rparr>"

record UsnDeltaFixedV3 =
  d3_usn :: u64
  d3_fileReferenceNumber :: u64
  d3_parentFileReferenceNumber :: u64
  d3_reason :: u32
  d3_timestamp :: u64
  d3_creationTime :: u64
  d3_lastModifiedTime :: u64
  d3_lastAccessTime :: u64
  d3_sizeBytes :: u64
  d3_allocatedSizeBytes :: u64
  d3_fileAttributes :: u32
  d3_fieldMask :: u32
  d3_fileNameLengthChars :: u16

definition sizeof_UsnDeltaFixedV3 :: nat where
  "sizeof_UsnDeltaFixedV3 = 86"

definition put_UsnDeltaFixedV3 :: "UsnDeltaFixedV3 \<Rightarrow> byte list" where
  "put_UsnDeltaFixedV3 r =
     put_le 8 (d3_usn r) @
     put_le 8 (d3_fileReferenceNumber r) @
     put_le 8 (d3_parentFileReferenceNumber r) @
     put_le 4 (d3_reason r) @
     put_le 8 (d3_timestamp r) @
     put_le 8 (d3_creationTime r) @
     put_le 8 (d3_lastModifiedTime r) @
     put_le 8 (d3_lastAccessTime r) @
     put_le 8 (d3_sizeBytes r) @
     put_le 8 (d3_allocatedSizeBytes r) @
     put_le 4 (d3_fileAttributes r) @
     put_le 4 (d3_fieldMask r) @
     put_le 2 (d3_fileNameLengthChars r)"

definition get_UsnDeltaFixedV3 :: "byte list \<Rightarrow> UsnDeltaFixedV3" where
  "get_UsnDeltaFixedV3 bs =
     \<lparr>d3_usn = get_le (take 8 (drop 0 bs)),
      d3_fileReferenceNumber = get_le (take 8 (drop 8 bs)),
      d3_parentFileReferenceNumber = get_le (take 8 (drop 16 bs)),
      d3_reason = get_le (take 4 (drop 24 bs)),
      d3_timestamp = get_le (take 8 (drop 28 bs)),
      d3_creationTime = get_le (take 8 (drop 36 bs)),
      d3_lastModifiedTime = get_le (take 8 (drop 44 bs)),
      d3_lastAccessTime = get_le (take 8 (drop 52 bs)),
      d3_sizeBytes = get_le (take 8 (drop 60 bs)),
      d3_allocatedSizeBytes = get_le (take 8 (drop 68 bs)),
      d3_fileAttributes = get_le (take 4 (drop 76 bs)),
      d3_fieldMask = get_le (take 4 (drop 80 bs)),
      d3_fileNameLengthChars = get_le (take 2 (drop 84 bs))\<rparr>"

text \<open>The contract a fixed layout gives the batch templates: its size and two-sided codec laws.\<close>

locale fixed_layout =
  fixes size_f :: nat
    and put_f :: "'f \<Rightarrow> byte list"
    and get_f :: "byte list \<Rightarrow> 'f"
    and name_len :: "'f \<Rightarrow> u16"
  assumes length_put: "length (put_f f) = size_f"
    and get_put: "get_f (put_f f) = f"
    and put_get: "length bs = size_f \<Longrightarrow> put_f (get_f bs) = bs"
    and small: "size_f \<le> 1024"

section \<open>Guards\<close>

definition kMaxFileNameLengthChars :: u16 where
  "kMaxFileNameLengthChars = 255"

definition kMaxBatchRecordCount :: u32 where
  "kMaxBatchRecordCount = 8192"

definition IsFileNameLengthValid :: "u16 \<Rightarrow> bool" where
  "IsFileNameLengthValid lengthChars \<longleftrightarrow>
     lengthChars \<ge> 1 \<and> lengthChars \<le> kMaxFileNameLengthChars"

text \<open>The product is computed in \<open>uint64_t\<close>, hence modulo \<open>2 ^ 64\<close>.\<close>

definition IsBatchCountPlausible :: "u32 \<Rightarrow> nat \<Rightarrow> nat \<Rightarrow> bool" where
  "IsBatchCountPlausible declaredCount payloadSize fixedRecordSize =
     (if declaredCount > kMaxBatchRecordCount then False
      else (let minPossibleSize = (unat declaredCount * (fixedRecordSize + 2)) mod 2 ^ 64
            in minPossibleSize \<le> payloadSize))"

lemma IsFileNameLengthValid_iff: "IsFileNameLengthValid n \<longleftrightarrow> 1 \<le> unat n \<and> unat n \<le> 255"
  by (simp add: IsFileNameLengthValid_def kMaxFileNameLengthChars_def word_le_nat_alt)

lemma IsBatchCountPlausible_iff:
  assumes "fixedRecordSize \<le> 1024"
  shows "IsBatchCountPlausible n payloadSize fixedRecordSize \<longleftrightarrow>
     unat n \<le> 8192 \<and> unat n * (fixedRecordSize + 2) \<le> payloadSize"
proof (cases "unat n \<le> 8192")
  case True
  have "unat n * (fixedRecordSize + 2) \<le> 8192 * 1026"
    using True assms by (intro mult_le_mono) auto
  then have "(unat n * (fixedRecordSize + 2)) mod 2 ^ 64 = unat n * (fixedRecordSize + 2)"
    by simp
  then show ?thesis using True
    by (simp add: IsBatchCountPlausible_def kMaxBatchRecordCount_def word_less_nat_alt Let_def
        not_less)
next
  case False
  then show ?thesis
    by (simp add: IsBatchCountPlausible_def kMaxBatchRecordCount_def word_less_nat_alt)
qed

section \<open>The batch templates\<close>

text \<open>
  \<open>ParseBatch<FixedT>\<close>. The template parameter is passed as the size of the structure, its
  decoder and the selector of \<open>fileNameLengthChars\<close>. A payload is a pointer and a size; the null
  pointer is \<open>None\<close>. Failure of \<open>reserve\<close> (allocation) is outside the model.
\<close>

fun ParseBatch_loop ::
  "nat \<Rightarrow> (byte list \<Rightarrow> 'f) \<Rightarrow> ('f \<Rightarrow> u16) \<Rightarrow> byte list \<Rightarrow> nat \<Rightarrow> nat \<Rightarrow> nat \<Rightarrow>
     ('f \<times> u16string) list \<Rightarrow> (nat \<times> ('f \<times> u16string) list) option" where
  "ParseBatch_loop sz get nlen payload payloadSize 0 offset records = Some (offset, records)"
| "ParseBatch_loop sz get nlen payload payloadSize (Suc n) offset records =
     (if offset > payloadSize \<or> sz > payloadSize - offset then None
      else let fixed = get (take sz (drop offset payload));
               offset1 = offset + sz
        in if \<not> IsFileNameLengthValid (nlen fixed) then None
        else let fileNameBytes = unat (nlen fixed) * 2
          in if fileNameBytes > payloadSize - offset1 then None
          else let fileName = get_u16s (unat (nlen fixed)) (take fileNameBytes (drop offset1 payload))
            in ParseBatch_loop sz get nlen payload payloadSize n (offset1 + fileNameBytes)
                 (records @ [(fixed, fileName)]))"

definition ParseBatch ::
  "nat \<Rightarrow> (byte list \<Rightarrow> 'f) \<Rightarrow> ('f \<Rightarrow> u16) \<Rightarrow> byte list option \<Rightarrow> nat \<Rightarrow> u32 \<Rightarrow>
     ('f \<times> u16string) list option" where
  "ParseBatch sz get nlen payload payloadSize declaredCount =
     (if payload = None \<and> payloadSize \<noteq> 0 then None
      else if \<not> IsBatchCountPlausible declaredCount payloadSize sz then None
      else case ParseBatch_loop sz get nlen (case payload of None \<Rightarrow> [] | Some bs \<Rightarrow> bs) payloadSize
                  (unat declaredCount) 0 [] of
             None \<Rightarrow> None
           | Some (offset, records) \<Rightarrow> if offset \<noteq> payloadSize then None else Some records)"

text \<open>
  \<open>SerializeBatch<RecordT>\<close>: records whose declared name length is out of range or disagrees with
  the name are skipped.
\<close>

definition record_serializable :: "('f \<Rightarrow> u16) \<Rightarrow> 'f \<times> u16string \<Rightarrow> bool" where
  "record_serializable nlen r \<longleftrightarrow>
     IsFileNameLengthValid (nlen (fst r)) \<and> unat (nlen (fst r)) = length (snd r)"

fun SerializeBatch ::
  "('f \<Rightarrow> byte list) \<Rightarrow> ('f \<Rightarrow> u16) \<Rightarrow> ('f \<times> u16string) list \<Rightarrow> byte list" where
  "SerializeBatch put nlen [] = []"
| "SerializeBatch put nlen (r # rs) =
     (if \<not> record_serializable nlen r then SerializeBatch put nlen rs
      else put (fst r) @ put_u16s (snd r) @ SerializeBatch put nlen rs)"

lemma SerializeBatch_filter:
  "SerializeBatch put nlen (filter (record_serializable nlen) rs) = SerializeBatch put nlen rs"
  by (induction rs) auto

lemma SerializeBatch_append:
  "SerializeBatch put nlen (rs @ rs') = SerializeBatch put nlen rs @ SerializeBatch put nlen rs'"
  by (induction rs) auto

context fixed_layout
begin

abbreviation "parse_loop \<equiv> ParseBatch_loop size_f get_f name_len"
abbreviation "parse \<equiv> ParseBatch size_f get_f name_len"
abbreviation "serialize \<equiv> SerializeBatch put_f name_len"
abbreviation "serializable \<equiv> record_serializable name_len"

lemma serializable_bounds:
  "serializable (f, nm) \<Longrightarrow> IsFileNameLengthValid (name_len f) \<and> unat (name_len f) = length nm
     \<and> 1 \<le> length nm"
  by (auto simp: record_serializable_def IsFileNameLengthValid_iff)

lemma length_serialize:
  "list_all serializable rs \<Longrightarrow> length rs * (size_f + 2) \<le> length (serialize rs)"
proof (induction rs)
  case Nil
  then show ?case by simp
next
  case (Cons r rs)
  moreover obtain f nm where "r = (f, nm)" by force
  ultimately show ?case
    using serializable_bounds [of f nm] by (auto simp: length_put)
qed

text \<open>The loop consumes exactly the bytes of the records it is asked for.\<close>

lemma parse_loop_serialize:
  "list_all serializable rs \<Longrightarrow> payload = pre @ serialize rs @ post \<Longrightarrow>
     parse_loop payload (length payload) (length rs) (length pre) acc =
       Some (length pre + length (serialize rs), acc @ rs)"
proof (induction rs arbitrary: pre acc)
  case Nil
  then show ?case by simp
next
  case (Cons r rs)
  obtain f nm where r: "r = (f, nm)" by force
  with Cons.prems have ok: "serializable (f, nm)" and rest: "list_all serializable rs" by auto
  note b = serializable_bounds [OF ok]
  define pre' where "pre' = pre @ put_f f @ put_u16s nm"
  have pl: "payload = pre' @ serialize rs @ post"
    using Cons.prems ok by (simp add: r pre'_def)
  have lp: "length pre' = length pre + size_f + 2 * length nm"
    by (simp add: pre'_def length_put)
  have nm: "get_u16s (length nm) (take (2 * length nm) (drop (size_f + length pre) payload)) = nm"
    using get_put_u16s [of nm "[]"] by (simp add: pl pre'_def length_put)
  have fx: "get_f (take size_f (drop (length pre) payload)) = f"
    by (simp add: pl pre'_def length_put get_put)
  have len: "length payload = length pre' + length (serialize rs) + length post"
    by (simp add: pl)
  have "parse_loop payload (length payload) (length (r # rs)) (length pre) acc =
      parse_loop payload (length payload) (length rs) (length pre') (acc @ [(f, nm)])"
    using b nm by (simp add: Let_def fx len lp algebra_simps)
  also have "\<dots> = Some (length pre' + length (serialize rs), (acc @ [(f, nm)]) @ rs)"
    by (rule Cons.IH [OF rest pl])
  finally show ?case using ok by (simp add: r lp length_put)
qed

text \<open>A successful loop has read the serialization of what it returns.\<close>

lemma parse_loop_inv:
  "parse_loop payload (length payload) n offset acc = Some (offset', recs) \<Longrightarrow>
   offset \<le> length payload \<Longrightarrow>
     \<exists>rs. recs = acc @ rs \<and> length rs = n \<and> list_all serializable rs
        \<and> offset' = offset + length (serialize rs) \<and> offset' \<le> length payload
        \<and> take (length (serialize rs)) (drop offset payload) = serialize rs"
proof (induction n arbitrary: offset acc)
  case 0
  then show ?case by simp
next
  case (Suc n)
  define f where "f = get_f (take size_f (drop offset payload))"
  define k where "k = unat (name_len f)"
  define nm where "nm = get_u16s k (take (2 * k) (drop (offset + size_f) payload))"
  from Suc.prems have off: "offset \<le> length payload" "size_f \<le> length payload - offset"
    and ok: "IsFileNameLengthValid (name_len f)"
    and kb: "2 * k \<le> length payload - (offset + size_f)"
    and rec: "parse_loop payload (length payload) n (offset + size_f + 2 * k) (acc @ [(f, nm)])
                = Some (offset', recs)"
    by (auto simp: f_def k_def nm_def Let_def algebra_simps split: if_splits)
  from off kb have "offset + size_f + 2 * k \<le> length payload" by simp
  from Suc.IH [OF rec this] obtain rs where
    rs: "recs = acc @ (f, nm) # rs" "length rs = n" "list_all serializable rs"
      "offset' = offset + size_f + 2 * k + length (serialize rs)" "offset' \<le> length payload"
      "take (length (serialize rs)) (drop (offset + size_f + 2 * k) payload) = serialize rs"
    by auto
  have s: "serializable (f, nm)"
    using ok by (simp add: record_serializable_def nm_def k_def)
  have p1: "put_f f = take size_f (drop offset payload)"
    using off by (simp add: f_def put_get)
  have p2: "put_u16s nm = take (2 * k) (drop (offset + size_f) payload)"
    using kb by (simp add: nm_def put_get_u16s)
  have len: "length (serialize ((f, nm) # rs)) = size_f + 2 * k + length (serialize rs)"
    using s by (simp add: length_put nm_def)
  have "take (size_f + 2 * k + length (serialize rs)) (drop offset payload)
      = put_f f @ put_u16s nm @ serialize rs"
    using rs(6) by (simp add: p1 p2 take_add algebra_simps)
  then have "take (length (serialize ((f, nm) # rs))) (drop offset payload) = serialize ((f, nm) # rs)"
    unfolding len using s by simp
  then show ?case
    using rs s len
    by (intro exI [of _ "(f, nm) # rs"]) (simp add: list_all_def del: SerializeBatch.simps)
qed

lemma parse_serialize:
  assumes "list_all serializable rs" and "length rs \<le> 8192"
  shows "parse (Some (serialize rs)) (length (serialize rs)) (of_nat (length rs)) = Some rs"
proof -
  have n: "unat (of_nat (length rs) :: u32) = length rs"
    using assms(2) by (simp add: unat_of_nat)
  have "IsBatchCountPlausible (of_nat (length rs)) (length (serialize rs)) size_f"
    using assms length_serialize [OF assms(1)] small
    by (simp add: IsBatchCountPlausible_iff n)
  moreover have "parse_loop (serialize rs) (length (serialize rs)) (length rs) 0 [] =
      Some (length (serialize rs), rs)"
    using parse_loop_serialize [OF assms(1), of "serialize rs" "[]" "[]" "[]"] by simp
  ultimately show ?thesis by (simp add: ParseBatch_def n)
qed

lemma parse_inv:
  assumes "parse (Some payload) (length payload) n = Some rs"
  shows "length rs = unat n \<and> unat n \<le> 8192 \<and> list_all serializable rs \<and> payload = serialize rs"
proof -
  from assms have pl: "IsBatchCountPlausible n (length payload) size_f"
    and lp: "parse_loop payload (length payload) (unat n) 0 [] = Some (length payload, rs)"
    by (auto simp: ParseBatch_def split: if_splits option.splits prod.splits)
  from parse_loop_inv [OF lp] obtain rs' where
    "rs = rs'" "length rs' = unat n" "list_all serializable rs'"
    "length payload = length (serialize rs')"
    "take (length (serialize rs')) payload = serialize rs'"
    by auto
  then show ?thesis using pl small by (auto simp: IsBatchCountPlausible_iff)
qed

end

section \<open>The five layouts\<close>

lemmas MftRecordFixedV1_defs = sizeof_MftRecordFixedV1_def put_MftRecordFixedV1_def
  get_MftRecordFixedV1_def
lemmas MftRecordFixedV2_defs = sizeof_MftRecordFixedV2_def put_MftRecordFixedV2_def
  get_MftRecordFixedV2_def
lemmas UsnDeltaFixedV1_defs = sizeof_UsnDeltaFixedV1_def put_UsnDeltaFixedV1_def
  get_UsnDeltaFixedV1_def
lemmas UsnDeltaFixedV2_defs = sizeof_UsnDeltaFixedV2_def put_UsnDeltaFixedV2_def
  get_UsnDeltaFixedV2_def
lemmas UsnDeltaFixedV3_defs = sizeof_UsnDeltaFixedV3_def put_UsnDeltaFixedV3_def
  get_UsnDeltaFixedV3_def

interpretation mft1: fixed_layout sizeof_MftRecordFixedV1 put_MftRecordFixedV1
  get_MftRecordFixedV1 m1_fileNameLengthChars
  by unfold_locales (simp_all add: MftRecordFixedV1_defs codec_simps)

interpretation mft2: fixed_layout sizeof_MftRecordFixedV2 put_MftRecordFixedV2
  get_MftRecordFixedV2 m2_fileNameLengthChars
  by unfold_locales (simp_all add: MftRecordFixedV2_defs codec_simps)

interpretation usn1: fixed_layout sizeof_UsnDeltaFixedV1 put_UsnDeltaFixedV1
  get_UsnDeltaFixedV1 d1_fileNameLengthChars
  by unfold_locales (simp_all add: UsnDeltaFixedV1_defs codec_simps)

interpretation usn2: fixed_layout sizeof_UsnDeltaFixedV2 put_UsnDeltaFixedV2
  get_UsnDeltaFixedV2 d2_fileNameLengthChars
  by unfold_locales (simp_all add: UsnDeltaFixedV2_defs codec_simps)

interpretation usn3: fixed_layout sizeof_UsnDeltaFixedV3 put_UsnDeltaFixedV3
  get_UsnDeltaFixedV3 d3_fileNameLengthChars
  by unfold_locales (simp_all add: UsnDeltaFixedV3_defs codec_simps)

section \<open>Records and the public parsers\<close>

type_synonym MftRecordV1 = "MftRecordFixedV1 \<times> u16string"
type_synonym MftRecordV2 = "MftRecordFixedV2 \<times> u16string"
type_synonym UsnDeltaV1 = "UsnDeltaFixedV1 \<times> u16string"
type_synonym UsnDeltaV2 = "UsnDeltaFixedV2 \<times> u16string"
type_synonym UsnDeltaV3 = "UsnDeltaFixedV3 \<times> u16string"

definition kUsnFieldParentId :: u32 where "kUsnFieldParentId = push_bit 0 1"
definition kUsnFieldName :: u32 where "kUsnFieldName = push_bit 1 1"
definition kUsnFieldSizeBytes :: u32 where "kUsnFieldSizeBytes = push_bit 2 1"
definition kUsnFieldCreationTime :: u32 where "kUsnFieldCreationTime = push_bit 3 1"
definition kUsnFieldLastModifiedTime :: u32 where "kUsnFieldLastModifiedTime = push_bit 4 1"
definition kUsnFieldLastAccessTime :: u32 where "kUsnFieldLastAccessTime = push_bit 5 1"
definition kUsnFieldAttributes :: u32 where "kUsnFieldAttributes = push_bit 6 1"
definition kUsnFieldAllocatedSizeBytes :: u32 where "kUsnFieldAllocatedSizeBytes = push_bit 7 1"

definition kUsnFieldMaskAll :: u32 where
  "kUsnFieldMaskAll =
     kUsnFieldParentId OR kUsnFieldName OR kUsnFieldSizeBytes OR kUsnFieldCreationTime OR
     kUsnFieldLastModifiedTime OR kUsnFieldLastAccessTime OR kUsnFieldAttributes OR
     kUsnFieldAllocatedSizeBytes"

lemmas kUsnField_defs = kUsnFieldParentId_def kUsnFieldName_def kUsnFieldSizeBytes_def
  kUsnFieldCreationTime_def kUsnFieldLastModifiedTime_def kUsnFieldLastAccessTime_def
  kUsnFieldAttributes_def kUsnFieldAllocatedSizeBytes_def

lemma kUsnFieldMaskAll_eq: "kUsnFieldMaskAll = 0xFF"
  by (simp add: kUsnFieldMaskAll_def kUsnField_defs)

definition ParseMftBatch :: "byte list option \<Rightarrow> nat \<Rightarrow> u32 \<Rightarrow> MftRecordV1 list option" where
  "ParseMftBatch payload payloadSize declaredCount =
     ParseBatch sizeof_MftRecordFixedV1 get_MftRecordFixedV1 m1_fileNameLengthChars
       payload payloadSize declaredCount"

definition ParseMftBatchV2 :: "byte list option \<Rightarrow> nat \<Rightarrow> u32 \<Rightarrow> MftRecordV2 list option" where
  "ParseMftBatchV2 payload payloadSize declaredCount =
     ParseBatch sizeof_MftRecordFixedV2 get_MftRecordFixedV2 m2_fileNameLengthChars
       payload payloadSize declaredCount"

definition ParseUsnDeltaBatch :: "byte list option \<Rightarrow> nat \<Rightarrow> u32 \<Rightarrow> UsnDeltaV1 list option" where
  "ParseUsnDeltaBatch payload payloadSize declaredCount =
     ParseBatch sizeof_UsnDeltaFixedV1 get_UsnDeltaFixedV1 d1_fileNameLengthChars
       payload payloadSize declaredCount"

text \<open>The copy loop of the masked versions, which rejects the batch at an unknown mask bit.\<close>

fun check_masks :: "('f \<Rightarrow> u32) \<Rightarrow> ('f \<times> u16string) list \<Rightarrow> ('f \<times> u16string) list option" where
  "check_masks fm [] = Some []"
| "check_masks fm (r # rs) =
     (if fm (fst r) AND NOT kUsnFieldMaskAll \<noteq> 0 then None
      else case check_masks fm rs of None \<Rightarrow> None | Some rs' \<Rightarrow> Some (r # rs'))"

definition ParseUsnDeltaV2Batch :: "byte list option \<Rightarrow> nat \<Rightarrow> u32 \<Rightarrow> UsnDeltaV2 list option" where
  "ParseUsnDeltaV2Batch payload payloadSize declaredCount =
     (case ParseBatch sizeof_UsnDeltaFixedV2 get_UsnDeltaFixedV2 d2_fileNameLengthChars
             payload payloadSize declaredCount of
        None \<Rightarrow> None
      | Some parsed \<Rightarrow> check_masks d2_fieldMask parsed)"

definition ParseUsnDeltaV3Batch :: "byte list option \<Rightarrow> nat \<Rightarrow> u32 \<Rightarrow> UsnDeltaV3 list option" where
  "ParseUsnDeltaV3Batch payload payloadSize declaredCount =
     (case ParseBatch sizeof_UsnDeltaFixedV3 get_UsnDeltaFixedV3 d3_fileNameLengthChars
             payload payloadSize declaredCount of
        None \<Rightarrow> None
      | Some parsed \<Rightarrow> check_masks d3_fieldMask parsed)"

definition SerializeMftBatch :: "MftRecordV1 list \<Rightarrow> byte list" where
  "SerializeMftBatch records = SerializeBatch put_MftRecordFixedV1 m1_fileNameLengthChars records"

definition SerializeMftBatchV2 :: "MftRecordV2 list \<Rightarrow> byte list" where
  "SerializeMftBatchV2 records = SerializeBatch put_MftRecordFixedV2 m2_fileNameLengthChars records"

definition SerializeUsnDeltaBatch :: "UsnDeltaV1 list \<Rightarrow> byte list" where
  "SerializeUsnDeltaBatch records = SerializeBatch put_UsnDeltaFixedV1 d1_fileNameLengthChars records"

definition SerializeUsnDeltaV2Batch :: "UsnDeltaV2 list \<Rightarrow> byte list" where
  "SerializeUsnDeltaV2Batch records = SerializeBatch put_UsnDeltaFixedV2 d2_fileNameLengthChars records"

definition SerializeUsnDeltaV3Batch :: "UsnDeltaV3 list \<Rightarrow> byte list" where
  "SerializeUsnDeltaV3Batch records = SerializeBatch put_UsnDeltaFixedV3 d3_fileNameLengthChars records"

lemma check_masks_Some_iff:
  "check_masks fm rs = Some rs' \<longleftrightarrow>
     rs' = rs \<and> list_all (\<lambda>r. fm (fst r) AND NOT kUsnFieldMaskAll = 0) rs"
proof (induction rs arbitrary: rs')
  case (Cons r rs)
  then show ?case by (cases "check_masks fm rs") auto
qed auto

lemmas Mft_batch_defs = ParseMftBatch_def ParseMftBatchV2_def SerializeMftBatch_def
  SerializeMftBatchV2_def
lemmas Usn_batch_defs = ParseUsnDeltaBatch_def ParseUsnDeltaV2Batch_def ParseUsnDeltaV3Batch_def
  SerializeUsnDeltaBatch_def SerializeUsnDeltaV2Batch_def SerializeUsnDeltaV3Batch_def

lemma list_all_filter_self: "list_all P (filter P xs)"
  by (induction xs) auto

text \<open>
  C17. Sending a scan batch loses only what the serializer documents as dropped: for every MFT
  batch, in either layout, with at most 8192 serializable records, parsing the serialized bytes
  with the number of serializable records as the declared count returns exactly those records,
  in order.
\<close>

theorem ParseMftBatch_roundtrip:
  assumes "length (filter (record_serializable m1_fileNameLengthChars) rs) \<le> 8192"
    and "length (filter (record_serializable m2_fileNameLengthChars) rs2) \<le> 8192"
  shows "ParseMftBatch (Some (SerializeMftBatch rs)) (length (SerializeMftBatch rs))
           (of_nat (length (filter (record_serializable m1_fileNameLengthChars) rs)))
           = Some (filter (record_serializable m1_fileNameLengthChars) rs)
       \<and> ParseMftBatchV2 (Some (SerializeMftBatchV2 rs2)) (length (SerializeMftBatchV2 rs2))
           (of_nat (length (filter (record_serializable m2_fileNameLengthChars) rs2)))
           = Some (filter (record_serializable m2_fileNameLengthChars) rs2)"
  using mft1.parse_serialize [OF list_all_filter_self assms(1)]
    mft2.parse_serialize [OF list_all_filter_self assms(2)]
  by (simp add: Mft_batch_defs SerializeBatch_filter)

definition sample_mft1 :: MftRecordFixedV1 where
  "sample_mft1 = \<lparr>m1_fileReferenceNumber = 41, m1_parentFileReferenceNumber = 5,
     m1_creationTime = 1, m1_lastModifiedTime = 2, m1_lastAccessTime = 3, m1_sizeBytes = 4096,
     m1_fileAttributes = 32, m1_fileNameLengthChars = 2\<rparr>"

definition sample_mft2 :: MftRecordFixedV2 where
  "sample_mft2 = \<lparr>m2_fileReferenceNumber = 41, m2_parentFileReferenceNumber = 5,
     m2_creationTime = 1, m2_lastModifiedTime = 2, m2_lastAccessTime = 3, m2_sizeBytes = 4000,
     m2_allocatedSizeBytes = 4096, m2_fileAttributes = 32, m2_fileNameLengthChars = 1\<rparr>"

lemma sample_mft_lens:
  "m1_fileNameLengthChars sample_mft1 = 2" "m2_fileNameLengthChars sample_mft2 = 1"
  by (simp_all add: sample_mft1_def sample_mft2_def)

lemma sample_mft_serializable:
  "record_serializable m1_fileNameLengthChars (sample_mft1, [65, 66])"
  "record_serializable m2_fileNameLengthChars (sample_mft2, [67])"
  by (simp_all add: record_serializable_def sample_mft_lens IsFileNameLengthValid_iff)

theorem ParseMftBatch_roundtrip_witness:
  "ParseMftBatch (Some (SerializeMftBatch [(sample_mft1, [65, 66])]))
      (length (SerializeMftBatch [(sample_mft1, [65, 66])])) 1 = Some [(sample_mft1, [65, 66])]
   \<and> ParseMftBatchV2 (Some (SerializeMftBatchV2 [(sample_mft2, [67])]))
      (length (SerializeMftBatchV2 [(sample_mft2, [67])])) 1 = Some [(sample_mft2, [67])]"
  using ParseMftBatch_roundtrip [of "[(sample_mft1, [65, 66])]" "[(sample_mft2, [67])]"]
  by (simp add: sample_mft_serializable)

text \<open>
  C27. A USN batch is accepted only as a whole and only in canonical form: when the V3 parser
  accepts a payload, the declared count is at most 8192 and is the number of records returned,
  every record has a non-empty name of at most 255 units whose length matches its declared
  length, no record carries an unknown presence bit, and the payload is byte for byte the
  serialization of the records returned (no trailing or unread bytes).
\<close>

theorem ParseUsnDeltaV3Batch_canonical:
  assumes "ParseUsnDeltaV3Batch (Some payload) (length payload) n = Some rs"
  shows "length rs = unat n \<and> unat n \<le> 8192
    \<and> list_all (\<lambda>r. unat (d3_fileNameLengthChars (fst r)) = length (snd r)
         \<and> 1 \<le> length (snd r) \<and> length (snd r) \<le> 255
         \<and> d3_fieldMask (fst r) AND NOT kUsnFieldMaskAll = 0) rs
    \<and> payload = SerializeUsnDeltaV3Batch rs"
proof -
  from assms have p: "usn3.parse (Some payload) (length payload) n = Some rs"
    and m: "list_all (\<lambda>r. d3_fieldMask (fst r) AND NOT kUsnFieldMaskAll = 0) rs"
    by (auto simp: Usn_batch_defs check_masks_Some_iff split: option.splits)
  show ?thesis
    using usn3.parse_inv [OF p] m
    by (auto simp: Usn_batch_defs record_serializable_def IsFileNameLengthValid_iff list_all_def)
qed

definition sample_usn3 :: UsnDeltaFixedV3 where
  "sample_usn3 = \<lparr>d3_usn = 7, d3_fileReferenceNumber = 41, d3_parentFileReferenceNumber = 5,
     d3_reason = 2, d3_timestamp = 9, d3_creationTime = 1, d3_lastModifiedTime = 2,
     d3_lastAccessTime = 3, d3_sizeBytes = 4000, d3_allocatedSizeBytes = 4096,
     d3_fileAttributes = 32, d3_fieldMask = 0xFF, d3_fileNameLengthChars = 1\<rparr>"

lemma sample_usn3_fields:
  "d3_fileNameLengthChars sample_usn3 = 1" "d3_fieldMask sample_usn3 = 0xFF"
  by (simp_all add: sample_usn3_def)

lemma sample_usn3_parses:
  "ParseUsnDeltaV3Batch (Some (SerializeUsnDeltaV3Batch [(sample_usn3, [88])]))
     (length (SerializeUsnDeltaV3Batch [(sample_usn3, [88])])) 1 = Some [(sample_usn3, [88])]"
  using usn3.parse_serialize [of "[(sample_usn3, [88])]"]
  by (simp add: Usn_batch_defs check_masks_Some_iff kUsnFieldMaskAll_eq sample_usn3_fields
      record_serializable_def IsFileNameLengthValid_iff)

theorem ParseUsnDeltaV3Batch_canonical_witness:
  "\<exists>payload rs. ParseUsnDeltaV3Batch (Some payload) (length payload) 1 = Some rs
     \<and> length rs = 1 \<and> payload = SerializeUsnDeltaV3Batch rs"
  using ParseUsnDeltaV3Batch_canonical [OF sample_usn3_parses] sample_usn3_parses by auto

section \<open>Conversions between record versions\<close>

definition UpgradeUsnDeltaV1 :: "UsnDeltaV1 \<Rightarrow> UsnDeltaV2" where
  "UpgradeUsnDeltaV1 record =
     (\<lparr>d2_usn = d1_usn (fst record),
       d2_fileReferenceNumber = d1_fileReferenceNumber (fst record),
       d2_parentFileReferenceNumber = d1_parentFileReferenceNumber (fst record),
       d2_reason = d1_reason (fst record),
       d2_timestamp = d1_timestamp (fst record),
       d2_creationTime = 0,
       d2_lastModifiedTime = d1_timestamp (fst record),
       d2_lastAccessTime = 0,
       d2_sizeBytes = d1_sizeBytes (fst record),
       d2_fileAttributes = d1_fileAttributes (fst record),
       d2_fieldMask = kUsnFieldParentId OR kUsnFieldName OR kUsnFieldSizeBytes OR
         kUsnFieldLastModifiedTime OR kUsnFieldAttributes,
       d2_fileNameLengthChars = d1_fileNameLengthChars (fst record)\<rparr>, snd record)"

definition DowngradeUsnDeltaV2 :: "UsnDeltaV2 \<Rightarrow> UsnDeltaV1" where
  "DowngradeUsnDeltaV2 record =
     (\<lparr>d1_usn = d2_usn (fst record),
       d1_fileReferenceNumber = d2_fileReferenceNumber (fst record),
       d1_parentFileReferenceNumber = d2_parentFileReferenceNumber (fst record),
       d1_reason = d2_reason (fst record),
       d1_timestamp = d2_timestamp (fst record),
       d1_sizeBytes = d2_sizeBytes (fst record),
       d1_fileAttributes = d2_fileAttributes (fst record),
       d1_fileNameLengthChars = d2_fileNameLengthChars (fst record)\<rparr>, snd record)"

definition UpgradeUsnDeltaV2 :: "UsnDeltaV2 \<Rightarrow> UsnDeltaV3" where
  "UpgradeUsnDeltaV2 record =
     (\<lparr>d3_usn = d2_usn (fst record),
       d3_fileReferenceNumber = d2_fileReferenceNumber (fst record),
       d3_parentFileReferenceNumber = d2_parentFileReferenceNumber (fst record),
       d3_reason = d2_reason (fst record),
       d3_timestamp = d2_timestamp (fst record),
       d3_creationTime = d2_creationTime (fst record),
       d3_lastModifiedTime = d2_lastModifiedTime (fst record),
       d3_lastAccessTime = d2_lastAccessTime (fst record),
       d3_sizeBytes = d2_sizeBytes (fst record),
       d3_allocatedSizeBytes = 0,
       d3_fileAttributes = d2_fileAttributes (fst record),
       d3_fieldMask = d2_fieldMask (fst record),
       d3_fileNameLengthChars = d2_fileNameLengthChars (fst record)\<rparr>, snd record)"

definition IsRepresentableInUsnV2 :: "UsnDeltaV3 \<Rightarrow> bool" where
  "IsRepresentableInUsnV2 record =
     (if d3_fieldMask (fst record) AND NOT kUsnFieldMaskAll \<noteq> 0 then False
      else d3_fieldMask (fst record) AND kUsnFieldAllocatedSizeBytes = 0)"

definition DowngradeUsnDeltaV3 :: "UsnDeltaV3 \<Rightarrow> UsnDeltaV2" where
  "DowngradeUsnDeltaV3 record =
     (\<lparr>d2_usn = d3_usn (fst record),
       d2_fileReferenceNumber = d3_fileReferenceNumber (fst record),
       d2_parentFileReferenceNumber = d3_parentFileReferenceNumber (fst record),
       d2_reason = d3_reason (fst record),
       d2_timestamp = d3_timestamp (fst record),
       d2_creationTime = d3_creationTime (fst record),
       d2_lastModifiedTime = d3_lastModifiedTime (fst record),
       d2_lastAccessTime = d3_lastAccessTime (fst record),
       d2_sizeBytes = d3_sizeBytes (fst record),
       d2_fileAttributes = d3_fileAttributes (fst record),
       d2_fieldMask = d3_fieldMask (fst record),
       d2_fileNameLengthChars = d3_fileNameLengthChars (fst record)\<rparr>, snd record)"

definition DowngradeUsnDeltaV3ToV1 :: "UsnDeltaV3 \<Rightarrow> UsnDeltaV1" where
  "DowngradeUsnDeltaV3ToV1 record =
     (\<lparr>d1_usn = d3_usn (fst record),
       d1_fileReferenceNumber = d3_fileReferenceNumber (fst record),
       d1_parentFileReferenceNumber = d3_parentFileReferenceNumber (fst record),
       d1_reason = d3_reason (fst record),
       d1_timestamp = d3_timestamp (fst record),
       d1_sizeBytes = d3_sizeBytes (fst record),
       d1_fileAttributes = d3_fileAttributes (fst record),
       d1_fileNameLengthChars = d3_fileNameLengthChars (fst record)\<rparr>, snd record)"

lemmas conversion_defs = UpgradeUsnDeltaV1_def DowngradeUsnDeltaV2_def UpgradeUsnDeltaV2_def
  DowngradeUsnDeltaV3_def DowngradeUsnDeltaV3ToV1_def

text \<open>The records a peer of protocol 2.0 is sent: those that V2 can represent, downgraded.\<close>

definition v2Records :: "UsnDeltaV3 list \<Rightarrow> UsnDeltaV2 list" where
  "v2Records records = map DowngradeUsnDeltaV3 (filter IsRepresentableInUsnV2 records)"

text \<open>\<open>s\<close> tells the receiver all that \<open>r\<close> does: every field is the same, the allocated size at least when it is marked present.\<close>

definition carries :: "UsnDeltaV3 \<Rightarrow> UsnDeltaV3 \<Rightarrow> bool" where
  "carries r s \<longleftrightarrow> snd s = snd r \<and> (fst s)\<lparr>d3_allocatedSizeBytes := d3_allocatedSizeBytes (fst r)\<rparr> = fst r
     \<and> (d3_fieldMask (fst r) AND kUsnFieldAllocatedSizeBytes = 0 \<or> d3_allocatedSizeBytes (fst s) = d3_allocatedSizeBytes (fst r))"

lemma up_down_V3: "UpgradeUsnDeltaV2 (DowngradeUsnDeltaV3 r) = ((fst r)\<lparr>d3_allocatedSizeBytes := 0\<rparr>, snd r)"
  by (simp add: conversion_defs)

lemma carries_up_down:
  "carries r (UpgradeUsnDeltaV2 (DowngradeUsnDeltaV3 r)) \<longleftrightarrow>
     d3_fieldMask (fst r) AND kUsnFieldAllocatedSizeBytes = 0 \<or> d3_allocatedSizeBytes (fst r) = 0"
  by (auto simp: carries_def up_down_V3)

lemma representable_iff:
  "IsRepresentableInUsnV2 r \<longleftrightarrow> d3_fieldMask (fst r) AND NOT kUsnFieldMaskAll = 0
     \<and> (\<forall>n. carries ((fst r)\<lparr>d3_allocatedSizeBytes := n\<rparr>, snd r)
            (UpgradeUsnDeltaV2 (DowngradeUsnDeltaV3 ((fst r)\<lparr>d3_allocatedSizeBytes := n\<rparr>, snd r))))"
proof -
  have "\<exists>n :: u64. n \<noteq> 0" by (rule exI [of _ 1]) simp
  then show ?thesis by (auto simp: IsRepresentableInUsnV2_def carries_up_down)
qed

lemma v2Records_parse:
  assumes "list_all (record_serializable d3_fileNameLengthChars) records" "length records \<le> 8192"
  shows "ParseUsnDeltaV2Batch (Some (SerializeUsnDeltaV2Batch (v2Records records)))
    (length (SerializeUsnDeltaV2Batch (v2Records records))) (of_nat (length (v2Records records))) = Some (v2Records records)"
proof -
  have all: "list_all (record_serializable d2_fileNameLengthChars) (v2Records records)"
    using assms(1) by (auto simp: v2Records_def list_all_iff record_serializable_def DowngradeUsnDeltaV3_def)
  have "length (v2Records records) \<le> 8192" using order_trans [OF length_filter_le assms(2)] by (simp add: v2Records_def)
  from usn2.parse_serialize [OF all this] have "usn2.parse (Some (usn2.serialize (v2Records records)))
    (length (usn2.serialize (v2Records records))) (of_nat (length (v2Records records))) = Some (v2Records records)" .
  moreover have "list_all (\<lambda>r. d2_fieldMask (fst r) AND NOT kUsnFieldMaskAll = 0) (v2Records records)"
    by (auto simp: v2Records_def list_all_iff IsRepresentableInUsnV2_def DowngradeUsnDeltaV3_def split: if_splits)
  ultimately show ?thesis by (simp add: Usn_batch_defs check_masks_Some_iff)
qed

text \<open>
  C36. An older peer is told nothing false. For a batch of at most 8192 records whose stored name lengths are valid and
  are those of their names, the records that the service selects for a V2 peer, once serialized, are accepted by the V2 parser, and
  after upgrading they carry, in order, every field of the representable records they came from, the allocated size
  excepted, which none of them marks present. The test for being representable is exact: it accepts a record if and
  only if its mask has known bits only and the way through V2 keeps all it says, whatever its allocated size. A
  V1 record survives the upgrade to V2 or V3 and the way back unchanged, and the two downgrade paths from V3 to V1 agree.
\<close>

theorem usn_conversion_roundtrips:
  assumes "list_all (record_serializable d3_fileNameLengthChars) records" "length records \<le> 8192"
  shows "(\<exists>received. ParseUsnDeltaV2Batch (Some (SerializeUsnDeltaV2Batch (v2Records records)))
          (length (SerializeUsnDeltaV2Batch (v2Records records))) (of_nat (length (v2Records records))) = Some received
        \<and> list_all2 carries (filter IsRepresentableInUsnV2 records) (map UpgradeUsnDeltaV2 received))
    \<and> (IsRepresentableInUsnV2 r3 \<longleftrightarrow> d3_fieldMask (fst r3) AND NOT kUsnFieldMaskAll = 0
        \<and> (\<forall>n. carries ((fst r3)\<lparr>d3_allocatedSizeBytes := n\<rparr>, snd r3)
               (UpgradeUsnDeltaV2 (DowngradeUsnDeltaV3 ((fst r3)\<lparr>d3_allocatedSizeBytes := n\<rparr>, snd r3)))))
    \<and> DowngradeUsnDeltaV2 (UpgradeUsnDeltaV1 r1) = r1
    \<and> DowngradeUsnDeltaV3ToV1 (UpgradeUsnDeltaV2 (UpgradeUsnDeltaV1 r1)) = r1
    \<and> DowngradeUsnDeltaV2 (DowngradeUsnDeltaV3 r3) = DowngradeUsnDeltaV3ToV1 r3"
proof -
  have "list_all2 carries (filter IsRepresentableInUsnV2 records) (map UpgradeUsnDeltaV2 (v2Records records))"
    by (auto simp: v2Records_def list.rel_map carries_up_down IsRepresentableInUsnV2_def split: if_splits intro!: list.rel_refl_strong)
  moreover have "DowngradeUsnDeltaV2 (UpgradeUsnDeltaV1 r1) = r1" "DowngradeUsnDeltaV3ToV1 (UpgradeUsnDeltaV2 (UpgradeUsnDeltaV1 r1)) = r1"
    "DowngradeUsnDeltaV2 (DowngradeUsnDeltaV3 r3) = DowngradeUsnDeltaV3ToV1 r3"
    by (cases r1, simp add: conversion_defs)+
  ultimately show ?thesis using v2Records_parse [OF assms] representable_iff by blast
qed

theorem usn_conversion_roundtrips_witness:
  "let plain = sample_usn3\<lparr>d3_fieldMask := kUsnFieldName\<rparr>; records = [(sample_usn3, [88]), (plain, [88])]
   in filter IsRepresentableInUsnV2 records = [(plain, [88])]
      \<and> (\<exists>received. ParseUsnDeltaV2Batch (Some (SerializeUsnDeltaV2Batch (v2Records records)))
          (length (SerializeUsnDeltaV2Batch (v2Records records))) (of_nat (length (v2Records records))) = Some received
        \<and> list_all2 carries [(plain, [88])] (map UpgradeUsnDeltaV2 received))"
proof -
  let ?plain = "sample_usn3\<lparr>d3_fieldMask := kUsnFieldName\<rparr>"
  let ?records = "[(sample_usn3, [88]), (?plain, [88])]"
  have f: "filter IsRepresentableInUsnV2 ?records = [(?plain, [88])]"
    by (simp add: IsRepresentableInUsnV2_def sample_usn3_fields kUsnFieldMaskAll_eq kUsnField_defs)
  have s: "list_all (record_serializable d3_fileNameLengthChars) ?records"
    by (simp add: record_serializable_def IsFileNameLengthValid_iff sample_usn3_fields)
  show ?thesis using conjunct1 [OF usn_conversion_roundtrips [OF s], unfolded f] f unfolding Let_def by simp
qed

definition sample_usn2 :: UsnDeltaFixedV2 where
  "sample_usn2 = \<lparr>d2_usn = 7, d2_fileReferenceNumber = 41, d2_parentFileReferenceNumber = 5,
     d2_reason = 2, d2_timestamp = 9, d2_creationTime = 1, d2_lastModifiedTime = 2,
     d2_lastAccessTime = 3, d2_sizeBytes = 4000,
     d2_fileAttributes = 32, d2_fieldMask = 0x80, d2_fileNameLengthChars = 1\<rparr>"

lemma sample_usn2_fields:
  "d2_fileNameLengthChars sample_usn2 = 1" "d2_fieldMask sample_usn2 = 0x80"
  by (simp_all add: sample_usn2_def)

lemma sample_usn2_parses:
  "ParseUsnDeltaV2Batch (Some (SerializeUsnDeltaV2Batch [(sample_usn2, [88])]))
     (length (SerializeUsnDeltaV2Batch [(sample_usn2, [88])])) 1 = Some [(sample_usn2, [88])]"
  using usn2.parse_serialize [of "[(sample_usn2, [88])]"]
  by (simp add: Usn_batch_defs check_masks_Some_iff kUsnFieldMaskAll_eq sample_usn2_fields
      record_serializable_def IsFileNameLengthValid_iff)

text \<open>
  C39. The V2 parser does not reject the presence bit of the allocated size, although the V2
  layout has no such field: there is a payload it accepts whose record claims an authoritative
  allocated size, and the V2 to V3 upgrade of that record keeps the claim and supplies the
  value zero.
\<close>

theorem ParseUsnDeltaV2Batch_accepts_allocated_bit:
  "\<exists>payload r. ParseUsnDeltaV2Batch (Some payload) (length payload) 1 = Some [r]
     \<and> d3_fieldMask (fst (UpgradeUsnDeltaV2 r)) AND kUsnFieldAllocatedSizeBytes \<noteq> 0
     \<and> d3_allocatedSizeBytes (fst (UpgradeUsnDeltaV2 r)) = 0
     \<and> \<not> IsRepresentableInUsnV2 (UpgradeUsnDeltaV2 r)"
  using sample_usn2_parses
  by (intro exI [of _ "SerializeUsnDeltaV2Batch [(sample_usn2, [88])]"]
      exI [of _ "(sample_usn2, [88])"])
    (simp add: UpgradeUsnDeltaV2_def sample_usn2_fields kUsnField_defs IsRepresentableInUsnV2_def
      kUsnFieldMaskAll_eq)

end
