(* ===== verification/Matcher.thy ===== *)
theory Matcher
  imports Prelude
begin

text \<open>
  The string matchers of \<open>search/src/Query.cpp\<close>: ASCII case folding, the prepared literal search
  (Boyer-Moore-Horspool for needles of four or more units, a scan for the rarest unit below
  that), the ordinal search it stands in for, and glob matching. \<open>wchar_t\<close> and \<open>char16_t\<close> are the
  same 16 bit unit on Windows, so the casts between them are the identity.

  \<open>CompareStringOrdinal\<close> with \<open>bIgnoreCase\<close> is a Win32 function: it is the parameter \<open>cso\<close>, which
  returns 0 on failure, 1, 2 or 3 for less, equal or greater. \<open>ascii_ordinal\<close> is the documented
  behaviour on ASCII strings that the sources rely on.
\<close>

type_synonym ordinal = "u16string \<Rightarrow> u16string \<Rightarrow> nat"

section \<open>Folding and the ordinal reference search\<close>

definition IsAscii :: "u16string \<Rightarrow> bool" where
  "IsAscii val = list_all (\<lambda>ch. ch \<le> 0x7f) val"

definition FoldAscii16Char :: "u16 \<Rightarrow> u16" where
  "FoldAscii16Char val = (if val \<ge> 65 \<and> val \<le> 90 then val + (97 - 65) else val)"

definition FoldAsciiWideChar :: "u16 \<Rightarrow> u16" where
  "FoldAsciiWideChar val = (if val \<ge> 65 \<and> val \<le> 90 then val + (97 - 65) else val)"

definition FoldAscii16 :: "u16string \<Rightarrow> u16string" where
  "FoldAscii16 val = map (\<lambda>ch. if ch \<ge> 65 \<and> ch \<le> 90 then ch + (97 - 65) else ch) val"

definition CompareOrdinal16 :: "ordinal \<Rightarrow> u16string \<Rightarrow> u16string \<Rightarrow> int" where
  "CompareOrdinal16 cso l r = int (cso l r) - 2"

text \<open>The loop \<open>for (index = i; index + needle.size() <= haystack.size(); ++index)\<close>.\<close>

function contains_from :: "(u16string \<Rightarrow> bool) \<Rightarrow> nat \<Rightarrow> u16string \<Rightarrow> nat \<Rightarrow> bool" where
  "contains_from eq n haystack i =
     (if i + n \<le> length haystack
      then if eq (take n (drop i haystack)) then True else contains_from eq n haystack (i + 1)
      else False)"
  by pat_completeness auto
termination by (relation "measure (\<lambda>(eq, n, haystack, i). length haystack + 1 - i)") auto

declare contains_from.simps [simp del]

definition OrdinalContains16 :: "ordinal \<Rightarrow> u16string \<Rightarrow> u16string \<Rightarrow> bool" where
  "OrdinalContains16 cso haystack needle =
     (if needle = [] then True
      else if length haystack < length needle then False
      else contains_from (\<lambda>s. CompareOrdinal16 cso s needle = 0) (length needle) haystack 0)"

definition OrdinalContains :: "ordinal \<Rightarrow> u16string \<Rightarrow> u16string \<Rightarrow> bool" where
  "OrdinalContains cso h n =
     (if n = [] then True else contains_from (\<lambda>s. cso s n = 2) (length n) h 0)"

section \<open>The prepared literal search\<close>

definition AsciiFrequency :: "u16 \<Rightarrow> nat" where
  "AsciiFrequency val =
     (case map_of [(101, 255), (116, 245), (97, 235), (111, 230), (105, 225), (110, 220), (115, 210),
        (104, 205), (114, 200), (100, 185), (108, 180), (99, 165), (117, 155), (109, 150), (119, 145),
        (102, 140), (103, 135), (121, 130), (112, 110), (98, 100), (118, 90), (107, 80), (106, 60),
        (120, 50), (113, 30), (122, 20), (95, 40)] val of
        Some f \<Rightarrow> f | None \<Rightarrow> 70)"

definition ChooseAsciiAnchor :: "u16string \<Rightarrow> nat" where
  "ChooseAsciiAnchor needle =
     foldl (\<lambda>anchor index. if AsciiFrequency (needle ! index) < AsciiFrequency (needle ! anchor) then index else anchor)
       0 [1..<length needle]"

definition shift_step :: "u16string \<Rightarrow> nat list \<Rightarrow> nat \<Rightarrow> nat list" where
  "shift_step needle shifts index =
     (let shift = length needle - 1 - index; c = needle ! index;
          shifts = shifts[unat c := shift]
      in if c \<ge> 97 \<and> c \<le> 122 then shifts[unat c - (97 - 65) := shift] else shifts)"

definition BuildAsciiShifts :: "u16string \<Rightarrow> nat list" where
  "BuildAsciiShifts needle =
     (if length needle < 2 then replicate 128 (length needle)
      else foldl (shift_step needle) (replicate 128 (length needle)) [0..<length needle - 1])"

definition FoldedWindowEquals16 :: "u16string \<Rightarrow> nat \<Rightarrow> u16string \<Rightarrow> bool" where
  "FoldedWindowEquals16 haystack start folded =
     list_all (\<lambda>index. FoldAscii16Char (haystack ! (start + index)) = folded ! index) [0..<length folded]"

text \<open>The two loops; \<open>None\<close> is a loop that does not end.\<close>

function anchor_loop :: "u16string \<Rightarrow> u16string \<Rightarrow> u16 \<Rightarrow> nat \<Rightarrow> nat \<Rightarrow> bool" where
  "anchor_loop haystack folded anchor anchorIndex position =
     (if position < length haystack
      then if FoldAscii16Char (haystack ! position) \<noteq> anchor
        then anchor_loop haystack folded anchor anchorIndex (position + 1)
        else if position - anchorIndex + length folded > length haystack then False
        else if FoldedWindowEquals16 haystack (position - anchorIndex) folded then True
        else anchor_loop haystack folded anchor anchorIndex (position + 1)
      else False)"
  by pat_completeness auto
termination by (relation "measure (\<lambda>(h, f, a, i, p). length h - p)") auto

declare anchor_loop.simps [simp del]

definition AnchorContainsFold :: "u16string \<Rightarrow> u16string \<Rightarrow> u16 \<Rightarrow> nat \<Rightarrow> bool" where
  "AnchorContainsFold haystack folded anchor anchorIndex =
     (if folded = [] then True
      else if length haystack < length folded then False
      else anchor_loop haystack folded anchor anchorIndex anchorIndex)"

partial_function (option) bmh_loop :: "u16string \<Rightarrow> u16string \<Rightarrow> nat list \<Rightarrow> nat \<Rightarrow> bool option" where
  "bmh_loop haystack needle shifts position =
     (if position < length haystack then
        let rawTail = haystack ! position in
        if FoldAscii16Char rawTail = last needle
           \<and> FoldedWindowEquals16 haystack (position - (length needle - 1)) needle
        then Some True
        else bmh_loop haystack needle shifts
               (position + (if unat rawTail < 128 then shifts ! unat rawTail else length needle))
      else Some False)"

definition BoyerMooreHorspoolContains :: "u16string \<Rightarrow> u16string \<Rightarrow> nat list \<Rightarrow> bool option" where
  "BoyerMooreHorspoolContains haystack needle shifts =
     (if needle = [] then Some True
      else if length haystack < length needle then Some False
      else bmh_loop haystack needle shifts (length needle - 1))"

text \<open>
  The dispatch point. The loop returns for every table that \<open>BuildAsciiShifts\<close> makes, see
  \<open>bmh_contains\<close> below; for another table the call would not return and the value is unspecified.
\<close>

definition OrdinalContains16Prepared ::
  "ordinal \<Rightarrow> u16string \<Rightarrow> u16string \<Rightarrow> u16string \<Rightarrow> nat list \<Rightarrow> bool \<Rightarrow> u16 \<Rightarrow> nat \<Rightarrow> bool" where
  "OrdinalContains16Prepared cso haystack needle foldedNeedle shifts nameIsAscii anchor anchorIndex =
     (if needle = [] then True
      else if length haystack < length needle then False
      else if foldedNeedle \<noteq> [] \<and> nameIsAscii
        then if length foldedNeedle \<ge> 4 then the (BoyerMooreHorspoolContains haystack foldedNeedle shifts)
             else AnchorContainsFold haystack foldedNeedle anchor anchorIndex
      else contains_from (\<lambda>s. CompareOrdinal16 cso s needle = 0) (length needle) haystack 0)"

text \<open>The wide character variants, on an \<open>AsciiFoldNeedle\<close> prepared once.\<close>

record AsciiFoldNeedle =
  afn_ascii :: bool
  afn_value :: u16string
  afn_folded :: u16string
  afn_anchor :: u16
  afn_anchorIndex :: nat
  afn_shifts :: "nat list"

definition PrepareAsciiFoldNeedle :: "u16string \<Rightarrow> AsciiFoldNeedle" where
  "PrepareAsciiFoldNeedle val =
     (let needle = \<lparr>afn_ascii = IsAscii val, afn_value = val, afn_folded = [], afn_anchor = 0,
                    afn_anchorIndex = 0, afn_shifts = replicate 128 0\<rparr>
      in if \<not> afn_ascii needle then needle
         else let needle = needle\<lparr>afn_folded := FoldAscii16 val\<rparr>
              in if afn_folded needle = [] then needle
                 else let i = ChooseAsciiAnchor (afn_folded needle)
                      in needle\<lparr>afn_anchorIndex := i, afn_anchor := afn_folded needle ! i,
                               afn_shifts := BuildAsciiShifts (afn_folded needle)\<rparr>)"

definition FoldedWindowEqualsWide :: "u16string \<Rightarrow> nat \<Rightarrow> u16string \<Rightarrow> bool" where
  "FoldedWindowEqualsWide haystack start folded =
     list_all (\<lambda>index. FoldAsciiWideChar (haystack ! (start + index)) = folded ! index) [0..<length folded]"

function anchor_loop_wide :: "u16string \<Rightarrow> AsciiFoldNeedle \<Rightarrow> nat \<Rightarrow> bool" where
  "anchor_loop_wide haystack needle position =
     (if position < length haystack
      then if FoldAsciiWideChar (haystack ! position) \<noteq> afn_anchor needle
        then anchor_loop_wide haystack needle (position + 1)
        else if position - afn_anchorIndex needle + length (afn_folded needle) > length haystack then False
        else if FoldedWindowEqualsWide haystack (position - afn_anchorIndex needle) (afn_folded needle) then True
        else anchor_loop_wide haystack needle (position + 1)
      else False)"
  by pat_completeness auto
termination by (relation "measure (\<lambda>(h, n, p). length h - p)") auto

declare anchor_loop_wide.simps [simp del]

definition AnchorContainsFoldWide :: "u16string \<Rightarrow> AsciiFoldNeedle \<Rightarrow> bool" where
  "AnchorContainsFoldWide haystack needle = anchor_loop_wide haystack needle (afn_anchorIndex needle)"

partial_function (option) bmh_loop_wide :: "u16string \<Rightarrow> AsciiFoldNeedle \<Rightarrow> nat \<Rightarrow> bool option" where
  "bmh_loop_wide haystack needle position =
     (if position < length haystack then
        let rawTail = haystack ! position; raw = unat rawTail; folded = afn_folded needle in
        if FoldAsciiWideChar rawTail = last folded
           \<and> FoldedWindowEqualsWide haystack (position - (length folded - 1)) folded
        then Some True
        else bmh_loop_wide haystack needle
               (position + (if raw < 128 then afn_shifts needle ! raw else length folded))
      else Some False)"

definition BoyerMooreHorspoolContainsWide :: "u16string \<Rightarrow> AsciiFoldNeedle \<Rightarrow> bool option" where
  "BoyerMooreHorspoolContainsWide haystack needle =
     bmh_loop_wide haystack needle (length (afn_folded needle) - 1)"

definition AsciiFoldContains :: "ordinal \<Rightarrow> u16string \<Rightarrow> AsciiFoldNeedle \<Rightarrow> bool" where
  "AsciiFoldContains cso haystack needle =
     (if \<not> afn_ascii needle \<or> afn_folded needle = [] then OrdinalContains cso haystack (afn_value needle)
      else if length haystack < length (afn_folded needle) then False
      else if length (afn_folded needle) \<ge> 4 then the (BoyerMooreHorspoolContainsWide haystack needle)
      else AnchorContainsFoldWide haystack needle)"

definition AsciiFoldEquals :: "u16string \<Rightarrow> u16string \<Rightarrow> bool" where
  "AsciiFoldEquals l r =
     (if length l \<noteq> length r then False
      else list_all (\<lambda>index. FoldAsciiWideChar (l ! index) = FoldAscii16Char (r ! index)) [0..<length r])"

definition AsciiFoldStartsWith :: "u16string \<Rightarrow> u16string \<Rightarrow> bool" where
  "AsciiFoldStartsWith val pref =
     (if length val < length pref then False else AsciiFoldEquals (take (length pref) val) pref)"

section \<open>The scans find the folded occurrences\<close>

definition fold_at :: "u16string \<Rightarrow> u16string \<Rightarrow> nat \<Rightarrow> bool" where
  "fold_at h n i \<longleftrightarrow> i + length n \<le> length h \<and> map FoldAscii16Char (take (length n) (drop i h)) = n"

definition fold_occurs :: "u16string \<Rightarrow> u16string \<Rightarrow> bool" where
  "fold_occurs h n \<longleftrightarrow> (\<exists>i. fold_at h n i)"

lemma FoldAsciiWideChar_eq [simp]: "FoldAsciiWideChar = FoldAscii16Char"
  by (simp add: fun_eq_iff FoldAsciiWideChar_def FoldAscii16Char_def)

lemma FoldAscii16_eq: "FoldAscii16 = map FoldAscii16Char"
  by (simp add: fun_eq_iff FoldAscii16_def FoldAscii16Char_def)

lemma contains_from_iff:
  "contains_from eq n h i \<longleftrightarrow> (\<exists>j\<ge>i. j + n \<le> length h \<and> eq (take n (drop j h)))"
proof (induction eq n h i rule: contains_from.induct)
  case (1 eq n h i)
  show ?case
  proof (cases "i + n \<le> length h \<and> \<not> eq (take n (drop i h))")
    case True
    then have "contains_from eq n h i \<longleftrightarrow> (\<exists>j\<ge>Suc i. j + n \<le> length h \<and> eq (take n (drop j h)))"
      using 1 by (simp add: contains_from.simps [of eq n h i])
    also have "\<dots> \<longleftrightarrow> (\<exists>j\<ge>i. j + n \<le> length h \<and> eq (take n (drop j h)))"
      using True by (metis Suc_leD le_antisym not_less_eq_eq)
    finally show ?thesis .
  qed (auto simp: contains_from.simps [of eq n h i])
qed

lemma fold_at_iff:
  "i + length n \<le> length h \<Longrightarrow> fold_at h n i \<longleftrightarrow> (\<forall>k < length n. FoldAscii16Char (h ! (i + k)) = n ! k)"
  by (auto simp: fold_at_def list_eq_iff_nth_eq)

lemma fold_at_nth: "fold_at h n i \<Longrightarrow> k < length n \<Longrightarrow> i + k = p \<Longrightarrow> FoldAscii16Char (h ! p) = n ! k"
  using fold_at_iff [of i n h] by (auto simp: fold_at_def)

lemma FoldedWindowEquals16_iff:
  "i + length n \<le> length h \<Longrightarrow> FoldedWindowEquals16 h i n \<longleftrightarrow> fold_at h n i"
  by (auto simp: FoldedWindowEquals16_def fold_at_iff list_all_iff)

lemma FoldedWindowEqualsWide_eq [simp]: "FoldedWindowEqualsWide = FoldedWindowEquals16"
  by (simp add: fun_eq_iff FoldedWindowEqualsWide_def FoldedWindowEquals16_def)

lemma anchor_loop_iff:
  assumes "ai < length n" "anchor = n ! ai" "ai \<le> p"
  shows "anchor_loop h n anchor ai p \<longleftrightarrow> (\<exists>i\<ge>p - ai. fold_at h n i)"
  using assms
proof (induction h n anchor ai p rule: anchor_loop.induct)
  case (1 h n anchor ai p)
  have skip: "(\<exists>i\<ge>p - ai. fold_at h n i) \<longleftrightarrow> (\<exists>i\<ge>p + 1 - ai. fold_at h n i)" if "\<not> fold_at h n (p - ai)"
    using that "1.prems"(3) by (metis Suc_diff_le Suc_eq_plus1 Suc_leD le_antisym not_less_eq_eq)
  have out: "\<not> (\<exists>i\<ge>p - ai. fold_at h n i)" if "p - ai + length n > length h"
    using that by (auto simp: fold_at_def)
  show ?case
  proof (cases "p < length h")
    case False
    then have "p - ai + length n > length h" using "1.prems" by linarith
    then show ?thesis using out False by (simp add: anchor_loop.simps [of h n anchor ai p])
  next
    case p: True
    show ?thesis
    proof (cases "FoldAscii16Char (h ! p) \<noteq> anchor")
      case True
      have "\<not> fold_at h n (p - ai)"
      proof
        assume a: "fold_at h n (p - ai)"
        then have "p - ai + length n \<le> length h" by (simp add: fold_at_def)
        then have "FoldAscii16Char (h ! (p - ai + ai)) = n ! ai" using a "1.prems"(1) by (simp add: fold_at_iff)
        then show False using True "1.prems"(2,3) by simp
      qed
      then show ?thesis
        using "1.IH"(1) [OF p True "1.prems"(1,2)] "1.prems"(3) skip p True
        by (simp add: anchor_loop.simps [of h n anchor ai p])
    next
      case False
      show ?thesis
      proof (cases "p - ai + length n > length h")
        case True
        then show ?thesis using p False out by (simp add: anchor_loop.simps [of h n anchor ai p])
      next
        case w: False
        then have win: "FoldedWindowEquals16 h (p - ai) n \<longleftrightarrow> fold_at h n (p - ai)"
          by (intro FoldedWindowEquals16_iff) simp
        show ?thesis
        proof (cases "fold_at h n (p - ai)")
          case True
          then show ?thesis using p False w win by (auto simp: anchor_loop.simps [of h n anchor ai p])
        next
          case nf: False
          then show ?thesis
            using "1.IH"(2) [OF p _ w _ "1.prems"(1,2)] "1.prems"(3) skip p False w win
            by (simp add: anchor_loop.simps [of h n anchor ai p])
        qed
      qed
    qed
  qed
qed

lemma anchor_contains:
  assumes "ai < length n" "anchor = n ! ai"
  shows "AnchorContainsFold h n anchor ai \<longleftrightarrow> fold_occurs h n"
proof -
  have "n \<noteq> []" using assms by auto
  moreover have "\<not> fold_occurs h n" if "length h < length n" using that by (auto simp: fold_occurs_def fold_at_def)
  ultimately show ?thesis
    using anchor_loop_iff [OF assms, of ai h] by (auto simp: AnchorContainsFold_def fold_occurs_def)
qed

text \<open>
  What the shift table promises for a folded ASCII needle: every shift is at least one and at most
  the needle's length, and no smaller shift can align a unit of the needle with the unit it is for.
\<close>

definition folded_ascii :: "u16string \<Rightarrow> bool" where
  "folded_ascii n \<longleftrightarrow> list_all (\<lambda>c. c \<le> 0x7f \<and> FoldAscii16Char c = c) n"

definition shifts_ok :: "u16string \<Rightarrow> nat \<Rightarrow> nat list \<Rightarrow> bool" where
  "shifts_ok n j t \<longleftrightarrow> length t = 128 \<and>
     (\<forall>c. c \<le> 0x7f \<longrightarrow> length n - j \<le> t ! unat c \<and> t ! unat c \<le> length n \<and>
        (\<forall>i<j. length n - 1 - i < t ! unat c \<longrightarrow> n ! i \<noteq> FoldAscii16Char c))"

lemma unat_ascii: "(c::u16) \<le> 0x7f \<longleftrightarrow> unat c < 128"
  by (auto simp: word_le_nat_alt)

lemma unat_upper: "(c::u16) \<ge> 65 \<and> c \<le> 90 \<Longrightarrow> unat (c + 32) = unat c + 32"
  by (subst unat_add_lem [THEN iffD1]) (auto simp: word_le_nat_alt)

lemma fold_cases:
  assumes "FoldAscii16Char c' = c'" "FoldAscii16Char c = c'"
  shows "c = c' \<or> (c' \<ge> 97 \<and> c' \<le> 122 \<and> unat c = unat c' - 32)"
proof (cases "c \<ge> 65 \<and> c \<le> 90")
  case True
  then have c': "c' = c + 32" using assms(2) by (simp add: FoldAscii16Char_def)
  have "unat c' = unat c + 32" unfolding c' using True by (rule unat_upper)
  then show ?thesis using True by (auto simp: word_le_nat_alt)
next
  case False
  then show ?thesis using assms(2) by (simp add: FoldAscii16Char_def split: if_splits)
qed

lemma lower_fold:
  assumes "c' \<ge> 97" "c' \<le> 122" "unat c = unat c' - 32"
  shows "FoldAscii16Char c = c'"
proof -
  have "unat c \<ge> 65" "unat c \<le> 90" using assms by (auto simp: word_le_nat_alt)
  then have "c \<ge> 65 \<and> c \<le> 90" by (auto simp: word_le_nat_alt)
  moreover have "unat (c + 32) = unat c'"
    using assms by (subst unat_add_lem [THEN iffD1]) (auto simp: word_le_nat_alt)
  ultimately show ?thesis by (simp add: FoldAscii16Char_def word_unat_eq_iff)
qed

lemma shift_step_nth:
  assumes "length t = 128" "n ! j \<le> 0x7f" "FoldAscii16Char (n ! j) = n ! j" "c \<le> 0x7f"
  shows "shift_step n t j ! unat c = (if FoldAscii16Char c = n ! j then length n - 1 - j else t ! unat c)"
proof -
  have u: "unat (n ! j) < 128" "unat c < 128" using assms(2,4) by (simp_all add: unat_ascii)
  have eq: "FoldAscii16Char c = n ! j \<longleftrightarrow>
      c = n ! j \<or> (n ! j \<ge> 97 \<and> n ! j \<le> 122 \<and> unat c = unat (n ! j) - 32)"
    using fold_cases [OF assms(3), of c] lower_fold [of "n ! j" c] assms(3) by auto
  show ?thesis
    unfolding eq using u assms(1)
    by (auto simp: shift_step_def Let_def nth_list_update word_unat_eq_iff)
qed

lemma shift_step_ok:
  assumes ok: "shifts_ok n j t" and j: "j < length n" and asc: "folded_ascii n"
  shows "shifts_ok n (Suc j) (shift_step n t j)"
proof -
  have nj: "n ! j \<le> 0x7f" "FoldAscii16Char (n ! j) = n ! j"
    using asc j by (simp_all add: folded_ascii_def list_all_length)
  have len: "length t = 128" using ok by (simp add: shifts_ok_def)
  have "length n - Suc j \<le> shift_step n t j ! unat c \<and> shift_step n t j ! unat c \<le> length n \<and>
      (\<forall>i<Suc j. length n - 1 - i < shift_step n t j ! unat c \<longrightarrow> n ! i \<noteq> FoldAscii16Char c)"
    if c: "c \<le> 0x7f" for c
  proof (cases "FoldAscii16Char c = n ! j")
    case True
    then show ?thesis using shift_step_nth [OF len nj c] j by auto
  next
    case False
    have "length n - j \<le> t ! unat c" "t ! unat c \<le> length n"
      "\<forall>i<j. length n - 1 - i < t ! unat c \<longrightarrow> n ! i \<noteq> FoldAscii16Char c"
      using ok c by (auto simp: shifts_ok_def)
    then show ?thesis using shift_step_nth [OF len nj c] False by (auto simp: less_Suc_eq)
  qed
  moreover have "length (shift_step n t j) = 128" using len by (simp add: shift_step_def Let_def)
  ultimately show ?thesis by (simp add: shifts_ok_def)
qed

lemma BuildAsciiShifts_ok:
  assumes "folded_ascii n"
  shows "shifts_ok n (length n - 1) (BuildAsciiShifts n)"
proof -
  have start: "shifts_ok n 0 (replicate 128 (length n))"
    by (auto simp: shifts_ok_def unat_ascii)
  have "shifts_ok n j (foldl (shift_step n) (replicate 128 (length n)) [0..<j])" if "j \<le> length n" for j
    using that by (induction j) (simp_all add: start shift_step_ok [OF _ _ assms])
  from this [of "length n - 1"] show ?thesis
    using start by (cases "length n < 2") (auto simp: BuildAsciiShifts_def)
qed

definition bad_shift :: "nat list \<Rightarrow> u16string \<Rightarrow> u16 \<Rightarrow> nat" where
  "bad_shift t n c = (if unat c < 128 then t ! unat c else length n)"

text \<open>A shift is at least one and skips no occurrence.\<close>

lemma bad_shift_safe:
  assumes asc: "folded_ascii n" and ne: "n \<noteq> []" and t: "t = BuildAsciiShifts n"
    and p: "length n - 1 \<le> p" and no: "\<not> fold_at h n (p - (length n - 1))"
  shows "1 \<le> bad_shift t n (h ! p)"
    "(\<exists>i \<ge> p - (length n - 1). fold_at h n i) \<longleftrightarrow>
     (\<exists>i \<ge> p + bad_shift t n (h ! p) - (length n - 1). fold_at h n i)"
proof -
  let ?m = "length n" and ?s = "bad_shift t n (h ! p)"
  have m: "0 < ?m" using ne by simp
  have ok: "shifts_ok n (?m - 1) t" using BuildAsciiShifts_ok [OF asc] t by simp
  have in_n: "n ! k \<le> 0x7f \<and> FoldAscii16Char (n ! k) = n ! k" if "k < ?m" for k
    using asc that by (simp add: folded_ascii_def list_all_length)
  show s1: "1 \<le> ?s"
    using ok m by (auto simp: bad_shift_def shifts_ok_def unat_ascii Suc_le_eq)
  have sm: "?s \<le> ?m" using ok by (auto simp: bad_shift_def shifts_ok_def unat_ascii)
  have skip: "\<not> fold_at h n (p - (?m - 1) + k)" if k: "1 \<le> k" "k < ?s" for k
  proof
    assume a: "fold_at h n (p - (?m - 1) + k)"
    let ?i = "?m - 1 - k"
    have i: "?i < ?m - 1" using k sm m by simp
    have "p - (?m - 1) + k + ?i = p" using k sm p by simp
    then have hit: "FoldAscii16Char (h ! p) = n ! ?i" using fold_at_nth [OF a, of ?i] i by simp
    show False
    proof (cases "unat (h ! p) < 128")
      case True
      have "?m - 1 - ?i < t ! unat (h ! p)" using k sm True by (simp add: bad_shift_def)
      moreover have "\<forall>i<?m - 1. ?m - 1 - i < t ! unat (h ! p) \<longrightarrow> n ! i \<noteq> FoldAscii16Char (h ! p)"
        using ok True unfolding shifts_ok_def unat_ascii by blast
      ultimately show False using i hit by metis
    next
      case False
      then have "FoldAscii16Char (h ! p) = h ! p" by (auto simp: FoldAscii16Char_def word_le_nat_alt)
      moreover have "?i < ?m" using i by linarith
      ultimately show False using hit in_n [of ?i] False by (simp add: unat_ascii)
    qed
  qed
  show "(\<exists>i \<ge> p - (?m - 1). fold_at h n i) \<longleftrightarrow> (\<exists>i \<ge> p + ?s - (?m - 1). fold_at h n i)"
  proof
    assume "\<exists>i \<ge> p - (?m - 1). fold_at h n i"
    then obtain i where i: "p - (?m - 1) \<le> i" "fold_at h n i" by blast
    define k where "k = i - (p - (?m - 1))"
    have ik: "i = p - (?m - 1) + k" using i(1) by (simp add: k_def)
    have "?s \<le> k"
    proof (rule ccontr)
      assume "\<not> ?s \<le> k"
      then show False using skip [of k] no i(2) ik by (cases "k = 0") auto
    qed
    then have "p + ?s - (?m - 1) \<le> i" using ik p by simp
    then show "\<exists>i \<ge> p + ?s - (?m - 1). fold_at h n i" using i(2) by blast
  next
    assume "\<exists>i \<ge> p + ?s - (?m - 1). fold_at h n i"
    then obtain i where "p + ?s - (?m - 1) \<le> i" "fold_at h n i" by blast
    then show "\<exists>i \<ge> p - (?m - 1). fold_at h n i" by (intro exI [of _ i]) auto
  qed
qed

lemma window_hit:
  assumes "n \<noteq> []" "length n - 1 \<le> p" "p < length h"
  shows "(FoldAscii16Char (h ! p) = last n \<and> FoldedWindowEquals16 h (p - (length n - 1)) n)
    \<longleftrightarrow> fold_at h n (p - (length n - 1))"
proof -
  have le: "p - (length n - 1) + length n \<le> length h"
    using assms by (cases n) auto
  have "p - (length n - 1) + (length n - 1) = p" "length n - 1 < length n" using assms by auto
  then have "FoldAscii16Char (h ! p) = last n" if "fold_at h n (p - (length n - 1))"
    using fold_at_nth [OF that, of "length n - 1" p] assms(1) by (simp add: last_conv_nth)
  then show ?thesis using FoldedWindowEquals16_iff [OF le] by blast
qed

lemma bmh_loop_spec:
  assumes "folded_ascii n" "n \<noteq> []" "t = BuildAsciiShifts n" "length n - 1 \<le> p"
  shows "bmh_loop h n t p = Some (\<exists>i \<ge> p - (length n - 1). fold_at h n i)"
  using assms(4)
proof (induction "length h - p" arbitrary: p rule: less_induct)
  case less
  show ?case
  proof (cases "p < length h")
    case False
    then have "\<not> fold_at h n i" if "i \<ge> p - (length n - 1)" for i
      using that less.prems assms(2) by (cases n) (auto simp: fold_at_def)
    then show ?thesis using False by (subst bmh_loop.simps) auto
  next
    case p: True
    note hit = window_hit [OF assms(2) less.prems p]
    show ?thesis
    proof (cases "fold_at h n (p - (length n - 1))")
      case True
      then show ?thesis using p hit by (subst bmh_loop.simps) (auto simp: Let_def)
    next
      case False
      note safe = bad_shift_safe [OF assms(1-3) less.prems False]
      have "bmh_loop h n t p = bmh_loop h n t (p + bad_shift t n (h ! p))"
        using p hit False by (subst bmh_loop.simps) (auto simp: Let_def bad_shift_def)
      also have "\<dots> = Some (\<exists>i \<ge> p + bad_shift t n (h ! p) - (length n - 1). fold_at h n i)"
        using safe(1) p less.prems by (intro less.hyps) auto
      finally show ?thesis using safe(2) by simp
    qed
  qed
qed

lemma bmh_contains:
  assumes "folded_ascii n" "t = BuildAsciiShifts n"
  shows "BoyerMooreHorspoolContains h n t = Some (fold_occurs h n)"
proof (cases "n = [] \<or> length h < length n")
  case True
  then show ?thesis by (auto simp: BoyerMooreHorspoolContains_def fold_occurs_def fold_at_def)
next
  case False
  then show ?thesis
    using bmh_loop_spec [OF assms(1) _ assms(2), of "length n - 1" h]
    by (simp add: BoyerMooreHorspoolContains_def fold_occurs_def)
qed

section \<open>The prepared search agrees with the ordinal search\<close>

text \<open>
  Documented behaviour of \<open>CompareStringOrdinal\<close> on ASCII strings of one length: equal exactly when
  they are equal after ASCII case folding.
\<close>

definition ascii_ordinal :: "ordinal \<Rightarrow> bool" where
  "ascii_ordinal cso \<longleftrightarrow> (\<forall>l r. IsAscii l \<longrightarrow> IsAscii r \<longrightarrow> length l = length r \<longrightarrow>
     (cso l r = 2 \<longleftrightarrow> map FoldAscii16Char l = map FoldAscii16Char r))"

text \<open>An instance: folding both strings, with the units compared as numbers.\<close>

definition fold_ordinal :: ordinal where
  "fold_ordinal l r = (if map FoldAscii16Char l = map FoldAscii16Char r then 2 else 1)"

lemma fold_ordinal_ok: "ascii_ordinal fold_ordinal"
  by (simp add: ascii_ordinal_def fold_ordinal_def)

lemma FoldAscii16Char_idem [simp]: "FoldAscii16Char (FoldAscii16Char c) = FoldAscii16Char c"
proof (cases "c \<ge> 65 \<and> c \<le> 90")
  case True
  then have "unat (c + 32) = unat c + 32" by (rule unat_upper)
  then have "\<not> c + 32 \<le> 90" using True by (auto simp: word_le_nat_alt)
  then show ?thesis using True by (simp add: FoldAscii16Char_def)
qed (auto simp: FoldAscii16Char_def)

lemma FoldAscii16Char_ascii: "c \<le> 0x7f \<Longrightarrow> FoldAscii16Char c \<le> 0x7f"
proof (cases "c \<ge> 65 \<and> c \<le> 90")
  case True
  then have "unat (c + 32) = unat c + 32" by (rule unat_upper)
  then show ?thesis using True by (simp add: FoldAscii16Char_def word_le_nat_alt)
qed (auto simp: FoldAscii16Char_def)

lemma folded_ascii_FoldAscii16: "IsAscii n \<Longrightarrow> folded_ascii (FoldAscii16 n)"
  by (simp add: folded_ascii_def FoldAscii16_eq IsAscii_def list_all_iff FoldAscii16Char_ascii)

lemma IsAscii_sub: "IsAscii h \<Longrightarrow> IsAscii (take n (drop i h))"
  by (auto simp: IsAscii_def list_all_iff dest: in_set_takeD in_set_dropD)

text \<open>On an ASCII haystack the ordinal search for an ASCII needle is the folded search.\<close>

lemma ordinal_search_iff:
  assumes "ascii_ordinal cso" "IsAscii h" "IsAscii n" "\<And>s. eq s \<longleftrightarrow> cso s n = 2"
  shows "contains_from eq (length n) h 0 \<longleftrightarrow> fold_occurs h (FoldAscii16 n)"
proof -
  have "eq (take (length n) (drop i h)) \<longleftrightarrow> map FoldAscii16Char (take (length n) (drop i h)) = FoldAscii16 n"
    if "i + length n \<le> length h" for i
    using that assms IsAscii_sub [OF assms(2), of "length n" i]
    by (simp add: ascii_ordinal_def FoldAscii16_eq)
  then show ?thesis
    by (auto simp: contains_from_iff fold_occurs_def fold_at_def FoldAscii16_eq)
qed

lemma ChooseAsciiAnchor_less: "n \<noteq> [] \<Longrightarrow> ChooseAsciiAnchor n < length n"
proof -
  assume ne: "n \<noteq> []"
  have "foldl (\<lambda>anchor index. if AsciiFrequency (n ! index) < AsciiFrequency (n ! anchor) then index else anchor) a is < length n"
    if "a < length n" "\<forall>i\<in>set is. i < length n" for a "is"
    using that by (induction "is" arbitrary: a) auto
  then show ?thesis using ne by (simp add: ChooseAsciiAnchor_def)
qed

text \<open>The value of the prepared search, for tables built from the needle.\<close>

lemma prepared_ascii:
  assumes asc: "IsAscii n" and ne: "n \<noteq> []"
  defines "f \<equiv> FoldAscii16 n"
  shows "OrdinalContains16Prepared cso h n f (BuildAsciiShifts f) True (f ! ChooseAsciiAnchor f) (ChooseAsciiAnchor f)
    \<longleftrightarrow> fold_occurs h f"
proof -
  have f: "folded_ascii f" "f \<noteq> []" "length f = length n"
    using folded_ascii_FoldAscii16 [OF asc] ne by (simp_all add: f_def FoldAscii16_eq)
  have "\<not> fold_occurs h f" if "length h < length n" using that f(3) by (auto simp: fold_occurs_def fold_at_def)
  then show ?thesis
    using bmh_contains [OF f(1), of _ h] anchor_contains [OF ChooseAsciiAnchor_less [OF f(2)] refl, of h] ne f
    by (auto simp: OrdinalContains16Prepared_def)
qed

lemma anchor_loop_wide_eq:
  "anchor_loop_wide h nd p = anchor_loop h (afn_folded nd) (afn_anchor nd) (afn_anchorIndex nd) p"
proof (induction h nd p rule: anchor_loop_wide.induct)
  case (1 h nd p)
  then show ?case
    by (subst anchor_loop_wide.simps, subst anchor_loop.simps) auto
qed

lemma bmh_loop_wide_eq:
  assumes "folded_ascii (afn_folded nd)" "afn_folded nd \<noteq> []" "afn_shifts nd = BuildAsciiShifts (afn_folded nd)"
    and "length (afn_folded nd) - 1 \<le> p"
  shows "bmh_loop_wide h nd p = bmh_loop h (afn_folded nd) (afn_shifts nd) p"
  using assms(4)
proof (induction "length h - p" arbitrary: p rule: less_induct)
  case less
  show ?case
  proof (cases "p < length h \<and> \<not> fold_at h (afn_folded nd) (p - (length (afn_folded nd) - 1))")
    case True
    let ?s = "bad_shift (afn_shifts nd) (afn_folded nd) (h ! p)"
    have "1 \<le> ?s" using bad_shift_safe(1) [OF assms(1-3) less.prems] True by blast
    then have "bmh_loop_wide h nd (p + ?s) = bmh_loop h (afn_folded nd) (afn_shifts nd) (p + ?s)"
      using True less.prems by (intro less.hyps) auto
    then show ?thesis
      by (subst bmh_loop_wide.simps, subst bmh_loop.simps) (auto simp: Let_def bad_shift_def)
  next
    case False
    then show ?thesis
      using window_hit [OF assms(2) less.prems, of h]
      by (subst bmh_loop_wide.simps, subst bmh_loop.simps) (auto simp: Let_def)
  qed
qed

lemma Prepare_simps:
  "afn_value (PrepareAsciiFoldNeedle n) = n" "afn_ascii (PrepareAsciiFoldNeedle n) = IsAscii n"
  "afn_folded (PrepareAsciiFoldNeedle n) = (if IsAscii n then FoldAscii16 n else [])"
  "IsAscii n \<Longrightarrow> n \<noteq> [] \<Longrightarrow> afn_shifts (PrepareAsciiFoldNeedle n) = BuildAsciiShifts (FoldAscii16 n)"
  "IsAscii n \<Longrightarrow> n \<noteq> [] \<Longrightarrow> afn_anchorIndex (PrepareAsciiFoldNeedle n) = ChooseAsciiAnchor (FoldAscii16 n)"
  "IsAscii n \<Longrightarrow> n \<noteq> [] \<Longrightarrow> afn_anchor (PrepareAsciiFoldNeedle n) = FoldAscii16 n ! ChooseAsciiAnchor (FoldAscii16 n)"
  by (auto simp: PrepareAsciiFoldNeedle_def Let_def FoldAscii16_eq)

text \<open>The owning path: for an ASCII needle it is the folded search on every haystack.\<close>

lemma AsciiFoldContains_iff:
  assumes asc: "IsAscii n" and ne: "n \<noteq> []"
  shows "AsciiFoldContains cso h (PrepareAsciiFoldNeedle n) \<longleftrightarrow> fold_occurs h (FoldAscii16 n)"
proof -
  let ?nd = "PrepareAsciiFoldNeedle n" and ?f = "FoldAscii16 n"
  have f: "folded_ascii ?f" "?f \<noteq> []" using folded_ascii_FoldAscii16 [OF asc] ne by (simp_all add: FoldAscii16_eq)
  have nd: "afn_folded ?nd = ?f" using asc by (simp add: Prepare_simps)
  have short: "\<not> fold_occurs h ?f" if "length h < length ?f" using that by (auto simp: fold_occurs_def fold_at_def)
  have anchor: "AnchorContainsFoldWide h ?nd \<longleftrightarrow> fold_occurs h ?f" if "\<not> length h < length ?f"
    using anchor_contains [OF ChooseAsciiAnchor_less [OF f(2)] refl, of h] that f(2)
    by (simp add: AnchorContainsFoldWide_def anchor_loop_wide_eq nd AnchorContainsFold_def Prepare_simps(5,6) [OF asc ne])
  have bmh: "BoyerMooreHorspoolContainsWide h ?nd = Some (fold_occurs h ?f)"
  proof -
    have "BoyerMooreHorspoolContainsWide h ?nd = bmh_loop h ?f (BuildAsciiShifts ?f) (length ?f - 1)"
      using bmh_loop_wide_eq [of ?nd "length ?f - 1" h] f
      by (simp add: BoyerMooreHorspoolContainsWide_def nd Prepare_simps(4) [OF asc ne])
    also have "\<dots> = Some (fold_occurs h ?f)"
      using bmh_loop_spec [OF f refl order_refl, of h] by (simp add: fold_occurs_def)
    finally show ?thesis .
  qed
  show ?thesis
    using short anchor bmh f(2) asc by (simp add: AsciiFoldContains_def nd Prepare_simps(2))
qed

lemma OrdinalContains_iff16: "OrdinalContains cso h n = OrdinalContains16 cso h n"
  by (auto simp: OrdinalContains_def OrdinalContains16_def CompareOrdinal16_def contains_from_iff)

lemma OrdinalContains16_ascii:
  assumes "ascii_ordinal cso" "IsAscii h" "IsAscii n" "n \<noteq> []"
  shows "OrdinalContains16 cso h n \<longleftrightarrow> fold_occurs h (FoldAscii16 n)"
  using ordinal_search_iff [OF assms(1-3), of "\<lambda>s. CompareOrdinal16 cso s n = 0"] assms(4)
  by (auto simp: OrdinalContains16_def CompareOrdinal16_def fold_occurs_def fold_at_def FoldAscii16_eq)

section \<open>Properties of the literal search\<close>

text \<open>
  C11. The prepared literal search is the ordinal search. With the folded needle, shift table and
  anchor that the query parser builds from the needle, and an \<open>isAscii\<close> flag that is right for the
  name, the fast search (Boyer-Moore-Horspool or the anchor scan) returns, for every name and
  needle, and gives the answer of the reference loop over \<open>CompareStringOrdinal\<close>, provided that
  function compares ASCII strings by ASCII case folding.
\<close>

theorem prepared_search_is_ordinal:
  assumes "ascii_ordinal cso" and "folded = (if IsAscii needle then FoldAscii16 needle else [])"
    and "nameIsAscii = IsAscii name"
    and "anchorIndex = ChooseAsciiAnchor folded" and "anchor = (if folded = [] then 0 else folded ! anchorIndex)"
  shows "OrdinalContains16Prepared cso name needle folded (BuildAsciiShifts folded) nameIsAscii anchor anchorIndex
    = OrdinalContains16 cso name needle
    \<and> (folded \<noteq> [] \<longrightarrow> BoyerMooreHorspoolContains name folded (BuildAsciiShifts folded) \<noteq> None)"
proof (cases "IsAscii needle \<and> needle \<noteq> [] \<and> IsAscii name")
  case True
  then have f: "folded = FoldAscii16 needle" "folded \<noteq> []" using assms(2) by (auto simp: FoldAscii16_eq)
  then show ?thesis
    using prepared_ascii [of needle cso name] OrdinalContains16_ascii [OF assms(1), of name needle] True assms
      bmh_contains [OF folded_ascii_FoldAscii16, of needle] by simp
next
  case False
  then show ?thesis
    using assms bmh_contains [OF folded_ascii_FoldAscii16, of needle]
    by (auto simp: OrdinalContains16Prepared_def OrdinalContains16_def FoldAscii16_eq)
qed

text \<open>A sample: the name \<open>AbcDe\<close> contains \<open>bcD\<close> without regard to case.\<close>

theorem prepared_search_is_ordinal_witness:
  "OrdinalContains16Prepared fold_ordinal [65, 98, 99, 68, 101] [98, 67, 100] [98, 99, 100]
     (BuildAsciiShifts [98, 99, 100]) True (if [98, 99, 100 :: u16] = [] then 0 else [98, 99, 100] ! ChooseAsciiAnchor [98, 99, 100])
     (ChooseAsciiAnchor [98, 99, 100])
   = OrdinalContains16 fold_ordinal [65, 98, 99, 68, 101] [98, 67, 100]"
  using prepared_search_is_ordinal [OF fold_ordinal_ok, of "[98, 99, 100]" "[98, 67, 100]" True "[65, 98, 99, 68, 101]"]
  by (simp add: IsAscii_def FoldAscii16_def)

text \<open>
  The two literal paths of a search do not always agree. With a comparison function that
  compares ASCII strings by ASCII case folding and also equates U+017F with \<open>s\<close>, the ordinal search
  and the view path of the query find \<open>s\<close> in the name U+017F while the owning path
  (\<open>AsciiFoldContains\<close>) does not, although the needle is ASCII.
\<close>

theorem ascii_fold_paths_diverge:
  "\<exists>cso name needle. ascii_ordinal cso \<and> IsAscii needle
     \<and> OrdinalContains cso name needle
     \<and> OrdinalContains16Prepared cso name needle (FoldAscii16 needle) (BuildAsciiShifts (FoldAscii16 needle))
         (IsAscii name) (FoldAscii16 needle ! ChooseAsciiAnchor (FoldAscii16 needle)) (ChooseAsciiAnchor (FoldAscii16 needle))
     \<and> \<not> AsciiFoldContains cso name (PrepareAsciiFoldNeedle needle)"
proof -
  define up where "up = (\<lambda>c :: u16. if c = 0x17f then 115 else FoldAscii16Char c)"
  define cso where "cso = (\<lambda>l r. if map up l = map up r then 2 else 1 :: nat)"
  have up: "map up s = map FoldAscii16Char s" if "IsAscii s" for s
    using that by (auto simp: up_def IsAscii_def list_all_iff)
  have "ascii_ordinal cso"
    unfolding ascii_ordinal_def cso_def by (intro allI impI) (simp only: up, simp)
  moreover have "IsAscii [115]" "\<not> IsAscii [0x17f]" by (simp_all add: IsAscii_def)
  moreover have "OrdinalContains cso [0x17f] [115]" "OrdinalContains16 cso [0x17f] [115]"
    by (simp_all add: OrdinalContains_iff16 [symmetric] OrdinalContains_def contains_from.simps cso_def up_def FoldAscii16Char_def)
  moreover have "\<not> AsciiFoldContains cso [0x17f] (PrepareAsciiFoldNeedle [115])"
    using AsciiFoldContains_iff [of "[115]" cso "[0x17f]"] \<open>IsAscii [115]\<close>
    by (auto simp: fold_occurs_def fold_at_def FoldAscii16_def FoldAscii16Char_def)
  ultimately show ?thesis
    by (intro exI [of _ cso] exI [of _ "[0x17f]"] exI [of _ "[115]"])
      (simp add: OrdinalContains16Prepared_def OrdinalContains16_def)
qed

section \<open>Glob matching\<close>

definition IS_HIGH_SURROGATE :: "u16 \<Rightarrow> bool" where
  "IS_HIGH_SURROGATE c = (c \<ge> 0xD800 \<and> c \<le> 0xDBFF)"

definition IS_LOW_SURROGATE :: "u16 \<Rightarrow> bool" where
  "IS_LOW_SURROGATE c = (c \<ge> 0xDC00 \<and> c \<le> 0xDFFF)"

definition char_width :: "u16string \<Rightarrow> nat \<Rightarrow> nat" where
  "char_width val off =
     (if off + 1 < length val \<and> IS_HIGH_SURROGATE (val ! off) \<and> IS_LOW_SURROGATE (val ! (off + 1)) then 2 else 1)"

fun skip_stars :: "u16string \<Rightarrow> u16string" where
  "skip_stars [] = []"
| "skip_stars (c # cs) = (if c = 42 then skip_stars cs else c # cs)"

text \<open>
  The loop of \<open>GlobMatches\<close> and \<open>GlobMatches16\<close>; \<open>eq\<close> compares a character of the text with one of
  the pattern, \<open>star\<close> is \<open>None\<close> for \<open>npos\<close>.
\<close>

partial_function (option) glob_loop ::
  "(u16string \<Rightarrow> u16string \<Rightarrow> bool) \<Rightarrow> u16string \<Rightarrow> u16string \<Rightarrow> nat \<Rightarrow> nat \<Rightarrow> nat option \<Rightarrow> nat \<Rightarrow> bool option" where
  "glob_loop eq text pattern ti pi star saved =
     (if ti < length text then
        if pi < length pattern \<and> pattern ! pi = 63 then
          glob_loop eq text pattern (ti + char_width text ti) (pi + 1) star saved
        else if pi < length pattern \<and> pattern ! pi \<noteq> 42 then
          let textWidth = char_width text ti; patternWidth = char_width pattern pi in
          if textWidth = patternWidth \<and> eq (take textWidth (drop ti text)) (take patternWidth (drop pi pattern))
          then glob_loop eq text pattern (ti + textWidth) (pi + patternWidth) star saved
          else case star of
              Some s \<Rightarrow> glob_loop eq text pattern (saved + char_width text saved) (s + 1) star (saved + char_width text saved)
            | None \<Rightarrow> Some False
        else if pi < length pattern \<and> pattern ! pi = 42 then
          glob_loop eq text pattern ti (pi + 1) (Some pi) ti
        else case star of
            Some s \<Rightarrow> glob_loop eq text pattern (saved + char_width text saved) (s + 1) star (saved + char_width text saved)
          | None \<Rightarrow> Some False
      else Some (skip_stars (drop pi pattern) = []))"

definition GlobMatches16 :: "ordinal \<Rightarrow> u16string \<Rightarrow> u16string \<Rightarrow> bool option" where
  "GlobMatches16 cso text pattern = glob_loop (\<lambda>t p. CompareOrdinal16 cso t p = 0) text pattern 0 0 None 0"

definition GlobMatches :: "ordinal \<Rightarrow> u16string \<Rightarrow> u16string \<Rightarrow> bool option" where
  "GlobMatches cso text pattern = glob_loop (\<lambda>t p. cso t p = 2) text pattern 0 0 None 0"

text \<open>
  The specification: a text is a list of characters (a surrogate pair is one character), \<open>?\<close> stands
  for one character and \<open>*\<close> for any number of them.
\<close>

fun characters :: "u16string \<Rightarrow> u16string list" where
  "characters [] = []"
| "characters [c] = [[c]]"
| "characters (c # d # cs) =
     (if IS_HIGH_SURROGATE c \<and> IS_LOW_SURROGATE d then [c, d] # characters cs else [c] # characters (d # cs))"

fun glob :: "(u16string \<Rightarrow> u16string \<Rightarrow> bool) \<Rightarrow> u16string list \<Rightarrow> u16string list \<Rightarrow> bool" where
  "glob eq [] [] = True"
| "glob eq (c # t) [] = False"
| "glob eq [] (p # ps) = (p = [42] \<and> glob eq [] ps)"
| "glob eq (c # t) (p # ps) =
     (if p = [42] then glob eq (c # t) ps \<or> glob eq t (p # ps)
      else (p = [63] \<or> length c = length p \<and> eq c p) \<and> glob eq t ps)"

lemma ex_le_Suc: "(\<exists>k \<le> Suc n. P k) \<longleftrightarrow> P 0 \<or> (\<exists>k \<le> n. P (Suc k))"
  by (metis Suc_le_mono le0 not0_implies_Suc)

lemma glob_star_iff: "glob eq t ([42] # ps) \<longleftrightarrow> (\<exists>k \<le> length t. glob eq (drop k t) ps)"
proof (induction t)
  case (Cons c t)
  have "(\<exists>k \<le> length (c # t). glob eq (drop k (c # t)) ps) \<longleftrightarrow>
      glob eq (c # t) ps \<or> (\<exists>k \<le> length t. glob eq (drop k t) ps)"
    by (simp add: ex_le_Suc)
  then show ?case using Cons by simp
qed simp

lemma glob_star_drop: "glob eq (drop j t) ([42] # ps) \<Longrightarrow> glob eq t ([42] # ps)"
proof (induction j arbitrary: t)
  case (Suc j)
  then show ?case by (cases t) auto
qed simp

lemma glob_skip_prefix:
  "glob eq t ps \<Longrightarrow> n \<le> length ps \<Longrightarrow> [42] \<notin> set (take n ps) \<Longrightarrow> n \<le> length t \<and> glob eq (drop n t) (drop n ps)"
proof (induction n arbitrary: t ps)
  case (Suc n)
  then obtain p ps' where ps: "ps = p # ps'" by (cases ps) auto
  then have "p \<noteq> [42]" using Suc.prems by auto
  then obtain c t' where "t = c # t'" "glob eq t' ps'" using Suc.prems ps by (cases t) auto
  then show ?case using Suc.IH [of t' ps'] Suc.prems ps by auto
qed simp

lemma characters_drop:
  assumes "i < length xs"
  shows "characters (drop i xs) = take (char_width xs i) (drop i xs) # characters (drop (i + char_width xs i) xs)"
proof -
  obtain c r where d: "drop i xs = c # r" using assms by (metis Cons_nth_drop_Suc)
  have c: "c = xs ! i" and r: "r = drop (Suc i) xs" using d assms by (metis Cons_nth_drop_Suc list.inject)+
  show ?thesis
  proof (cases r)
    case Nil
    then have "length xs = Suc i" using r assms by simp
    then show ?thesis using d Nil by (simp add: char_width_def)
  next
    case (Cons e r')
    then have l: "Suc i < length xs" using r by (metis drop_eq_Nil list.distinct(1) not_le)
    then have e: "e = xs ! Suc i" "r' = drop (Suc (Suc i)) xs" using r Cons by (metis Cons_nth_drop_Suc list.inject)+
    have d2: "drop (Suc i) xs = e # r'" using r Cons by simp
    show ?thesis
      using l unfolding d Cons
      by (simp add: char_width_def c [symmetric] e [symmetric] d2)
  qed
qed

lemma characters_Nil [simp]: "characters xs = [] \<longleftrightarrow> xs = []"
  by (cases xs rule: characters.cases) auto

lemma char_width_pos [simp]: "0 < char_width xs i"
  by (simp add: char_width_def)

lemma char_width_plain: "xs ! i = 42 \<or> xs ! i = 63 \<Longrightarrow> char_width xs i = 1"
  by (auto simp: char_width_def IS_HIGH_SURROGATE_def)

lemma take_width_hd:
  assumes "i < length xs"
  shows "take (char_width xs i) (drop i xs) = [c] \<Longrightarrow> xs ! i = c"
proof -
  assume t: "take (char_width xs i) (drop i xs) = [c]"
  then have "take (char_width xs i) (drop i xs) ! 0 = c" by simp
  then show ?thesis using assms by simp
qed

lemma glob_skip_stars: "skip_stars xs = [] \<longleftrightarrow> glob eq [] (characters xs)"
  by (induction xs rule: characters.induct) (auto simp: IS_HIGH_SURROGATE_def)

text \<open>
  The state of the loop: the characters left of text and pattern, and, once a star was seen, the
  characters \<open>S\<close> left where it was seen, the pattern \<open>Q\<close> after it, and how many of both have been
  matched one to one since.
\<close>

definition glob_state :: "u16string list \<Rightarrow> u16string list \<Rightarrow> (u16string list \<times> u16string list) option \<Rightarrow> bool" where
  "glob_state T P st \<longleftrightarrow> (case st of None \<Rightarrow> True
     | Some (S, Q) \<Rightarrow> \<exists>n. n \<le> length S \<and> n \<le> length Q \<and> T = drop n S \<and> P = drop n Q \<and> [42] \<notin> set (take n Q))"

definition glob_later :: "(u16string \<Rightarrow> u16string \<Rightarrow> bool) \<Rightarrow> (u16string list \<times> u16string list) option \<Rightarrow> bool" where
  "glob_later eq st \<longleftrightarrow> (case st of None \<Rightarrow> False
     | Some (S, Q) \<Rightarrow> \<exists>k. 1 \<le> k \<and> k \<le> length S \<and> glob eq (drop k S) Q)"

lemma glob_consume:
  assumes "glob_state (c # T) (p # P) st" "p \<noteq> [42]"
  shows "glob_state T P st"
proof (cases st)
  case (Some sq)
  obtain S Q where sq: "sq = (S, Q)" by (cases sq)
  then obtain n where n: "n \<le> length S" "n \<le> length Q" "c # T = drop n S" "p # P = drop n Q" "[42] \<notin> set (take n Q)"
    using assms(1) Some by (auto simp: glob_state_def)
  have lt: "n < length S" "n < length Q" using n(3,4) by (metis drop_eq_Nil list.distinct(1) not_le)+
  have "T = drop (Suc n) S" "P = drop (Suc n) Q" using n(3,4) by (metis drop_Suc list.sel(3) tl_drop)+
  moreover have "Q ! n = p" using n(4) lt by (metis Cons_nth_drop_Suc list.inject)
  then have "[42] \<notin> set (take (Suc n) Q)" using n(5) assms(2) lt by (simp add: take_Suc_conv_app_nth)
  ultimately show ?thesis using lt Some sq by (auto simp: glob_state_def intro!: exI [of _ "Suc n"])
qed (simp add: glob_state_def)

lemma glob_later_backtrack:
  "S \<noteq> [] \<Longrightarrow> glob_later eq (Some (S, Q)) \<longleftrightarrow> glob eq (tl S) Q \<or> glob_later eq (Some (tl S, Q))"
proof -
  assume "S \<noteq> []"
  then obtain c S' where S: "S = c # S'" by (cases S) auto
  have "(\<exists>k. 1 \<le> k \<and> k \<le> Suc (length S') \<and> glob eq (drop k (c # S')) Q) \<longleftrightarrow> (\<exists>k \<le> length S'. glob eq (drop k S') Q)"
  proof
    assume "\<exists>k. 1 \<le> k \<and> k \<le> Suc (length S') \<and> glob eq (drop k (c # S')) Q"
    then obtain k where "1 \<le> k" "k \<le> Suc (length S')" "glob eq (drop k (c # S')) Q" by blast
    then show "\<exists>k \<le> length S'. glob eq (drop k S') Q" by (cases k) auto
  qed (auto intro: exI [of _ "Suc k" for k])
  moreover have "(\<exists>k \<le> length S'. glob eq (drop k S') Q) \<longleftrightarrow>
      glob eq S' Q \<or> (\<exists>k. 1 \<le> k \<and> k \<le> length S' \<and> glob eq (drop k S') Q)"
    by (metis drop0 le0 less_one not_le)
  ultimately show ?thesis by (simp add: glob_later_def S)
qed

lemma glob_later_at_star:
  assumes "glob_state T ([42] # P) st" "glob_later eq st"
  shows "glob eq T ([42] # P)"
proof -
  obtain S Q k where st: "st = Some (S, Q)" and k: "glob eq (drop k S) Q"
    using assms(2) by (auto simp: glob_later_def split: option.splits)
  then obtain n where n: "n \<le> length Q" "T = drop n S" "[42] # P = drop n Q" "[42] \<notin> set (take n Q)"
    using assms(1) by (auto simp: glob_state_def)
  have "glob eq (drop n (drop k S)) ([42] # P)" using glob_skip_prefix [OF k n(1,4)] n(3) by simp
  then have "glob eq (drop k T) ([42] # P)" using n(2) by (simp add: add.commute)
  then show ?thesis by (rule glob_star_drop)
qed

lemma glob_later_at_end:
  assumes "glob_state [] P st"
  shows "\<not> glob_later eq st"
proof
  assume "glob_later eq st"
  then obtain S Q k where st: "st = Some (S, Q)" and k: "1 \<le> k" "k \<le> length S" "glob eq (drop k S) Q"
    by (auto simp: glob_later_def split: option.splits)
  then obtain n where n: "n \<le> length S" "n \<le> length Q" "[] = drop n S" "[42] \<notin> set (take n Q)"
    using assms by (auto simp: glob_state_def)
  then have "n \<le> length (drop k S)" using glob_skip_prefix [OF k(3) n(2,4)] by simp
  then show False using n(1,3) k(1,2) by simp
qed

definition star_state :: "u16string \<Rightarrow> u16string \<Rightarrow> nat option \<Rightarrow> nat \<Rightarrow> (u16string list \<times> u16string list) option" where
  "star_state text pattern star saved =
     map_option (\<lambda>sp. (characters (drop saved text), characters (drop (sp + 1) pattern))) star"

definition star_next :: "nat option \<Rightarrow> nat" where
  "star_next star = (case star of None \<Rightarrow> 0 | Some sp \<Rightarrow> sp + 1)"

definition glob_measures :: "u16string \<Rightarrow> u16string \<Rightarrow> (nat \<times> nat \<times> nat option \<times> nat \<Rightarrow> nat) list" where
  "glob_measures text pattern =
     [\<lambda>(ti, pi, star, saved). length pattern - star_next star,
      \<lambda>(ti, pi, star, saved). length text - saved,
      \<lambda>(ti, pi, star, saved). length text - ti]"

text \<open>Going back to the last star: one more character of the text goes to the star.\<close>

lemma glob_backtrack:
  assumes "saved < length text"
  shows "glob_state (characters (drop (saved + char_width text saved) text)) (characters (drop (sp + 1) pattern))
      (star_state text pattern (Some sp) (saved + char_width text saved))"
    "glob_later eq (star_state text pattern (Some sp) saved) \<longleftrightarrow>
      glob eq (characters (drop (saved + char_width text saved) text)) (characters (drop (sp + 1) pattern))
      \<or> glob_later eq (star_state text pattern (Some sp) (saved + char_width text saved))"
proof -
  show "glob_state (characters (drop (saved + char_width text saved) text)) (characters (drop (sp + 1) pattern))
      (star_state text pattern (Some sp) (saved + char_width text saved))"
    by (auto simp: glob_state_def star_state_def intro!: exI [of _ 0])
  show "glob_later eq (star_state text pattern (Some sp) saved) \<longleftrightarrow>
      glob eq (characters (drop (saved + char_width text saved) text)) (characters (drop (sp + 1) pattern))
      \<or> glob_later eq (star_state text pattern (Some sp) (saved + char_width text saved))"
    using glob_later_backtrack [of "characters (drop saved text)" eq "characters (drop (sp + 1) pattern)"] assms
    by (simp add: star_state_def characters_drop [OF assms])
qed

lemma glob_new_star:
  "glob_state T P (Some (T, P)) \<and> (glob eq T P \<or> glob_later eq (Some (T, P)) \<longleftrightarrow> glob eq T ([42] # P))"
proof -
  have "glob eq T P \<or> (\<exists>k. 1 \<le> k \<and> k \<le> length T \<and> glob eq (drop k T) P) \<longleftrightarrow> (\<exists>k \<le> length T. glob eq (drop k T) P)"
    by (metis drop0 le0 less_one not_le)
  then show ?thesis by (auto simp: glob_state_def glob_star_iff glob_later_def intro!: exI [of _ 0])
qed

lemma glob_loop_spec:
  assumes "glob_state (characters (drop ti text)) (characters (drop pi pattern)) (star_state text pattern star saved)"
    and "star_next star \<le> pi" "star \<noteq> None \<longrightarrow> saved \<le> ti"
  shows "glob_loop eq text pattern ti pi star saved =
    Some (glob eq (characters (drop ti text)) (characters (drop pi pattern))
      \<or> glob_later eq (star_state text pattern star saved))"
  using assms
proof (induction "(ti, pi, star, saved)" arbitrary: ti pi star saved
    rule: wf_induct_rule [OF wf_measures [of "glob_measures text pattern"]])
  case (1 ti pi star saved)
  let ?T = "characters (drop ti text)" and ?P = "characters (drop pi pattern)"
  let ?st = "star_state text pattern star saved"
  note IH = "1.hyps"
  have retry: "(case star of Some s \<Rightarrow> glob_loop eq text pattern (saved + char_width text saved) (s + 1) star (saved + char_width text saved)
        | None \<Rightarrow> Some False) = Some (glob_later eq ?st)" if "ti < length text"
  proof (cases star)
    case None
    then show ?thesis by (simp add: glob_later_def star_state_def)
  next
    case (Some sp)
    have "saved < length text" using "1.prems"(3) Some that by simp
    note b = glob_backtrack [OF this, where sp = sp and pattern = pattern]
    have "glob_loop eq text pattern (saved + char_width text saved) (sp + 1) (Some sp) (saved + char_width text saved)
        = Some (glob_later eq (star_state text pattern (Some sp) saved))"
      unfolding b(2) using \<open>saved < length text\<close> Some
      by (intro IH b(1)) (simp_all add: glob_measures_def star_next_def diff_less_mono2)
    then show ?thesis using Some by simp
  qed
  show ?case
  proof (cases "ti < length text")
    case False
    then have T: "?T = []" by simp
    then have "\<not> glob_later eq ?st" using glob_later_at_end "1.prems"(1) by metis
    then show ?thesis
      using False glob_skip_stars [of "drop pi pattern" eq] T by (subst glob_loop.simps) simp
  next
    case ti: True
    note T = characters_drop [OF ti]
    have dec: "length text - (ti + char_width text ti) < length text - ti" using ti by (simp add: diff_less_mono2)
    consider (ended) "length pattern \<le> pi" | (q) "pi < length pattern" "pattern ! pi = 63"
      | (star) "pi < length pattern" "pattern ! pi = 42"
      | (lit) "pi < length pattern" "pattern ! pi \<noteq> 63" "pattern ! pi \<noteq> 42"
      using not_le by blast
    then show ?thesis
    proof cases
      case ended
      then show ?thesis using ti T retry [OF ti] by (subst glob_loop.simps) simp
    next
      case q
      have P: "?P = [63] # characters (drop (pi + 1) pattern)"
        using characters_drop [OF q(1)] char_width_plain [of pattern pi] q by (simp add: take_Suc hd_drop_conv_nth)
      have "glob_loop eq text pattern (ti + char_width text ti) (pi + 1) star saved =
          Some (glob eq (characters (drop (ti + char_width text ti) text)) (characters (drop (pi + 1) pattern)) \<or> glob_later eq ?st)"
        using "1.prems" glob_consume [of _ _ "[63]"] dec
        by (intro IH) (auto simp: glob_measures_def T P)
      then show ?thesis using ti q T P by (subst glob_loop.simps) simp
    next
      case star
      have P: "?P = [42] # characters (drop (pi + 1) pattern)"
        using characters_drop [OF star(1)] char_width_plain [of pattern pi] star by (simp add: take_Suc hd_drop_conv_nth)
      note new = glob_new_star [of ?T "characters (drop (pi + 1) pattern)" eq]
      have "glob_loop eq text pattern ti (pi + 1) (Some pi) ti =
          Some (glob eq ?T (characters (drop (pi + 1) pattern)) \<or> glob_later eq (star_state text pattern (Some pi) ti))"
        using new "1.prems"(2) star(1)
        by (intro IH) (auto simp: glob_measures_def star_state_def star_next_def split: option.splits)
      also have "\<dots> = Some (glob eq ?T ?P)" using new by (simp add: star_state_def P)
      also have "glob eq ?T ?P = (glob eq ?T ?P \<or> glob_later eq ?st)"
        using glob_later_at_star [of ?T "characters (drop (pi + 1) pattern)" ?st eq] "1.prems"(1) P by auto
      finally show ?thesis using ti star by (subst glob_loop.simps) simp
    next
      case lit
      let ?w = "char_width text ti" and ?v = "char_width pattern pi"
      note P = characters_drop [OF lit(1)]
      have plain: "take ?v (drop pi pattern) \<noteq> [42]" "take ?v (drop pi pattern) \<noteq> [63]"
        using take_width_hd [OF lit(1)] lit by blast+
      have len: "length (take ?w (drop ti text)) = ?w" "length (take ?v (drop pi pattern)) = ?v"
        using ti lit(1) by (auto simp: char_width_def)
      show ?thesis
      proof (cases "?w = ?v \<and> eq (take ?w (drop ti text)) (take ?v (drop pi pattern))")
        case True
        have st: "glob_state (characters (drop (ti + ?w) text)) (characters (drop (pi + ?v) pattern)) ?st"
          using "1.prems"(1) plain(1) unfolding T P by (rule glob_consume)
        have "glob_loop eq text pattern (ti + ?w) (pi + ?v) star saved =
            Some (glob eq (characters (drop (ti + ?w) text)) (characters (drop (pi + ?v) pattern)) \<or> glob_later eq ?st)"
          using st "1.prems"(2,3) dec by (intro IH) (auto simp: glob_measures_def)
        moreover have "glob eq ?T ?P \<longleftrightarrow> glob eq (characters (drop (ti + ?w) text)) (characters (drop (pi + ?v) pattern))"
          unfolding T P using True [THEN conjunct1] True [THEN conjunct2] plain len
          by (simp only: glob.simps if_False simp_thms)
        moreover have "glob_loop eq text pattern ti pi star saved = glob_loop eq text pattern (ti + ?w) (pi + ?v) star saved"
          using ti lit True [THEN conjunct1] True [THEN conjunct2]
          by (subst glob_loop.simps) (simp only: Let_def simp_thms if_True if_False)
        ultimately show ?thesis by simp
      next
        case False
        then have "\<not> glob eq ?T ?P" using plain len by (auto simp: T P)
        then show ?thesis
          using ti lit False retry [OF ti] by (subst glob_loop.simps) (auto simp: Let_def)
      qed
    qed
  qed
qed

text \<open>
  C21. Glob matching is correct and always returns: for every text, pattern and comparison function
  the iterative matcher with its single saved star answers exactly whether the characters of the
  text match the pattern, where \<open>?\<close> stands for one character, \<open>*\<close> for any number of them and a
  surrogate pair is one character; the view and the owning matcher agree.
\<close>

theorem GlobMatches_correct:
  "GlobMatches cso text pattern = Some (glob (\<lambda>t p. cso t p = 2) (characters text) (characters pattern))
   \<and> GlobMatches16 cso text pattern = GlobMatches cso text pattern"
proof -
  have "glob_loop eq text pattern 0 0 None 0 = Some (glob eq (characters text) (characters pattern))" for eq
    using glob_loop_spec [of 0 "text" 0 pattern None 0 eq]
    by (simp add: glob_state_def star_state_def star_next_def glob_later_def)
  moreover have "(\<lambda>t p. CompareOrdinal16 cso t p = 0) = (\<lambda>t p. cso t p = 2)"
    by (auto simp: CompareOrdinal16_def fun_eq_iff)
  ultimately show ?thesis by (simp add: GlobMatches_def GlobMatches16_def)
qed

end
