(* ===== verification/Query.thy ===== *)
theory Query
  imports Matcher
begin

text \<open>
  The query language of \<open>search/src/Query.cpp\<close>: tokens, filters (\<open>ext\<close>, \<open>name\<close>, \<open>folder\<close>, \<open>size\<close>,
  \<open>ondisk\<close>, \<open>modified\<close>, \<open>kind\<close>), the registry, and the predicates a parsed query evaluates on an
  owned candidate and on a projection view. The optional diagnostics counters are not modelled.

  What the sources take from the platform is the parameter \<open>Host\<close>: the locale's \<open>towlower\<close> and
  \<open>iswspace\<close>, \<open>CompareStringOrdinal\<close>, the clock and the calendar conversions. \<open>iswdigit\<close> accepts the
  ten ASCII digits, as the C standard has it.
\<close>

section \<open>Data\<close>

record Candidate =
  c_name :: u16string
  c_folder :: u16string
  c_sizeBytes :: u64
  c_modifiedTime :: u64
  c_isDirectory :: bool
  c_createdTime :: u64
  c_volumeId :: u64
  c_id :: u64
  c_parentId :: u64
  c_persistentIndexed :: bool
  c_allocatedSizeBytes :: u64
  c_allocatedSizeKnown :: bool

record CandidateView =
  cv_name :: u16string
  cv_folder :: u16string
  cv_sizeBytes :: u64
  cv_modifiedTime :: u64
  cv_isDirectory :: bool
  cv_createdTime :: u64
  cv_volumeId :: u64
  cv_id :: u64
  cv_parentId :: u64
  cv_persistentIndexed :: bool
  cv_nameAsciiLower :: bool
  cv_allocatedSizeBytes :: u64
  cv_allocatedSizeKnown :: bool
  cv_nameIsAscii :: bool

datatype SizeOp = SizeEqual | SizeGreater | SizeGreaterEqual | SizeLess | SizeLessEqual | SizeRange

record SizeFilter =
  sf_op :: SizeOp
  sf_first :: u64
  sf_second :: u64

datatype DateOp = DateEqualDay | DateGreaterThan | DateRange

record DateFilter =
  df_op :: DateOp
  df_first :: u64
  df_second :: u64

datatype FilterValue = FV_text u16string | FV_size SizeFilter | FV_date DateFilter

type_synonym Predicate = "Candidate \<Rightarrow> bool"
type_synonym ViewPredicate = "CandidateView \<Rightarrow> bool"

datatype PredicateKind = PK_Unknown | PK_LiteralName | PK_GlobName | PK_FolderName | PK_Extension
  | PK_Size | PK_AllocatedSize | PK_Modified | PK_Kind

record FilterDefinition =
  fd_parseValue :: "u16string \<Rightarrow> FilterValue option"
  fd_makePredicate :: "FilterValue \<Rightarrow> Predicate"
  fd_makeViewPredicate :: "(FilterValue \<Rightarrow> ViewPredicate) option"

type_synonym FilterRegistry = "u16string \<rightharpoonup> FilterDefinition"

record SYSTEMTIME =
  st_wYear :: u16
  st_wMonth :: u16
  st_wDayOfWeek :: u16
  st_wDay :: u16
  st_wHour :: u16
  st_wMinute :: u16
  st_wSecond :: u16
  st_wMilliseconds :: u16

record Host =
  h_towlower :: "u16 \<Rightarrow> u16"
  h_iswspace :: "u16 \<Rightarrow> bool"
  h_cso :: ordinal
  h_now :: u64
  h_FileTimeToLocalFileTime :: "u64 \<Rightarrow> u64 option"
  h_FileTimeToSystemTime :: "u64 \<Rightarrow> SYSTEMTIME option"
  h_SystemTimeToFileTime :: "SYSTEMTIME \<Rightarrow> u64 option"

section \<open>Strings\<close>

text \<open>An ASCII string literal of the sources, and the searches of \<open>std::basic_string_view\<close>.\<close>

definition wstr :: "string \<Rightarrow> u16string" where
  "wstr s = map (\<lambda>c. of_nat (of_char c)) s"

definition find_first :: "('a \<Rightarrow> bool) \<Rightarrow> 'a list \<Rightarrow> nat option" where
  "find_first P xs = find (\<lambda>i. P (xs ! i)) [0..<length xs]"

definition find_last :: "('a \<Rightarrow> bool) \<Rightarrow> 'a list \<Rightarrow> nat option" where
  "find_last P xs = find (\<lambda>i. P (xs ! i)) (rev [0..<length xs])"

definition find_sub :: "'a list \<Rightarrow> 'a list \<Rightarrow> nat option" where
  "find_sub sub xs = find (\<lambda>i. take (length sub) (drop i xs) = sub) [0..<length xs]"

definition starts_with :: "'a list \<Rightarrow> 'a list \<Rightarrow> bool" where
  "starts_with pre xs = (take (length pre) xs = pre)"

definition Lower :: "Host \<Rightarrow> u16string \<Rightarrow> u16string" where
  "Lower host val = map (h_towlower host) val"

definition iswdigit :: "u16 \<Rightarrow> bool" where
  "iswdigit c = (c \<ge> 48 \<and> c \<le> 57)"

definition LowerEquals16 :: "Host \<Rightarrow> u16string \<Rightarrow> u16string \<Rightarrow> bool" where
  "LowerEquals16 host val lowerValue =
     (if length val \<noteq> length lowerValue then False
      else list_all (\<lambda>i. h_towlower host (val ! i) = lowerValue ! i) [0..<length val])"

definition HasLowerExtension16 :: "Host \<Rightarrow> u16string \<Rightarrow> u16string \<Rightarrow> bool" where
  "HasLowerExtension16 host name extension =
     (case find_last (\<lambda>c. c = 46) name of
        None \<Rightarrow> False | Some dot \<Rightarrow> LowerEquals16 host (drop (dot + 1) name) extension)"

text \<open>The loop of \<open>Tokenize\<close> over the characters, with the tokens so far, the current one and the quote flag.\<close>

fun tokenize_loop :: "Host \<Rightarrow> u16string \<Rightarrow> u16string list \<Rightarrow> u16string \<Rightarrow> bool \<Rightarrow> u16string list" where
  "tokenize_loop host [] tokens current quoted = (if current \<noteq> [] then tokens @ [current] else tokens)"
| "tokenize_loop host (c # cs) tokens current quoted =
     (if c = 34 then tokenize_loop host cs tokens current (\<not> quoted)
      else if \<not> quoted \<and> h_iswspace host c
        then if current \<noteq> [] then tokenize_loop host cs (tokens @ [current]) [] quoted
             else tokenize_loop host cs tokens current quoted
      else tokenize_loop host cs tokens (current @ [c]) quoted)"

definition Tokenize :: "Host \<Rightarrow> u16string \<Rightarrow> u16string list" where
  "Tokenize host val = tokenize_loop host val [] [] False"

section \<open>Sizes\<close>

fun parse_digits :: "u16string \<Rightarrow> u64 \<Rightarrow> u64 option" where
  "parse_digits [] val = Some val"
| "parse_digits (c # cs) val =
     (let digit = ucast (c - 48) in
      if val > (- 1 - digit) div 10 then None else parse_digits cs (val * 10 + digit))"

definition ParseSize :: "Host \<Rightarrow> u16string \<Rightarrow> u64 option" where
  "ParseSize host val =
     (let digits = takeWhile iswdigit val in
      if digits = [] then None
      else case parse_digits digits 0 of None \<Rightarrow> None
        | Some n \<Rightarrow>
            let unit = Lower host (drop (length digits) val);
                multiplier = (if unit = wstr ''kb'' then Some 1024
                              else if unit = wstr ''mb'' then Some (1024 * 1024)
                              else if unit = wstr ''gb'' then Some (1024 * 1024 * 1024)
                              else if unit \<noteq> [] \<and> unit \<noteq> wstr ''b'' then None
                              else Some 1)
            in case multiplier of None \<Rightarrow> None
                 | Some m \<Rightarrow> if n > (- 1) div m then None else Some (n * m))"

definition ParseSizeFilter :: "Host \<Rightarrow> u16string \<Rightarrow> FilterValue option" where
  "ParseSizeFilter host val =
     (case find_sub (wstr ''..'') val of
        Some rng \<Rightarrow>
          (case (ParseSize host (take rng val), ParseSize host (drop (rng + 2) val)) of
             (Some a, Some b) \<Rightarrow>
               if a > b then None else Some (FV_size \<lparr>sf_op = SizeRange, sf_first = a, sf_second = b\<rparr>)
           | _ \<Rightarrow> None)
      | None \<Rightarrow>
          let (op, off) = (if starts_with (wstr ''>='') val then (SizeGreaterEqual, 2)
                           else if starts_with (wstr ''<='') val then (SizeLessEqual, 2)
                           else if starts_with (wstr ''>'') val then (SizeGreater, 1)
                           else if starts_with (wstr ''<'') val then (SizeLess, 1)
                           else if starts_with (wstr ''='') val then (SizeEqual, 1)
                           else (SizeEqual, 0))
          in case ParseSize host (drop off val) of None \<Rightarrow> None
               | Some n \<Rightarrow> Some (FV_size \<lparr>sf_op = op, sf_first = n, sf_second = 0\<rparr>))"

definition size_matches :: "SizeFilter \<Rightarrow> u64 \<Rightarrow> bool" where
  "size_matches f n =
     (case sf_op f of
        SizeEqual \<Rightarrow> n = sf_first f
      | SizeGreater \<Rightarrow> n > sf_first f
      | SizeGreaterEqual \<Rightarrow> n \<ge> sf_first f
      | SizeLess \<Rightarrow> n < sf_first f
      | SizeLessEqual \<Rightarrow> n \<le> sf_first f
      | SizeRange \<Rightarrow> n \<ge> sf_first f \<and> n \<le> sf_second f)"

text \<open>
  \<open>std::get\<close> on another alternative would throw; the registry passes each of these makers only the
  values its own parser returns.
\<close>

definition MakeSizePredicate :: "FilterValue \<Rightarrow> Predicate" where
  "MakeSizePredicate v = (case v of FV_size f \<Rightarrow> (\<lambda>c. size_matches f (c_sizeBytes c)) | _ \<Rightarrow> (\<lambda>c. False))"

definition MakeAllocatedSizePredicate :: "FilterValue \<Rightarrow> Predicate" where
  "MakeAllocatedSizePredicate v =
     (case v of FV_size f \<Rightarrow> (\<lambda>c. if \<not> c_allocatedSizeKnown c then False else size_matches f (c_allocatedSizeBytes c))
      | _ \<Rightarrow> (\<lambda>c. False))"

section \<open>Dates\<close>

definition kDay :: u64 where
  "kDay = 24 * 60 * 60 * 10000000"

definition digits_value :: "u16string \<Rightarrow> nat" where
  "digits_value ds = foldl (\<lambda>n c. n * 10 + unat (c - 48)) 0 ds"

text \<open>\<open>_wtoi\<close> on at most four digits, and \<open>wcstoul\<close>, whose 32-bit result saturates.\<close>

definition wtoi_word :: "u16string \<Rightarrow> u16" where
  "wtoi_word ds = of_nat (digits_value ds)"

definition wcstoul :: "u16string \<Rightarrow> u32" where
  "wcstoul ds = of_nat (min (digits_value ds) (2 ^ 32 - 1))"

definition ParseDay :: "Host \<Rightarrow> u16string \<Rightarrow> u64 option" where
  "ParseDay host val =
     (if length val \<noteq> 10 \<or> val ! 4 \<noteq> 45 \<or> val ! 7 \<noteq> 45 then None
      else if \<not> list_all (\<lambda>i. i = 4 \<or> i = 7 \<or> iswdigit (val ! i)) [0..<length val] then None
      else h_SystemTimeToFileTime host
             \<lparr>st_wYear = wtoi_word (take 4 val), st_wMonth = wtoi_word (take 2 (drop 5 val)),
              st_wDayOfWeek = 0, st_wDay = wtoi_word (take 2 (drop 8 val)),
              st_wHour = 0, st_wMinute = 0, st_wSecond = 0, st_wMilliseconds = 0\<rparr>)"

definition LocalDayStart :: "Host \<Rightarrow> u64 \<Rightarrow> u64" where
  "LocalDayStart host now =
     (case Option.bind (h_FileTimeToLocalFileTime host now) (h_FileTimeToSystemTime host) of
        None \<Rightarrow> now - now mod (24 * 60 * 60 * 10000000)
      | Some local \<Rightarrow>
          (case h_SystemTimeToFileTime host
                  (local\<lparr>st_wHour := 0, st_wMinute := 0, st_wSecond := 0, st_wMilliseconds := 0\<rparr>) of
             None \<Rightarrow> now - now mod (24 * 60 * 60 * 10000000)
           | Some dayStart \<Rightarrow> dayStart))"

definition parse_relative :: "Host \<Rightarrow> u16string \<Rightarrow> FilterValue option" where
  "parse_relative host val =
     (let digits = take (length val - 2) (drop 1 val) in
      if digits = [] \<or> \<not> list_all iswdigit digits then None
      else
        let days = wcstoul digits;
            dayStart = LocalDayStart host (h_now host);
            bck = (if days = 0 then 0 else ucast (days - 1))
        in if bck > dayStart div kDay + 1 then None
           else Some (FV_date \<lparr>df_op = DateGreaterThan, df_first = dayStart - bck * kDay - 1, df_second = 0\<rparr>))"

definition ParseDateFilter :: "Host \<Rightarrow> u16string \<Rightarrow> FilterValue option" where
  "ParseDateFilter host val =
     (if Lower host val = wstr ''today''
      then let day = LocalDayStart host (h_now host)
           in Some (FV_date \<lparr>df_op = DateRange, df_first = day, df_second = day + kDay - 1\<rparr>)
      else case find_sub (wstr ''..'') val of
        Some rng \<Rightarrow>
          (case (ParseDay host (take rng val), ParseDay host (drop (rng + 2) val)) of
             (Some a, Some b) \<Rightarrow>
               if a > b then None
               else Some (FV_date \<lparr>df_op = DateRange, df_first = a, df_second = b + kDay - 1\<rparr>)
           | _ \<Rightarrow> None)
      | None \<Rightarrow>
          if starts_with (wstr ''>'') val \<and> val \<noteq> [] \<and> last val = 100 then parse_relative host val
          else case ParseDay host val of None \<Rightarrow> None
            | Some day \<Rightarrow> Some (FV_date \<lparr>df_op = DateEqualDay, df_first = day, df_second = day + kDay - 1\<rparr>))"

definition date_matches :: "DateFilter \<Rightarrow> u64 \<Rightarrow> bool" where
  "date_matches f t =
     (if df_op f = DateGreaterThan then t > df_first f else t \<ge> df_first f \<and> t \<le> df_second f)"

definition MakeDatePredicate :: "FilterValue \<Rightarrow> Predicate" where
  "MakeDatePredicate v = (case v of FV_date f \<Rightarrow> (\<lambda>c. date_matches f (c_modifiedTime c)) | _ \<Rightarrow> (\<lambda>c. False))"

section \<open>The registry\<close>

definition Register :: "Host \<Rightarrow> u16string \<Rightarrow> FilterDefinition \<Rightarrow> FilterRegistry \<Rightarrow> FilterRegistry" where
  "Register host key d definitions = definitions(Lower host key \<mapsto> d)"

definition Find_filter :: "Host \<Rightarrow> FilterRegistry \<Rightarrow> u16string \<Rightarrow> FilterDefinition option" where
  "Find_filter host definitions key = definitions (Lower host key)"

definition extension_of :: "Host \<Rightarrow> u16string \<Rightarrow> u16string option" where
  "extension_of host name =
     (case find_last (\<lambda>c. c = 46) name of None \<Rightarrow> None | Some dot \<Rightarrow> Some (Lower host (drop (dot + 1) name)))"

definition ext_parse :: "Host \<Rightarrow> u16string \<Rightarrow> FilterValue option" where
  "ext_parse host v =
     (let x = (if v \<noteq> [] \<and> hd v = 46 then tl v else v) in if x = [] then None else Some (FV_text (Lower host x)))"

definition ext_filter :: "Host \<Rightarrow> FilterDefinition" where
  "ext_filter host =
     \<lparr>fd_parseValue = ext_parse host,
      fd_makePredicate = (\<lambda>v. case v of
          FV_text extension \<Rightarrow> (\<lambda>c. extension_of host (c_name c) = Some extension) | _ \<Rightarrow> (\<lambda>c. False)),
      fd_makeViewPredicate = Some (\<lambda>v. case v of
          FV_text extension \<Rightarrow> (\<lambda>c. HasLowerExtension16 host (cv_name c) extension) | _ \<Rightarrow> (\<lambda>c. False))\<rparr>"

definition nonempty_text :: "u16string \<Rightarrow> FilterValue option" where
  "nonempty_text val = (if val = [] then None else Some (FV_text val))"

text \<open>The lambda that \<open>ParseQuery\<close> and the \<open>name\<close> filter build for a literal term over a view.\<close>

definition literal_view :: "Host \<Rightarrow> u16string \<Rightarrow> ViewPredicate" where
  "literal_view host token =
     (let folded = (if IsAscii token then FoldAscii16 token else []);
          shifts = BuildAsciiShifts folded;
          anchorIndex = ChooseAsciiAnchor folded;
          anchor = (if folded = [] then 0 else folded ! anchorIndex)
      in (\<lambda>c. OrdinalContains16Prepared (h_cso host) (cv_name c) token folded shifts (cv_nameIsAscii c)
                anchor anchorIndex))"

definition name_filter :: "Host \<Rightarrow> FilterDefinition" where
  "name_filter host =
     \<lparr>fd_parseValue = nonempty_text,
      fd_makePredicate = (\<lambda>v. case v of
          FV_text val \<Rightarrow> (\<lambda>c. AsciiFoldContains (h_cso host) (c_name c) (PrepareAsciiFoldNeedle val))
        | _ \<Rightarrow> (\<lambda>c. False)),
      fd_makeViewPredicate = Some (\<lambda>v. case v of FV_text val \<Rightarrow> literal_view host val | _ \<Rightarrow> (\<lambda>c. False))\<rparr>"

definition folder_filter :: "Host \<Rightarrow> FilterDefinition" where
  "folder_filter host =
     \<lparr>fd_parseValue = nonempty_text,
      fd_makePredicate = (\<lambda>v. case v of
          FV_text val \<Rightarrow> (\<lambda>c. AsciiFoldContains (h_cso host) (c_folder c) (PrepareAsciiFoldNeedle val))
        | _ \<Rightarrow> (\<lambda>c. False)),
      fd_makeViewPredicate = Some (\<lambda>v. case v of
          FV_text val \<Rightarrow> (\<lambda>c. AsciiFoldContains (h_cso host) (cv_folder c) (PrepareAsciiFoldNeedle val))
        | _ \<Rightarrow> (\<lambda>c. False))\<rparr>"

definition size_filter :: "Host \<Rightarrow> FilterDefinition" where
  "size_filter host =
     \<lparr>fd_parseValue = ParseSizeFilter host,
      fd_makePredicate = MakeSizePredicate,
      fd_makeViewPredicate = Some (\<lambda>v. case v of
          FV_size f \<Rightarrow> (\<lambda>c. size_matches f (cv_sizeBytes c)) | _ \<Rightarrow> (\<lambda>c. False))\<rparr>"

definition ondisk_filter :: "Host \<Rightarrow> FilterDefinition" where
  "ondisk_filter host =
     \<lparr>fd_parseValue = ParseSizeFilter host,
      fd_makePredicate = MakeAllocatedSizePredicate,
      fd_makeViewPredicate = Some (\<lambda>v. case v of
          FV_size f \<Rightarrow>
            (\<lambda>c. if \<not> cv_allocatedSizeKnown c then False else size_matches f (cv_allocatedSizeBytes c))
        | _ \<Rightarrow> (\<lambda>c. False))\<rparr>"

definition modified_filter :: "Host \<Rightarrow> FilterDefinition" where
  "modified_filter host =
     \<lparr>fd_parseValue = ParseDateFilter host,
      fd_makePredicate = MakeDatePredicate,
      fd_makeViewPredicate = Some (\<lambda>v. case v of
          FV_date f \<Rightarrow> (\<lambda>c. date_matches f (cv_modifiedTime c)) | _ \<Rightarrow> (\<lambda>c. False))\<rparr>"

definition kind_parse :: "Host \<Rightarrow> u16string \<Rightarrow> FilterValue option" where
  "kind_parse host v =
     (let x = Lower host v in
      if x = wstr ''document'' \<or> x = wstr ''image'' \<or> x = wstr ''video'' \<or> x = wstr ''audio''
         \<or> x = wstr ''archive'' \<or> x = wstr ''executable'' \<or> x = wstr ''folder'' \<or> x = wstr ''file''
      then Some (FV_text x) else None)"

definition kind_matches :: "Host \<Rightarrow> u16string \<Rightarrow> Predicate" where
  "kind_matches host k c =
     (if k = wstr ''folder'' then c_isDirectory c
      else if k = wstr ''file'' then \<not> c_isDirectory c
      else let ext = (case extension_of host (c_name c) of None \<Rightarrow> [] | Some x \<Rightarrow> x) in
        if k = wstr ''image'' then ext = wstr ''png'' \<or> ext = wstr ''jpg'' \<or> ext = wstr ''jpeg'' \<or> ext = wstr ''gif''
        else if k = wstr ''document'' then ext = wstr ''pdf'' \<or> ext = wstr ''doc'' \<or> ext = wstr ''docx'' \<or> ext = wstr ''txt''
        else if k = wstr ''video'' then ext = wstr ''mp4'' \<or> ext = wstr ''mkv''
        else if k = wstr ''audio'' then ext = wstr ''mp3'' \<or> ext = wstr ''wav''
        else if k = wstr ''archive'' then ext = wstr ''zip'' \<or> ext = wstr ''7z''
        else ext = wstr ''exe'' \<or> ext = wstr ''bat'' \<or> ext = wstr ''cmd'')"

definition kind_matches_view :: "Host \<Rightarrow> u16string \<Rightarrow> ViewPredicate" where
  "kind_matches_view host k c =
     (let has = (\<lambda>s. HasLowerExtension16 host (cv_name c) (wstr s)) in
      if k = wstr ''folder'' then cv_isDirectory c
      else if k = wstr ''file'' then \<not> cv_isDirectory c
      else if k = wstr ''image'' then has ''png'' \<or> has ''jpg'' \<or> has ''jpeg'' \<or> has ''gif''
      else if k = wstr ''document'' then has ''pdf'' \<or> has ''doc'' \<or> has ''docx'' \<or> has ''txt''
      else if k = wstr ''video'' then has ''mp4'' \<or> has ''mkv''
      else if k = wstr ''audio'' then has ''mp3'' \<or> has ''wav''
      else if k = wstr ''archive'' then has ''zip'' \<or> has ''7z''
      else has ''exe'' \<or> has ''bat'' \<or> has ''cmd'')"

definition kind_filter :: "Host \<Rightarrow> FilterDefinition" where
  "kind_filter host =
     \<lparr>fd_parseValue = kind_parse host,
      fd_makePredicate = (\<lambda>v. case v of FV_text k \<Rightarrow> kind_matches host k | _ \<Rightarrow> (\<lambda>c. False)),
      fd_makeViewPredicate = Some (\<lambda>v. case v of FV_text k \<Rightarrow> kind_matches_view host k | _ \<Rightarrow> (\<lambda>c. False))\<rparr>"

definition WithDefaults :: "Host \<Rightarrow> FilterRegistry" where
  "WithDefaults host =
     Register host (wstr ''kind'') (kind_filter host)
      (Register host (wstr ''modified'') (modified_filter host)
       (Register host (wstr ''ondisk'') (ondisk_filter host)
        (Register host (wstr ''size'') (size_filter host)
         (Register host (wstr ''folder'') (folder_filter host)
          (Register host (wstr ''name'') (name_filter host)
           (Register host (wstr ''ext'') (ext_filter host) Map.empty))))))"

section \<open>Parsed queries\<close>

record Query =
  q_predicates :: "Predicate list"
  q_predicatesWithoutFolder :: "Predicate list"
  q_viewPredicates :: "ViewPredicate list"
  q_viewPredicatesWithoutFolder :: "ViewPredicate list"
  q_viewPredicateKinds :: "PredicateKind list"
  q_viewPredicateWithoutFolderKinds :: "PredicateKind list"
  q_unrecognizedKeys :: "u16string list"
  q_invalidFilters :: "u16string list"
  q_primaryTerm :: u16string
  q_simpleLiteralTerm :: u16string
  q_simpleLiteralFolded :: u16string
  q_simpleLiteralAnchor :: u16
  q_simpleLiteralAnchorIndex :: nat
  q_simpleLiteralShifts :: "nat list"
  q_requiresFolder :: bool
  q_viewCompatible :: bool
  q_simpleLiteralName :: bool

definition empty_Query :: Query where
  "empty_Query =
     \<lparr>q_predicates = [], q_predicatesWithoutFolder = [], q_viewPredicates = [],
      q_viewPredicatesWithoutFolder = [], q_viewPredicateKinds = [], q_viewPredicateWithoutFolderKinds = [],
      q_unrecognizedKeys = [], q_invalidFilters = [], q_primaryTerm = [], q_simpleLiteralTerm = [],
      q_simpleLiteralFolded = [], q_simpleLiteralAnchor = 0, q_simpleLiteralAnchorIndex = 0,
      q_simpleLiteralShifts = replicate 128 0, q_requiresFolder = False, q_viewCompatible = True,
      q_simpleLiteralName = False\<rparr>"

definition Matches :: "Query \<Rightarrow> Candidate \<Rightarrow> bool" where
  "Matches q c = list_all (\<lambda>p. p c) (q_predicates q)"

definition MatchesWithoutFolder :: "Query \<Rightarrow> Candidate \<Rightarrow> bool" where
  "MatchesWithoutFolder q c = list_all (\<lambda>p. p c) (q_predicatesWithoutFolder q)"

fun EvaluateViewPredicates :: "ViewPredicate list \<Rightarrow> CandidateView \<Rightarrow> bool" where
  "EvaluateViewPredicates [] c = True"
| "EvaluateViewPredicates (p # ps) c = (if \<not> p c then False else EvaluateViewPredicates ps c)"

definition MatchSimpleLiteral :: "Host \<Rightarrow> Query \<Rightarrow> CandidateView \<Rightarrow> bool" where
  "MatchSimpleLiteral host q c =
     OrdinalContains16Prepared (h_cso host) (cv_name c) (q_simpleLiteralTerm q) (q_simpleLiteralFolded q)
       (q_simpleLiteralShifts q) (cv_nameIsAscii c) (q_simpleLiteralAnchor q) (q_simpleLiteralAnchorIndex q)"

definition MatchesView :: "Host \<Rightarrow> Query \<Rightarrow> CandidateView \<Rightarrow> bool" where
  "MatchesView host q c =
     (if q_viewCompatible q \<and> q_simpleLiteralName q then MatchSimpleLiteral host q c
      else q_viewCompatible q \<and> EvaluateViewPredicates (q_viewPredicates q) c)"

definition MatchesViewWithoutFolder :: "Host \<Rightarrow> Query \<Rightarrow> CandidateView \<Rightarrow> bool" where
  "MatchesViewWithoutFolder host q c =
     (if q_viewCompatible q \<and> q_simpleLiteralName q then MatchSimpleLiteral host q c
      else q_viewCompatible q \<and> EvaluateViewPredicates (q_viewPredicatesWithoutFolder q) c)"

definition addPredicate ::
  "Predicate \<Rightarrow> ViewPredicate option \<Rightarrow> bool \<Rightarrow> PredicateKind \<Rightarrow> Query \<Rightarrow> Query" where
  "addPredicate p vp requiresFolder kind q =
     (let q = q\<lparr>q_predicates := q_predicates q @ [p]\<rparr>;
          q = (if requiresFolder then q\<lparr>q_requiresFolder := True\<rparr>
               else q\<lparr>q_predicatesWithoutFolder := q_predicatesWithoutFolder q @ [p]\<rparr>)
      in case vp of
           None \<Rightarrow> q\<lparr>q_viewCompatible := False\<rparr>
         | Some v \<Rightarrow>
             let q = q\<lparr>q_viewPredicates := q_viewPredicates q @ [v],
                       q_viewPredicateKinds := q_viewPredicateKinds q @ [kind]\<rparr>
             in if requiresFolder then q
                else q\<lparr>q_viewPredicatesWithoutFolder := q_viewPredicatesWithoutFolder q @ [v],
                       q_viewPredicateWithoutFolderKinds := q_viewPredicateWithoutFolderKinds q @ [kind]\<rparr>)"

definition filter_kind :: "u16string \<Rightarrow> PredicateKind" where
  "filter_kind normalizedKey =
     (if normalizedKey = wstr ''name'' then PK_LiteralName
      else if normalizedKey = wstr ''folder'' then PK_FolderName
      else if normalizedKey = wstr ''ext'' then PK_Extension
      else if normalizedKey = wstr ''size'' then PK_Size
      else if normalizedKey = wstr ''ondisk'' then PK_AllocatedSize
      else if normalizedKey = wstr ''modified'' then PK_Modified
      else if normalizedKey = wstr ''kind'' then PK_Kind
      else PK_Unknown)"

definition fv_text :: "FilterValue \<Rightarrow> u16string" where
  "fv_text v = (case v of FV_text s \<Rightarrow> s | _ \<Rightarrow> [])"

text \<open>A registered key: the filter's predicates, or the key among the invalid ones.\<close>

definition filter_token ::
  "Host \<Rightarrow> FilterDefinition \<Rightarrow> u16string \<Rightarrow> u16string \<Rightarrow> Query \<times> u16string \<Rightarrow> Query \<times> u16string" where
  "filter_token host d key val qs =
     (let (q, simple) = qs in
      case fd_parseValue d val of
        Some parsed \<Rightarrow>
          let kind = filter_kind (Lower host key) in
          (addPredicate (fd_makePredicate d parsed) (map_option (\<lambda>mk. mk parsed) (fd_makeViewPredicate d))
             (Lower host key = wstr ''folder'') kind q,
           if kind = PK_LiteralName then fv_text parsed else simple)
      | None \<Rightarrow> (q\<lparr>q_invalidFilters := q_invalidFilters q @ [key]\<rparr>, simple))"

text \<open>A bare term: a glob when it has a wildcard, otherwise a literal.\<close>

definition term_token :: "Host \<Rightarrow> u16string \<Rightarrow> Query \<times> u16string \<Rightarrow> Query \<times> u16string" where
  "term_token host token qs =
     (let (q, simple) = qs in
      if find_first (\<lambda>c. c = 42 \<or> c = 63) token \<noteq> None
      then (addPredicate (\<lambda>c. the (GlobMatches (h_cso host) (c_name c) token))
              (Some (\<lambda>c. the (GlobMatches16 (h_cso host) (cv_name c) token))) False PK_GlobName q, simple)
      else
        let q = (if q_primaryTerm q = [] then q\<lparr>q_primaryTerm := token\<rparr> else q) in
        (addPredicate (\<lambda>c. AsciiFoldContains (h_cso host) (c_name c) (PrepareAsciiFoldNeedle token))
           (Some (literal_view host token)) False PK_LiteralName q, token))"

definition token_step ::
  "Host \<Rightarrow> FilterRegistry \<Rightarrow> Query \<times> u16string \<Rightarrow> u16string \<Rightarrow> Query \<times> u16string" where
  "token_step host registry qs token =
     (case find_first (\<lambda>c. c = 58) token of
        None \<Rightarrow> term_token host token qs
      | Some colon \<Rightarrow>
          let key = take colon token; val = drop (colon + 1) token in
          (case Find_filter host registry key of
             Some d \<Rightarrow> filter_token host d key val qs
           | None \<Rightarrow>
               let (q, simple) = qs in
               term_token host token (q\<lparr>q_unrecognizedKeys := q_unrecognizedKeys q @ [key]\<rparr>, simple)))"

definition set_simple :: "u16string \<Rightarrow> Query \<Rightarrow> Query" where
  "set_simple simple q =
     (if q_viewCompatible q \<and> \<not> q_requiresFolder q \<and> length (q_predicates q) = 1
         \<and> length (q_viewPredicateKinds q) = 1 \<and> hd (q_viewPredicateKinds q) = PK_LiteralName
         \<and> simple \<noteq> []
      then let folded = (if IsAscii simple then FoldAscii16 simple else []);
               anchorIndex = ChooseAsciiAnchor folded
           in q\<lparr>q_simpleLiteralName := True, q_simpleLiteralTerm := simple, q_simpleLiteralFolded := folded,
                q_simpleLiteralAnchorIndex := anchorIndex,
                q_simpleLiteralAnchor := (if folded = [] then 0 else folded ! anchorIndex),
                q_simpleLiteralShifts := BuildAsciiShifts folded\<rparr>
      else q)"

definition ParseQuery :: "Host \<Rightarrow> FilterRegistry \<Rightarrow> u16string \<Rightarrow> Query" where
  "ParseQuery host registry val =
     (let (q, simple) = foldl (token_step host registry) (empty_Query, []) (Tokenize host val)
      in set_simple simple q)"

section \<open>Sizes are read exactly\<close>

lemma digits_value_append: "digits_value (ds @ [c]) = digits_value ds * 10 + unat (c - 48)"
  by (simp add: digits_value_def)

definition digits_from :: "nat \<Rightarrow> u16string \<Rightarrow> nat" where
  "digits_from n ds = foldl (\<lambda>n c. n * 10 + unat (c - 48)) n ds"

lemma digits_from_mono: "n \<le> digits_from n ds"
proof (induction ds arbitrary: n)
  case (Cons c cs)
  have "n \<le> n * 10 + unat (c - 48)" by simp
  also have "\<dots> \<le> digits_from (n * 10 + unat (c - 48)) cs" by (rule Cons.IH)
  finally show ?case by (simp add: digits_from_def)
qed (simp add: digits_from_def)

lemma unat_max: "unat (- 1 :: u64) = 2 ^ 64 - 1"
  by (simp add: unsigned_minus_1_eq_mask mask_eq_exp_minus_1)

lemma unat_bound: "unat (x :: u64) < 2 ^ 64"
  using unsigned_less [of x] by simp

lemma unat_lit: "unat (x :: u64) < 18446744073709551616"
  using unat_bound [of x] by simp

lemma unat_of_nat_u64: "n < 2 ^ 64 \<Longrightarrow> unat (of_nat n :: u64) = n"
  by (simp add: unsigned_of_nat take_bit_nat_eq_self)

lemma digit_guard:
  fixes val d :: u64
  assumes "unat d < 10"
  shows "val > (- 1 - d) div 10 \<longleftrightarrow> 2 ^ 64 \<le> unat val * 10 + unat d"
proof -
  have "unat (- 1 - d) = 2 ^ 64 - 1 - unat d"
    by (subst unat_sub) (auto simp: unat_max)
  then have "unat ((- 1 - d) div 10) = (2 ^ 64 - 1 - unat d) div 10"
    by (simp add: unat_div)
  then show ?thesis
    using assms by (auto simp: word_less_nat_alt)
qed

lemma iswdigit_value: "iswdigit c \<Longrightarrow> unat (ucast (c - 48) :: u64) = unat (c - 48) \<and> unat (c - 48) < 10"
proof -
  assume "iswdigit c"
  then have "unat (c - 48) = unat c - 48" "unat c \<le> 57"
    by (auto simp: iswdigit_def word_le_nat_alt unat_sub)
  then show ?thesis by (simp add: unsigned_ucast_eq take_bit_nat_eq_self)
qed

lemma parse_digits_exact:
  assumes "list_all iswdigit ds"
  shows "parse_digits ds val =
    (if digits_from (unat val) ds < 2 ^ 64 then Some (of_nat (digits_from (unat val) ds)) else None)"
  using assms
proof (induction ds arbitrary: val)
  case Nil
  then show ?case using unat_bound [of val] by (simp add: digits_from_def)
next
  case (Cons c cs)
  define d :: u64 where "d = ucast (c - 48)"
  have d: "unat d = unat (c - 48)" "unat d < 10"
    using Cons.prems iswdigit_value [of c] by (auto simp: d_def)
  have step: "digits_from (unat val) (c # cs) = digits_from (unat val * 10 + unat d) cs"
    by (simp add: digits_from_def d)
  show ?case
  proof (cases "2 ^ 64 \<le> unat val * 10 + unat d")
    case True
    then have "\<not> digits_from (unat val) (c # cs) < 2 ^ 64"
      using digits_from_mono [of "unat val * 10 + unat d" cs] unfolding step by linarith
    moreover have "parse_digits (c # cs) val = None"
      using True digit_guard [OF d(2)] by (simp add: d_def)
    ultimately show ?thesis by simp
  next
    case False
    then have "unat (val * 10 + d) = unat val * 10 + unat d"
      by (simp add: unat_word_ariths)
    moreover have "parse_digits (c # cs) val = parse_digits cs (val * 10 + d)"
      using False digit_guard [OF d(2), of val] by (simp add: d_def Let_def)
    ultimately show ?thesis
      using Cons.IH [of "val * 10 + d"] Cons.prems by (simp only: step list.pred_inject simp_thms)
  qed
qed

text \<open>The unit suffixes and their factors.\<close>

definition unit_factor :: "u16string \<Rightarrow> nat option" where
  "unit_factor u =
     (if u = [] \<or> u = wstr ''b'' then Some 1
      else if u = wstr ''kb'' then Some (2 ^ 10)
      else if u = wstr ''mb'' then Some (2 ^ 20)
      else if u = wstr ''gb'' then Some (2 ^ 30)
      else None)"

definition size_value :: "Host \<Rightarrow> u16string \<Rightarrow> nat option" where
  "size_value host val =
     (let digits = takeWhile iswdigit val in
      if digits = [] then None
      else map_option (\<lambda>m. digits_value digits * m) (unit_factor (Lower host (dropWhile iswdigit val))))"

lemma wstr_units [simp]:
  "wstr ''b'' = [98]" "wstr ''kb'' = [107, 98]" "wstr ''mb'' = [109, 98]" "wstr ''gb'' = [103, 98]"
  by (simp_all add: wstr_def)

lemma mult_guard:
  fixes n m :: u64
  assumes "0 < unat m"
  shows "(if n > (- 1) div m then None else Some (n * m)) =
    (if unat n * unat m < 2 ^ 64 then Some (of_nat (unat n * unat m)) else None)"
proof -
  have "unat ((- 1) div m) = (2 ^ 64 - 1) div unat m"
    by (simp add: unat_div unat_max)
  then have "n > (- 1) div m \<longleftrightarrow> (2 ^ 64 - 1) div unat m < unat n"
    by (simp add: word_less_nat_alt)
  also have "\<dots> \<longleftrightarrow> \<not> unat n * unat m < 2 ^ 64"
    using assms by (auto simp: div_less_iff_less_mult)
  finally show ?thesis by simp
qed

text \<open>
  C31. \<open>ParseSize\<close> reads a number with an optional \<open>b\<close>, \<open>kb\<close>, \<open>mb\<close> or \<open>gb\<close> suffix and returns its exact value
  in bytes. It rejects exactly the texts that are malformed or whose value does not fit 64 bits; its
  64-bit arithmetic never wraps.
\<close>

theorem ParseSize_exact:
  "map_option unat (ParseSize host val) =
     (case size_value host val of None \<Rightarrow> None | Some n \<Rightarrow> if n < 2 ^ 64 then Some n else None)"
proof -
  define ds where "ds = takeWhile iswdigit val"
  have all: "list_all iswdigit ds"
    unfolding ds_def list_all_iff using set_takeWhileD by fast
  have rest: "drop (length ds) val = dropWhile iswdigit val"
    by (simp add: ds_def dropWhile_eq_drop)
  have pd: "parse_digits ds 0 =
      (if digits_value ds < 2 ^ 64 then Some (of_nat (digits_value ds)) else None)"
    using parse_digits_exact [OF all, of 0] by (simp add: digits_from_def digits_value_def)
  have go: "map_option unat (case parse_digits ds 0 of None \<Rightarrow> None
        | Some n \<Rightarrow> if n > (- 1) div m then None else Some (n * m)) =
      (if digits_value ds * unat m < 2 ^ 64 then Some (digits_value ds * unat m) else None)"
    if m: "0 < unat m" for m :: u64
  proof (cases "digits_value ds < 2 ^ 64")
    case True
    then have "unat (of_nat (digits_value ds) :: u64) = digits_value ds"
      by (rule unat_of_nat_u64)
    then show ?thesis
      unfolding pd if_P [OF True] option.case mult_guard [OF m] by (simp add: unat_of_nat_u64 del: of_nat_mult)
  next
    case False
    then have "2 ^ 64 \<le> digits_value ds * 1" by simp
    also have "\<dots> \<le> digits_value ds * unat m" using m by (intro mult_le_mono) auto
    finally show ?thesis using False by (simp add: pd)
  qed
  show ?thesis
    unfolding ParseSize_def size_value_def Let_def ds_def [symmetric] rest
    using go [of 1] go [of 1024] go [of "1024 * 1024"] go [of "1024 * 1024 * 1024"]
    by (auto simp: unit_factor_def split: option.splits)
qed

section \<open>The view predicates agree with the owning ones\<close>

text \<open>
  A view of a candidate carries the candidate's fields. \<open>folds_name\<close> is what the two literal paths rely
  on: on this name the platform comparison equates a window with an ASCII term exactly when the two
  agree after ASCII case folding. It holds of every ASCII name, and of every name none of whose units
  the platform's case table identifies with an ASCII letter.
\<close>

definition view_of :: "Candidate \<Rightarrow> CandidateView \<Rightarrow> bool" where
  "view_of c w \<longleftrightarrow> cv_name w = c_name c \<and> cv_folder w = c_folder c \<and> cv_sizeBytes w = c_sizeBytes c
     \<and> cv_modifiedTime w = c_modifiedTime c \<and> cv_isDirectory w = c_isDirectory c
     \<and> cv_createdTime w = c_createdTime c \<and> cv_volumeId w = c_volumeId c \<and> cv_id w = c_id c
     \<and> cv_parentId w = c_parentId c \<and> cv_persistentIndexed w = c_persistentIndexed c
     \<and> cv_allocatedSizeBytes w = c_allocatedSizeBytes c \<and> cv_allocatedSizeKnown w = c_allocatedSizeKnown c"

definition folds_name :: "ordinal \<Rightarrow> u16string \<Rightarrow> bool" where
  "folds_name cso name \<longleftrightarrow>
     (\<forall>n i. IsAscii n \<and> i + length n \<le> length name \<longrightarrow>
        (cso (take (length n) (drop i name)) n = 2 \<longleftrightarrow>
         map FoldAscii16Char (take (length n) (drop i name)) = map FoldAscii16Char n))"

lemma folds_name_ascii: "ascii_ordinal cso \<Longrightarrow> IsAscii name \<Longrightarrow> folds_name cso name"
  unfolding folds_name_def ascii_ordinal_def by (intro allI impI, elim allE impE) (auto intro: IsAscii_sub)

text \<open>What the query parser expects of the locale's \<open>towlower\<close>: the small ASCII letters are fixed.\<close>

definition lower_fixed :: "Host \<Rightarrow> bool" where
  "lower_fixed host \<longleftrightarrow> (\<forall>c. 97 \<le> c \<and> c \<le> 122 \<longrightarrow> h_towlower host c = c)"

definition agree :: "Host \<Rightarrow> Predicate \<Rightarrow> ViewPredicate \<Rightarrow> bool" where
  "agree host p v \<longleftrightarrow> (\<forall>c w. view_of c w \<longrightarrow> folds_name (h_cso host) (c_name c) \<longrightarrow> p c = v w)"

lemma fold_search_iff:
  assumes "folds_name cso h" "IsAscii n"
  shows "contains_from (\<lambda>s. CompareOrdinal16 cso s n = 0) (length n) h 0 \<longleftrightarrow> fold_occurs h (FoldAscii16 n)"
  using assms
  by (auto simp: contains_from_iff fold_occurs_def fold_at_def FoldAscii16_eq folds_name_def CompareOrdinal16_def)

text \<open>The value of the view predicate of a term, with and without the ASCII flag.\<close>

lemma prepared_plain:
  "\<not> asc \<or> folded = [] \<Longrightarrow> OrdinalContains16Prepared cso h n folded shifts asc anchor k = OrdinalContains16 cso h n"
  by (auto simp: OrdinalContains16Prepared_def OrdinalContains16_def)

lemma literal_view_value:
  "literal_view host tok w =
     (if IsAscii tok \<and> tok \<noteq> [] \<and> cv_nameIsAscii w then fold_occurs (cv_name w) (FoldAscii16 tok)
      else OrdinalContains16 (h_cso host) (cv_name w) tok)"
proof (cases "IsAscii tok \<and> tok \<noteq> [] \<and> cv_nameIsAscii w")
  case True
  then show ?thesis
    using prepared_ascii [of tok "h_cso host" "cv_name w"] by (simp add: literal_view_def Let_def FoldAscii16_eq)
next
  case False
  then have "\<not> cv_nameIsAscii w \<or> (if IsAscii tok then FoldAscii16 tok else []) = []"
    by (auto simp: FoldAscii16_eq)
  from prepared_plain [OF this] show ?thesis
    unfolding literal_view_def Let_def using False by auto
qed

lemma ordinal_folds:
  assumes "folds_name cso h" "IsAscii n" "n \<noteq> []"
  shows "OrdinalContains16 cso h n \<longleftrightarrow> fold_occurs h (FoldAscii16 n)"
  using fold_search_iff [OF assms(1,2)] assms(3)
  by (auto simp: OrdinalContains16_def fold_occurs_def fold_at_def FoldAscii16_eq)

lemma literal_agree:
  "agree host (\<lambda>c. AsciiFoldContains (h_cso host) (c_name c) (PrepareAsciiFoldNeedle tok)) (literal_view host tok)"
  unfolding agree_def
proof (intro allI impI)
  fix c w
  assume v: "view_of c w" and f: "folds_name (h_cso host) (c_name c)"
  have n: "cv_name w = c_name c" using v by (simp add: view_of_def)
  show "AsciiFoldContains (h_cso host) (c_name c) (PrepareAsciiFoldNeedle tok) = literal_view host tok w"
  proof (cases "IsAscii tok \<and> tok \<noteq> []")
    case True
    then show ?thesis
      by (simp add: literal_view_value n AsciiFoldContains_iff ordinal_folds [OF f])
  next
    case False
    then have "\<not> afn_ascii (PrepareAsciiFoldNeedle tok) \<or> afn_folded (PrepareAsciiFoldNeedle tok) = []"
      by (auto simp: Prepare_simps FoldAscii16_eq)
    then have "AsciiFoldContains (h_cso host) (c_name c) (PrepareAsciiFoldNeedle tok)
        = OrdinalContains (h_cso host) (c_name c) tok"
      by (simp add: AsciiFoldContains_def Prepare_simps)
    then show ?thesis using False by (auto simp: literal_view_value n OrdinalContains_iff16)
  qed
qed

lemma GlobMatches_same: "GlobMatches16 cso = GlobMatches cso"
proof -
  have "(\<lambda>t p. CompareOrdinal16 cso t p = 0) = (\<lambda>t p. cso t p = 2)"
    by (auto simp: fun_eq_iff CompareOrdinal16_def)
  then show ?thesis by (simp add: GlobMatches16_def [abs_def] GlobMatches_def [abs_def])
qed

lemma LowerEquals16_iff: "LowerEquals16 host val low \<longleftrightarrow> Lower host val = low"
proof -
  have "map f val = low \<longleftrightarrow> length val = length low \<and> (\<forall>i < length val. f (val ! i) = low ! i)" for f
    by (metis length_map nth_equalityI nth_map)
  then show ?thesis by (simp add: LowerEquals16_def Lower_def list_all_iff Ball_def)
qed

lemma HasLowerExtension16_iff: "HasLowerExtension16 host name ext \<longleftrightarrow> extension_of host name = Some ext"
  by (auto simp: HasLowerExtension16_def extension_of_def LowerEquals16_iff split: option.splits)

text \<open>What a registered filter must satisfy for the view path to be exact, and that the defaults do.\<close>

definition filter_ok :: "Host \<Rightarrow> u16string \<Rightarrow> FilterDefinition \<Rightarrow> bool" where
  "filter_ok host key d \<longleftrightarrow>
     (\<forall>t parsed. fd_parseValue d t = Some parsed \<longrightarrow>
        (\<exists>mk. fd_makeViewPredicate d = Some mk \<and> agree host (fd_makePredicate d parsed) (mk parsed)
           \<and> (filter_kind key = PK_LiteralName \<longrightarrow> mk parsed = literal_view host (fv_text parsed))))"

definition registry_ok :: "Host \<Rightarrow> FilterRegistry \<Rightarrow> bool" where
  "registry_ok host registry \<longleftrightarrow> (\<forall>key d. registry key = Some d \<longrightarrow> filter_ok host key d)"

lemma wstr_Cons [simp]: "wstr (c # cs) = of_nat (of_char c) # wstr cs" and wstr_Nil [simp]: "wstr [] = []"
  by (simp_all add: wstr_def)

lemma Lower_keys:
  assumes "lower_fixed host"
  shows "Lower host (wstr ''ext'') = wstr ''ext''" "Lower host (wstr ''name'') = wstr ''name''"
    "Lower host (wstr ''folder'') = wstr ''folder''" "Lower host (wstr ''size'') = wstr ''size''"
    "Lower host (wstr ''ondisk'') = wstr ''ondisk''" "Lower host (wstr ''modified'') = wstr ''modified''"
    "Lower host (wstr ''kind'') = wstr ''kind''"
  using assms by (simp_all add: Lower_def lower_fixed_def)

lemma kind_agree: "agree host (kind_matches host k) (kind_matches_view host k)"
  unfolding agree_def kind_matches_def kind_matches_view_def Let_def HasLowerExtension16_iff
  by (intro allI impI, rename_tac c w, case_tac "extension_of host (c_name c)") (simp_all add: view_of_def)

lemma filters_ok:
  "key \<noteq> wstr ''name'' \<Longrightarrow> filter_ok host key (ext_filter host)"
  "filter_ok host key (name_filter host)"
  "key \<noteq> wstr ''name'' \<Longrightarrow> filter_ok host key (folder_filter host)"
  "key \<noteq> wstr ''name'' \<Longrightarrow> filter_ok host key (size_filter host)"
  "key \<noteq> wstr ''name'' \<Longrightarrow> filter_ok host key (ondisk_filter host)"
  "key \<noteq> wstr ''name'' \<Longrightarrow> filter_ok host key (modified_filter host)"
  "key \<noteq> wstr ''name'' \<Longrightarrow> filter_ok host key (kind_filter host)"
proof -
  assume k: "key \<noteq> wstr ''name''"
  then have l: "filter_kind key \<noteq> PK_LiteralName" by (simp add: filter_kind_def del: wstr_Cons)
  show "filter_ok host key (ext_filter host)"
    using l by (auto simp: filter_ok_def ext_filter_def agree_def view_of_def HasLowerExtension16_iff split: FilterValue.split)
  show "filter_ok host key (folder_filter host)"
    using l by (auto simp: filter_ok_def folder_filter_def agree_def view_of_def split: FilterValue.split)
  show "filter_ok host key (size_filter host)"
    using l by (auto simp: filter_ok_def size_filter_def MakeSizePredicate_def agree_def view_of_def split: FilterValue.split)
  show "filter_ok host key (ondisk_filter host)"
    using l by (auto simp: filter_ok_def ondisk_filter_def MakeAllocatedSizePredicate_def agree_def view_of_def split: FilterValue.split)
  show "filter_ok host key (modified_filter host)"
    using l by (auto simp: filter_ok_def modified_filter_def MakeDatePredicate_def agree_def view_of_def split: FilterValue.split)
  show "filter_ok host key (kind_filter host)"
    using l kind_agree [of host] by (auto simp: filter_ok_def kind_filter_def agree_def split: FilterValue.split)
next
  show "filter_ok host key (name_filter host)"
    using literal_agree [of host]
    by (auto simp: filter_ok_def name_filter_def nonempty_text_def fv_text_def agree_def split: if_splits)
qed

lemma WithDefaults_ok:
  assumes "lower_fixed host"
  shows "registry_ok host (WithDefaults host)"
  unfolding registry_ok_def WithDefaults_def Register_def Lower_keys [OF assms]
  by (auto simp: filters_ok split: if_splits)

text \<open>What the parser keeps of a query while it reads the tokens, \<open>simple\<close> being the last literal term.\<close>

definition query_inv :: "Host \<Rightarrow> Query \<times> u16string \<Rightarrow> bool" where
  "query_inv host qs \<longleftrightarrow> (case qs of (q, simple) \<Rightarrow>
     q_viewCompatible q \<and> \<not> q_simpleLiteralName q
     \<and> list_all2 (agree host) (q_predicates q) (q_viewPredicates q)
     \<and> list_all2 (agree host) (q_predicatesWithoutFolder q) (q_viewPredicatesWithoutFolder q)
     \<and> length (q_viewPredicateKinds q) = length (q_viewPredicates q)
     \<and> (\<not> q_requiresFolder q \<longrightarrow> q_viewPredicatesWithoutFolder q = q_viewPredicates q)
     \<and> (q_viewPredicateKinds q = [PK_LiteralName] \<longrightarrow> q_viewPredicates q = [literal_view host simple]))"

lemma addPredicate_inv:
  assumes "query_inv host (q, simple)" "agree host p v"
    "kind = PK_LiteralName \<Longrightarrow> v = literal_view host simple'"
  shows "query_inv host (addPredicate p (Some v) rf kind q, if kind = PK_LiteralName then simple' else simple)"
  using assms
  by (cases rf; cases "kind = PK_LiteralName"; cases "q_viewPredicates q = []")
    (auto simp: query_inv_def addPredicate_def Let_def list_all2_appendI append_eq_Cons_conv)

lemma filter_token_inv:
  assumes "query_inv host qs" "filter_ok host (Lower host key) d"
  shows "query_inv host (filter_token host d key val qs)"
proof (cases "fd_parseValue d val")
  case None
  then show ?thesis using assms(1) by (auto simp: filter_token_def query_inv_def split: prod.splits)
next
  case (Some parsed)
  then obtain mk where mk: "fd_makeViewPredicate d = Some mk" "agree host (fd_makePredicate d parsed) (mk parsed)"
    "filter_kind (Lower host key) = PK_LiteralName \<longrightarrow> mk parsed = literal_view host (fv_text parsed)"
    using assms(2) unfolding filter_ok_def by blast
  obtain q simple where "qs = (q, simple)" by fastforce
  then show ?thesis
    using addPredicate_inv [OF _ mk(2), of q simple "filter_kind (Lower host key)" "fv_text parsed"] assms(1) mk Some
    by (simp add: filter_token_def Let_def)
qed

lemma term_token_inv:
  assumes "query_inv host qs"
  shows "query_inv host (term_token host token qs)"
proof -
  obtain q simple where qs: "qs = (q, simple)" by fastforce
  have prim: "query_inv host (if q_primaryTerm q = [] then q\<lparr>q_primaryTerm := token\<rparr> else q, simple)"
    using assms by (simp add: qs query_inv_def)
  have glob: "agree host (\<lambda>c. the (GlobMatches (h_cso host) (c_name c) token))
      (\<lambda>c. the (GlobMatches16 (h_cso host) (cv_name c) token))"
    by (simp add: agree_def view_of_def GlobMatches_same)
  show ?thesis
    using addPredicate_inv [OF prim literal_agree, of PK_LiteralName token token False]
      addPredicate_inv [OF assms [unfolded qs] glob, of PK_GlobName]
    by (simp add: term_token_def qs Let_def)
qed

lemma token_step_inv:
  assumes "query_inv host qs" "registry_ok host registry"
  shows "query_inv host (token_step host registry qs token)"
proof -
  have "query_inv host (case qs of (q, simple) \<Rightarrow> (q\<lparr>q_unrecognizedKeys := ks\<rparr>, simple))" for ks
    using assms(1) by (cases qs) (simp add: query_inv_def)
  then show ?thesis
    using assms filter_token_inv [OF assms(1)] term_token_inv
    by (cases qs) (auto simp: token_step_def Let_def Find_filter_def registry_ok_def split: option.splits)
qed

lemma ParseQuery_inv:
  assumes "registry_ok host registry"
  shows "query_inv host (foldl (token_step host registry) (empty_Query, []) tokens)"
proof (induction tokens rule: rev_induct)
  case Nil
  then show ?case by (simp add: query_inv_def empty_Query_def)
next
  case (snoc t ts)
  then show ?case using token_step_inv [OF _ assms] by simp
qed

lemma EvaluateViewPredicates_iff: "EvaluateViewPredicates ps w \<longleftrightarrow> list_all (\<lambda>p. p w) ps"
  by (induction ps) auto

lemma agree_all:
  assumes "list_all2 (agree host) ps vs" "view_of c w" "folds_name (h_cso host) (c_name c)"
  shows "list_all (\<lambda>p. p c) ps \<longleftrightarrow> EvaluateViewPredicates vs w"
  using assms(1) unfolding EvaluateViewPredicates_iff
  by (induction rule: list_all2_induct) (use assms in \<open>auto simp: agree_def\<close>)

lemma simple_literal:
  "q_viewCompatible q \<Longrightarrow> q_viewPredicates q = [literal_view host simple] \<Longrightarrow> set_simple simple q \<noteq> q \<Longrightarrow>
   MatchSimpleLiteral host (set_simple simple q) w = EvaluateViewPredicates (q_viewPredicates q) w"
  by (auto simp: set_simple_def MatchSimpleLiteral_def literal_view_def Let_def split: if_splits)

lemma set_simple_cases:
  assumes "query_inv host (q, simple)"
  obtains (plain) "set_simple simple q = q"
  | (simple) "q_simpleLiteralName (set_simple simple q)" "set_simple simple q \<noteq> q" "q_viewPredicates q = [literal_view host simple]"
      "\<not> q_requiresFolder q"
proof (cases "set_simple simple q = q")
  case False
  then have "length (q_viewPredicateKinds q) = 1" "hd (q_viewPredicateKinds q) = PK_LiteralName" "\<not> q_requiresFolder q"
    and s: "q_simpleLiteralName (set_simple simple q)"
    by (auto simp: set_simple_def Let_def split: if_splits)
  then have "q_viewPredicateKinds q = [PK_LiteralName]" by (cases "q_viewPredicateKinds q") auto
  then show thesis using that(2) s False assms \<open>\<not> q_requiresFolder q\<close> by (simp add: query_inv_def)
qed (rule plain)

lemma set_simple_keeps:
  "q_predicates (set_simple simple q) = q_predicates q"
  "q_predicatesWithoutFolder (set_simple simple q) = q_predicatesWithoutFolder q"
  "q_viewPredicates (set_simple simple q) = q_viewPredicates q"
  "q_viewPredicatesWithoutFolder (set_simple simple q) = q_viewPredicatesWithoutFolder q"
  "q_viewCompatible (set_simple simple q) = q_viewCompatible q"
  "q_requiresFolder (set_simple simple q) = q_requiresFolder q"
  by (simp_all add: set_simple_def Let_def)

lemma MatchesView_agrees:
  assumes "query_inv host (q, simple)" "view_of c w" "folds_name (h_cso host) (c_name c)"
  shows "MatchesView host (set_simple simple q) w = Matches (set_simple simple q) c"
    "MatchesViewWithoutFolder host (set_simple simple q) w = MatchesWithoutFolder (set_simple simple q) c"
proof -
  have q: "q_viewCompatible q" "\<not> q_simpleLiteralName q"
    and a: "list_all (\<lambda>p. p c) (q_predicates q) \<longleftrightarrow> EvaluateViewPredicates (q_viewPredicates q) w"
      "list_all (\<lambda>p. p c) (q_predicatesWithoutFolder q) \<longleftrightarrow> EvaluateViewPredicates (q_viewPredicatesWithoutFolder q) w"
    using assms by (auto simp: query_inv_def agree_all)
  note defs = MatchesView_def MatchesViewWithoutFolder_def Matches_def MatchesWithoutFolder_def set_simple_keeps a
  have "MatchesView host (set_simple simple q) w = Matches (set_simple simple q) c \<and>
    MatchesViewWithoutFolder host (set_simple simple q) w = MatchesWithoutFolder (set_simple simple q) c"
    using assms(1)
  proof (cases rule: set_simple_cases)
    case plain
    then show ?thesis using q by (simp add: defs)
  next
    case simple
    then have "MatchSimpleLiteral host (set_simple simple q) w = EvaluateViewPredicates (q_viewPredicates q) w"
      using simple_literal q by blast
    then show ?thesis using simple q assms(1) by (simp add: defs query_inv_def)
  qed
  then show "MatchesView host (set_simple simple q) w = Matches (set_simple simple q) c"
    "MatchesViewWithoutFolder host (set_simple simple q) w = MatchesWithoutFolder (set_simple simple q) c" by auto
qed

section \<open>A sample platform\<close>

text \<open>
  A concrete \<open>Host\<close>: ASCII case mapping and spaces, a clock, a fixed time zone bias, and a calendar that
  splits a time stamp into a day number (in the year and month fields) and the ticks of the day.
\<close>

definition sample_split :: "u64 \<Rightarrow> SYSTEMTIME" where
  "sample_split t =
     (let d = t div kDay; r = t mod kDay in
      \<lparr>st_wYear = ucast (d div 65536), st_wMonth = ucast (d mod 65536), st_wDayOfWeek = 0, st_wDay = 0,
       st_wHour = ucast (r div 4294967296), st_wMinute = ucast (r div 65536 mod 65536),
       st_wSecond = ucast (r mod 65536), st_wMilliseconds = 0\<rparr>)"

definition sample_join :: "SYSTEMTIME \<Rightarrow> u64" where
  "sample_join st =
     (ucast (st_wYear st) * 65536 + ucast (st_wMonth st)) * kDay
     + (ucast (st_wHour st) * 4294967296 + ucast (st_wMinute st) * 65536 + ucast (st_wSecond st))"

definition sample_host :: "u64 \<Rightarrow> u64 \<Rightarrow> Host" where
  "sample_host bias now =
     \<lparr>h_towlower = FoldAscii16Char, h_iswspace = (\<lambda>c. c = 32 \<or> (9 \<le> c \<and> c \<le> 13)), h_cso = fold_ordinal,
      h_now = now, h_FileTimeToLocalFileTime = (\<lambda>t. Some (t + bias)),
      h_FileTimeToSystemTime = (\<lambda>t. Some (sample_split t)), h_SystemTimeToFileTime = (\<lambda>st. Some (sample_join st))\<rparr>"

lemma sample_host_lower: "lower_fixed (sample_host bias now)"
  by (auto simp: lower_fixed_def sample_host_def FoldAscii16Char_def word_le_nat_alt)

definition sample_candidate :: Candidate where
  "sample_candidate =
     \<lparr>c_name = wstr ''Notes.txt'', c_folder = wstr ''C:'', c_sizeBytes = 2048, c_modifiedTime = 0,
      c_isDirectory = False, c_createdTime = 0, c_volumeId = 1, c_id = 7, c_parentId = 5,
      c_persistentIndexed = True, c_allocatedSizeBytes = 4096, c_allocatedSizeKnown = True\<rparr>"

definition view_from :: "Candidate \<Rightarrow> CandidateView" where
  "view_from c =
     \<lparr>cv_name = c_name c, cv_folder = c_folder c, cv_sizeBytes = c_sizeBytes c,
      cv_modifiedTime = c_modifiedTime c, cv_isDirectory = c_isDirectory c, cv_createdTime = c_createdTime c,
      cv_volumeId = c_volumeId c, cv_id = c_id c, cv_parentId = c_parentId c,
      cv_persistentIndexed = c_persistentIndexed c, cv_nameAsciiLower = False,
      cv_allocatedSizeBytes = c_allocatedSizeBytes c, cv_allocatedSizeKnown = c_allocatedSizeKnown c,
      cv_nameIsAscii = IsAscii (c_name c)\<rparr>"

lemma view_of_view_from: "view_of c (view_from c)"
  by (simp add: view_of_def view_from_def)

lemma sample_folds: "folds_name (h_cso (sample_host bias now)) (c_name sample_candidate)"
  using folds_name_ascii [OF fold_ordinal_ok] by (simp add: sample_host_def sample_candidate_def IsAscii_def)

section \<open>Properties of parsed queries\<close>

lemma parsed_inv:
  assumes "lower_fixed host"
  obtains q0 simple where "ParseQuery host (WithDefaults host) val = set_simple simple q0" "query_inv host (q0, simple)"
proof -
  obtain q0 simple where fold: "foldl (token_step host (WithDefaults host)) (empty_Query, []) (Tokenize host val) = (q0, simple)"
    by fastforce
  moreover have "query_inv host (q0, simple)"
    using ParseQuery_inv [OF WithDefaults_ok [OF assms]] fold by metis
  ultimately show thesis using that by (simp add: ParseQuery_def)
qed

lemma parsed_compatible: "lower_fixed host \<Longrightarrow> q_viewCompatible (ParseQuery host (WithDefaults host) val)"
  by (erule parsed_inv [of host val]) (simp add: set_simple_keeps query_inv_def)

lemma parsed_views:
  assumes "lower_fixed host" and "view_of c w" and "folds_name (h_cso host) (c_name c)"
  shows "MatchesView host (ParseQuery host (WithDefaults host) val) w = Matches (ParseQuery host (WithDefaults host) val) c"
    "MatchesViewWithoutFolder host (ParseQuery host (WithDefaults host) val) w
      = MatchesWithoutFolder (ParseQuery host (WithDefaults host) val) c"
  using MatchesView_agrees [OF _ assms(2,3)] parsed_inv [OF assms(1), of val] by metis+

text \<open>
  C7. The zero-copy path of a search is exact. For every query text, parsed with the default filters,
  evaluating the query on a view of a candidate gives the answer that the owning predicates give on
  the candidate, with and without the folder predicates, single-literal shortcut included, for every
  name on which the platform comparison folds ASCII terms as the code assumes.
\<close>

theorem ParseQuery_view_exact:
  assumes "lower_fixed host" and "view_of c w" and "folds_name (h_cso host) (c_name c)"
    and "q = ParseQuery host (WithDefaults host) val"
  shows "MatchesView host q w = Matches q c \<and> MatchesViewWithoutFolder host q w = MatchesWithoutFolder q c"
  using parsed_views [OF assms(1-3), of val] by (simp add: assms(4))

theorem ParseQuery_view_exact_witness:
  "let host = sample_host 0 0; q = ParseQuery host (WithDefaults host) (wstr ''note size:>1kb kind:document'')
   in MatchesView host q (view_from sample_candidate) = Matches q sample_candidate"
  using ParseQuery_view_exact [OF sample_host_lower view_of_view_from sample_folds refl, of 0 0]
  by (simp add: Let_def)

text \<open>The predicates without the folder ones are a sublist of all predicates.\<close>

definition prefilter_inv :: "Query \<Rightarrow> bool" where
  "prefilter_inv q \<longleftrightarrow> set (q_predicatesWithoutFolder q) \<subseteq> set (q_predicates q)
     \<and> set (q_viewPredicatesWithoutFolder q) \<subseteq> set (q_viewPredicates q)
     \<and> (\<not> q_requiresFolder q \<longrightarrow> q_predicatesWithoutFolder q = q_predicates q
          \<and> q_viewPredicatesWithoutFolder q = q_viewPredicates q)
     \<and> \<not> q_simpleLiteralName q"

lemma addPredicate_prefilter: "prefilter_inv q \<Longrightarrow> prefilter_inv (addPredicate p vp rf kind q)"
  by (cases vp) (auto simp: prefilter_inv_def addPredicate_def Let_def)

lemma token_step_prefilter: "prefilter_inv (fst qs) \<Longrightarrow> prefilter_inv (fst (token_step host registry qs token))"
proof -
  assume q: "prefilter_inv (fst qs)"
  have upd: "prefilter_inv (q\<lparr>q_unrecognizedKeys := ks\<rparr>)" "prefilter_inv (q\<lparr>q_invalidFilters := ks\<rparr>)"
    "prefilter_inv (q\<lparr>q_primaryTerm := t\<rparr>)" if "prefilter_inv q" for q ks t
    using that by (simp_all add: prefilter_inv_def)
  have tt: "prefilter_inv (fst (term_token host token qs))" if "prefilter_inv (fst qs)" for qs
    using that by (cases qs) (simp add: term_token_def Let_def addPredicate_prefilter upd)
  have "prefilter_inv (fst (filter_token host d key val qs))" for d key val
    using q by (cases qs) (auto simp: filter_token_def Let_def addPredicate_prefilter upd split: option.split)
  then show ?thesis
    using q tt upd by (cases qs) (auto simp: token_step_def Let_def split: option.split)
qed

lemma ParseQuery_prefilter_inv:
  "prefilter_inv (fst (foldl (token_step host registry) (empty_Query, []) tokens))"
  by (induction tokens rule: rev_induct)
    (simp_all add: token_step_prefilter, simp add: prefilter_inv_def empty_Query_def)

lemma parsed_prefilter:
  "Matches (ParseQuery host registry val) c \<Longrightarrow> MatchesWithoutFolder (ParseQuery host registry val) c"
  "MatchesView host (ParseQuery host registry val) w \<Longrightarrow> MatchesViewWithoutFolder host (ParseQuery host registry val) w"
  "\<not> q_requiresFolder (ParseQuery host registry val) \<Longrightarrow>
     Matches (ParseQuery host registry val) c = MatchesWithoutFolder (ParseQuery host registry val) c"
proof -
  obtain q0 simple where fold: "foldl (token_step host registry) (empty_Query, []) (Tokenize host val) = (q0, simple)"
    by fastforce
  then have "prefilter_inv q0" using ParseQuery_prefilter_inv by (metis fst_conv)
  note defs = this [unfolded prefilter_inv_def] ParseQuery_def fold Matches_def MatchesWithoutFolder_def MatchesView_def
    MatchesViewWithoutFolder_def set_simple_keeps EvaluateViewPredicates_iff list_all_iff
  show "Matches (ParseQuery host registry val) c \<Longrightarrow> MatchesWithoutFolder (ParseQuery host registry val) c"
    "MatchesView host (ParseQuery host registry val) w \<Longrightarrow> MatchesViewWithoutFolder host (ParseQuery host registry val) w"
    "\<not> q_requiresFolder (ParseQuery host registry val) \<Longrightarrow>
       Matches (ParseQuery host registry val) c = MatchesWithoutFolder (ParseQuery host registry val) c"
    using defs(1) by (auto simp: defs(2-) split: if_splits)
qed

text \<open>The folder terms of a query text: the values of its tokens with the key \<open>folder\<close>, in any case.\<close>

definition folder_term :: "Host \<Rightarrow> u16string \<Rightarrow> u16string option" where
  "folder_term host token =
     (case find_first (\<lambda>c. c = 58) token of
        None \<Rightarrow> None
      | Some colon \<Rightarrow>
          if Lower host (take colon token) = wstr ''folder'' \<and> drop (colon + 1) token \<noteq> []
          then Some (drop (colon + 1) token) else None)"

definition in_folder :: "Host \<Rightarrow> u16string list \<Rightarrow> u16string \<Rightarrow> bool" where
  "in_folder host ts f = list_all (\<lambda>t. AsciiFoldContains (h_cso host) f (PrepareAsciiFoldNeedle t)) ts"

lemma in_folder_append [simp]: "in_folder host (ts @ us) f \<longleftrightarrow> in_folder host ts f \<and> in_folder host us f"
  and in_folder_Nil [simp]: "in_folder host [] f"
  by (simp_all add: in_folder_def)

definition folder_free :: "Predicate \<Rightarrow> ViewPredicate \<Rightarrow> bool" where
  "folder_free p vp \<longleftrightarrow> (\<forall>c f. p (c\<lparr>c_folder := f\<rparr>) = p c) \<and> (\<forall>w f. vp (w\<lparr>cv_folder := f\<rparr>) = vp w)"

text \<open>While tokens are added: the predicates without the folder ones never read the folder, and the others are the folder terms.\<close>

definition split_inv :: "Host \<Rightarrow> u16string list \<Rightarrow> Query \<Rightarrow> bool" where
  "split_inv host ts q \<longleftrightarrow>
     (\<forall>c f. Matches q (c\<lparr>c_folder := f\<rparr>) \<longleftrightarrow> MatchesWithoutFolder q c \<and> in_folder host ts f)
     \<and> (\<forall>w f. EvaluateViewPredicates (q_viewPredicates q) (w\<lparr>cv_folder := f\<rparr>)
          \<longleftrightarrow> EvaluateViewPredicates (q_viewPredicatesWithoutFolder q) w \<and> in_folder host ts f)
     \<and> (q_requiresFolder q \<longleftrightarrow> ts \<noteq> []) \<and> \<not> q_simpleLiteralName q"

lemma split_inv_empty: "split_inv host [] empty_Query"
  by (simp add: split_inv_def empty_Query_def Matches_def MatchesWithoutFolder_def)

lemma split_inv_fields:
  assumes "split_inv host ts q"
  shows "split_inv host ts (q\<lparr>q_unrecognizedKeys := ks\<rparr>)" "split_inv host ts (q\<lparr>q_invalidFilters := ks\<rparr>)"
    "split_inv host ts (q\<lparr>q_primaryTerm := t\<rparr>)"
  using assms by (simp_all add: split_inv_def Matches_def MatchesWithoutFolder_def)

lemma addPredicate_free:
  assumes "split_inv host ts q" "folder_free p vp"
  shows "split_inv host ts (addPredicate p (Some vp) False kind q)"
  using assms by (auto simp: split_inv_def folder_free_def addPredicate_def Let_def Matches_def MatchesWithoutFolder_def
      EvaluateViewPredicates_iff)

lemma addPredicate_folder:
  assumes "split_inv host ts q" "fd_makeViewPredicate (folder_filter host) = Some mk"
  shows "split_inv host (ts @ [t])
    (addPredicate (fd_makePredicate (folder_filter host) (FV_text t)) (Some (mk (FV_text t))) True kind q)"
  using assms by (auto simp: split_inv_def addPredicate_def Let_def Matches_def MatchesWithoutFolder_def
      EvaluateViewPredicates_iff folder_filter_def in_folder_def)

lemma term_token_split: "split_inv host ts (fst qs) \<Longrightarrow> split_inv host ts (fst (term_token host token qs))"
  by (cases qs) (auto simp: term_token_def Let_def folder_free_def literal_view_def
      intro!: addPredicate_free split_inv_fields)

lemma kind_folder_free: "folder_free (kind_matches host k) (kind_matches_view host k)"
  by (simp add: folder_free_def kind_matches_def kind_matches_view_def)

text \<open>Of the default filters, only the one with the key \<open>folder\<close> reads the folder.\<close>

lemma WithDefaults_free:
  assumes "lower_fixed host" "WithDefaults host key = Some d" "key \<noteq> wstr ''folder''"
  obtains mk where "fd_makeViewPredicate d = Some mk" "\<And>v. folder_free (fd_makePredicate d v) (mk v)"
proof -
  have "d \<in> {ext_filter host, name_filter host, size_filter host, ondisk_filter host, modified_filter host, kind_filter host}"
    using assms(2,3) unfolding WithDefaults_def Register_def Lower_keys [OF assms(1)] by (auto split: if_splits)
  then have "\<exists>mk. fd_makeViewPredicate d = Some mk \<and> (\<forall>v. folder_free (fd_makePredicate d v) (mk v))"
    using kind_folder_free [of host]
    by (auto simp: ext_filter_def name_filter_def size_filter_def ondisk_filter_def modified_filter_def kind_filter_def
        MakeSizePredicate_def MakeAllocatedSizePredicate_def MakeDatePredicate_def literal_view_def folder_free_def Let_def
        split: FilterValue.split)
  then show thesis using that by blast
qed

lemma WithDefaults_folder: "lower_fixed host \<Longrightarrow> WithDefaults host (wstr ''folder'') = Some (folder_filter host)"
  unfolding WithDefaults_def Register_def by (simp only: Lower_keys) simp

lemma token_step_split:
  assumes "lower_fixed host" "split_inv host ts (fst qs)"
  shows "split_inv host (ts @ (case folder_term host token of None \<Rightarrow> [] | Some t \<Rightarrow> [t]))
    (fst (token_step host (WithDefaults host) qs token))"
proof (cases "find_first (\<lambda>c. c = 58) token")
  case None
  then show ?thesis using term_token_split [OF assms(2)] by (simp add: token_step_def folder_term_def)
next
  case (Some colon)
  let ?key = "Lower host (take colon token)" and ?val = "drop (colon + 1) token"
  obtain q simple where qs: "qs = (q, simple)" by (cases qs)
  have q: "split_inv host ts q" using assms(2) qs by simp
  show ?thesis
  proof (cases "?key = wstr ''folder''")
    case True
    obtain mk where mk: "fd_makeViewPredicate (folder_filter host) = Some mk" by (simp add: folder_filter_def)
    have "fd_parseValue (folder_filter host) ?val = nonempty_text ?val" by (simp add: folder_filter_def)
    then show ?thesis
      using addPredicate_folder [OF q mk] split_inv_fields(2) [OF q] Some True
      by (simp add: token_step_def folder_term_def Find_filter_def WithDefaults_folder [OF assms(1)] qs filter_token_def
          nonempty_text_def mk Let_def del: wstr_Cons)
  next
    case other: False
    show ?thesis
    proof (cases "WithDefaults host ?key")
      case None
      then show ?thesis using term_token_split [of host ts "(_, simple)"] split_inv_fields(1) [OF q] Some other
        by (simp add: token_step_def folder_term_def Find_filter_def qs Let_def del: wstr_Cons)
    next
      case (Some d)
      obtain mk where mk: "fd_makeViewPredicate d = Some mk" "\<And>v. folder_free (fd_makePredicate d v) (mk v)"
        using WithDefaults_free [OF assms(1) Some other] by blast
      then show ?thesis
        using addPredicate_free [OF q mk(2)] split_inv_fields(2) [OF q] Some other \<open>find_first _ _ = Some colon\<close>
        by (simp add: token_step_def folder_term_def Find_filter_def qs filter_token_def Let_def del: wstr_Cons split: option.split)
    qed
  qed
qed

definition folder_terms :: "Host \<Rightarrow> u16string list \<Rightarrow> u16string list" where
  "folder_terms host tokens = List.map_filter (folder_term host) tokens"

lemma folder_terms_snoc:
  "folder_terms host (tokens @ [t]) = folder_terms host tokens @ (case folder_term host t of None \<Rightarrow> [] | Some t \<Rightarrow> [t])"
  by (simp add: folder_terms_def List.map_filter_def split: option.split)

lemma tokens_split:
  assumes "lower_fixed host"
  shows "split_inv host (folder_terms host tokens) (fst (foldl (token_step host (WithDefaults host)) (empty_Query, []) tokens))"
proof (induction tokens rule: rev_induct)
  case Nil
  then show ?case using split_inv_empty by (simp add: folder_terms_def List.map_filter_def)
next
  case (snoc t tokens)
  then show ?case using token_step_split [OF assms] by (simp add: folder_terms_snoc)
qed

text \<open>
  C32. The early pass of a search is the query without its folder terms, exactly. For every query text, parsed with
  the default filters on a platform that leaves lower-case ASCII letters alone when lowering, the predicates without
  the folder ones decide on a candidate before its folder is known: once any folder is filled in, the whole query
  accepts the candidate if and only if the early pass accepted it and the folder contains each folder term of the
  text. The same holds of the evaluation on views. The query asks for the folder exactly when the text has a folder term.
\<close>

theorem ParseQuery_prefilter_sound:
  assumes "lower_fixed host" and "q = ParseQuery host (WithDefaults host) val" and "ts = folder_terms host (Tokenize host val)"
  shows "(Matches q (c\<lparr>c_folder := f\<rparr>) \<longleftrightarrow> MatchesWithoutFolder q c \<and> in_folder host ts f)
   \<and> (MatchesView host q (w\<lparr>cv_folder := f\<rparr>) \<longleftrightarrow> MatchesViewWithoutFolder host q w \<and> in_folder host ts f)
   \<and> (q_requiresFolder q \<longleftrightarrow> ts \<noteq> [])"
proof -
  obtain q0 simple where fold: "foldl (token_step host (WithDefaults host)) (empty_Query, []) (Tokenize host val) = (q0, simple)"
    by fastforce
  have inv: "split_inv host ts q0" using tokens_split [OF assms(1), of "Tokenize host val"] assms(3) fold by simp
  have q: "q = set_simple simple q0" by (simp add: assms(2) ParseQuery_def fold)
  have "q_requiresFolder q = q_requiresFolder q0" by (simp add: q set_simple_keeps)
  moreover have "ts = []" if "q_simpleLiteralName q" using that inv by (auto simp: q set_simple_def split_inv_def split: if_splits)
  ultimately show ?thesis
    using inv by (auto simp: split_inv_def q set_simple_keeps Matches_def MatchesWithoutFolder_def MatchesView_def
        MatchesViewWithoutFolder_def MatchSimpleLiteral_def)
qed

theorem ParseQuery_prefilter_sound_witness:
  "let host = sample_host 0 0; q = ParseQuery host (WithDefaults host) (wstr ''note folder:work'')
   in q_requiresFolder q \<and> \<not> Matches q (sample_candidate\<lparr>c_folder := []\<rparr>)
      \<and> (Matches q (sample_candidate\<lparr>c_folder := wstr ''work''\<rparr>) \<longleftrightarrow> MatchesWithoutFolder q sample_candidate)"
proof -
  have ts: "folder_terms (sample_host 0 0) (Tokenize (sample_host 0 0) (wstr ''note folder:work'')) = [wstr ''work'']"
    by code_simp
  have w: "IsAscii [119, 111, 114, 107]" by code_simp
  have "fold_at [119, 111, 114, 107] (FoldAscii16 [119, 111, 114, 107]) 0" by code_simp
  then have f: "\<not> in_folder (sample_host 0 0) [wstr ''work''] []" "in_folder (sample_host 0 0) [wstr ''work''] (wstr ''work'')"
    by (auto simp: in_folder_def AsciiFoldContains_iff [OF w] fold_occurs_def) (simp add: fold_at_def FoldAscii16_def)
  show ?thesis
    using ParseQuery_prefilter_sound [OF sample_host_lower refl ts [symmetric]] f by (simp add: Let_def del: wstr_Cons)
qed

text \<open>A term written in double quotes, followed by a blank.\<close>

definition quoted :: "u16string \<Rightarrow> u16string" where
  "quoted t = [34] @ t @ [34, 32]"

lemma tokenize_quoted:
  "34 \<notin> set t \<Longrightarrow> tokenize_loop host (t @ 34 # rest) tokens current True
     = tokenize_loop host rest tokens (current @ t) False"
  by (induction t arbitrary: current) auto

text \<open>
  C35. Quoting reaches every term: for terms that are not empty and have no double quote, the
  tokenizer reads the text made of the quoted terms back as exactly these terms, whatever blanks and
  other characters they contain.
\<close>

theorem Tokenize_quoted:
  assumes "h_iswspace host 32" and "\<And>t. t \<in> set ts \<Longrightarrow> t \<noteq> [] \<and> 34 \<notin> set t"
  shows "Tokenize host (concat (map quoted ts)) = ts"
proof -
  have "tokenize_loop host (concat (map quoted ts)) tokens [] False = tokens @ ts" for tokens
    using assms(2)
  proof (induction ts arbitrary: tokens)
    case (Cons t ts)
    then have t: "t \<noteq> []" "34 \<notin> set t" by auto
    show ?case
      using Cons.IH [of "tokens @ [t]"] Cons.prems t assms(1)
      by (simp add: quoted_def tokenize_quoted)
  qed simp
  then show ?thesis by (simp add: Tokenize_def)
qed

theorem Tokenize_quoted_witness:
  "Tokenize (sample_host 0 0) (concat (map quoted [wstr ''a b'', wstr ''size:>1kb''])) = [wstr ''a b'', wstr ''size:>1kb'']"
  by (rule Tokenize_quoted) (auto simp: sample_host_def)

section \<open>Days\<close>

text \<open>
  What the platform documents of its calendar: the two conversions between time stamps and calendar
  fields apply no time zone, so clearing the time of day gives the start of the day that contains the
  stamp, days being counted from stamp 0.
\<close>

definition calendar_ok :: "Host \<Rightarrow> bool" where
  "calendar_ok host \<longleftrightarrow> (\<forall>t st. h_FileTimeToSystemTime host t = Some st \<longrightarrow>
     h_SystemTimeToFileTime host (st\<lparr>st_wHour := 0, st_wMinute := 0, st_wSecond := 0, st_wMilliseconds := 0\<rparr>)
       = Some (t - t mod kDay))"

text \<open>The instant at which a clock that runs \<open>bias\<close> ahead of universal time last read midnight.\<close>

definition local_midnight :: "u64 \<Rightarrow> u64 \<Rightarrow> u64" where
  "local_midnight bias now = now - (now + bias) mod kDay"

lemma kDay_value [simp]: "unat kDay = 864000000000"
  by (simp add: kDay_def)

lemma unat_div_kDay: "unat (x :: u64) div 864000000000 < 21350400"
  using div_le_mono [OF less_imp_le [OF unat_lit], of x 864000000000] by simp

lemma sample_calendar: "calendar_ok (sample_host bias now)"
proof -
  have "sample_join (sample_split t\<lparr>st_wHour := 0, st_wMinute := 0, st_wSecond := 0, st_wMilliseconds := 0\<rparr>)
      = t - t mod kDay" for t
  proof -
    define d where "d = t div kDay"
    have d: "unat d = unat t div 864000000000" by (simp add: d_def unat_div)
    then have small: "unat d < 2 ^ 32" using unat_div_kDay [of t] by simp
    have hi: "unat (ucast (ucast (d div 65536) :: u16) :: u64) = unat d div 65536"
      using small by (simp add: unsigned_ucast_eq take_bit_eq_mod unat_div unat_mod)
    have lo: "unat (ucast (ucast (d mod 65536) :: u16) :: u64) = unat d mod 65536"
      by (simp add: unsigned_ucast_eq take_bit_eq_mod unat_mod)
    have glue: "a * 65536 + b = d" if "unat a = unat d div 65536" "unat b = unat d mod 65536" for a b :: u64
    proof -
      have "unat (a * 65536 + b) = unat d" using that small by (simp add: unat_word_ariths)
      then show ?thesis by (simp add: word_unat_eq_iff)
    qed
    from glue [OF hi lo]
    show ?thesis
      by (simp add: sample_join_def sample_split_def Let_def d_def [symmetric])
        (simp add: d_def minus_mod_eq_div_mult)
  qed
  then show ?thesis by (simp add: calendar_ok_def sample_host_def)
qed

lemma LocalDayStart_value:
  assumes "calendar_ok host" "h_FileTimeToLocalFileTime host now = Some (now + bias)"
    "h_FileTimeToSystemTime host (now + bias) = Some st"
  shows "LocalDayStart host now = local_midnight bias now + bias"
  using assms by (simp add: LocalDayStart_def calendar_ok_def local_midnight_def)

text \<open>
  C40. The filter \<open>modified:today\<close> covers the right calendar day in the wrong time zone. Modification
  times are universal, and the day of the user's clock starts at the instant \<open>local_midnight\<close>; the
  filter that the parser builds starts and ends later than that day by the whole time zone bias,
  because the local calendar date is converted back as if it were universal.
\<close>

theorem today_filter_shifted_by_bias:
  assumes "lower_fixed host" and "calendar_ok host"
    and "h_FileTimeToLocalFileTime host (h_now host) = Some (h_now host + bias)"
    and "h_FileTimeToSystemTime host (h_now host + bias) = Some st"
  shows "ParseDateFilter host (wstr ''today'') =
    Some (FV_date \<lparr>df_op = DateRange, df_first = local_midnight bias (h_now host) + bias,
                    df_second = local_midnight bias (h_now host) + bias + kDay - 1\<rparr>)"
proof -
  have "Lower host (wstr ''today'') = wstr ''today''"
    using assms(1) by (simp add: Lower_def lower_fixed_def)
  then show ?thesis
    using LocalDayStart_value [OF assms(2-4)] by (simp add: ParseDateFilter_def Let_def)
qed

text \<open>
  With a clock eight hours ahead, at one o'clock local time, a file modified half an hour earlier is
  inside the local day and outside the filter.
\<close>

theorem today_filter_shifted_by_bias_witness:
  "let bias = 8 * 60 * 60 * 10000000; now = 10 * kDay + 17 * 60 * 60 * 10000000;
       t = now - 30 * 60 * 10000000
   in local_midnight bias now \<le> t \<and> t \<le> now
      \<and> (\<exists>f. ParseDateFilter (sample_host bias now) (wstr ''today'') = Some (FV_date f) \<and> \<not> date_matches f t)"
  using today_filter_shifted_by_bias [OF sample_host_lower sample_calendar,
      of "8 * 60 * 60 * 10000000" "10 * kDay + 17 * 60 * 60 * 10000000" "8 * 60 * 60 * 10000000"]
  by (simp add: sample_host_def Let_def local_midnight_def kDay_def date_matches_def)

text \<open>
  The guard of the relative filter \<open>modified:>Nd\<close> lets the subtraction wrap. When the window
  reaches back to the first day of the time scale, the lower bound becomes the largest 64-bit value
  and the filter, which should accept every file, accepts none.
\<close>

theorem relative_window_wraps:
  assumes "ds \<noteq> []" and "list_all iswdigit ds" and "wcstoul ds \<noteq> 0"
    and "kDay * ucast (wcstoul ds - 1) = LocalDayStart host (h_now host)"
    and "ucast (wcstoul ds - 1) \<le> LocalDayStart host (h_now host) div kDay"
  shows "\<exists>f. parse_relative host (wstr ''>'' @ ds @ wstr ''d'') = Some (FV_date f) \<and> (\<forall>t. \<not> date_matches f t)"
proof -
  define bck :: u64 where "bck = ucast (wcstoul ds - 1)"
  define start where "start = LocalDayStart host (h_now host)"
  have "start div kDay < start div kDay + 1"
  proof (rule word_less_nat_alt [THEN iffD2])
    have "unat (start div kDay) + 1 < 2 ^ 64"
      using unat_div_kDay [of start] by (simp add: unat_div)
    then show "unat (start div kDay) < unat (start div kDay + 1)"
      by (simp add: unat_word_ariths)
  qed
  then have "\<not> bck > start div kDay + 1"
    using assms(5) by (simp add: bck_def start_def)
  moreover have "start - bck * kDay - 1 = - 1"
    using assms(4) by (simp add: bck_def start_def mult.commute)
  ultimately have "parse_relative host (wstr ''>'' @ ds @ wstr ''d'')
      = Some (FV_date \<lparr>df_op = DateGreaterThan, df_first = - 1, df_second = 0\<rparr>)"
    using assms(1-3) by (simp add: parse_relative_def Let_def bck_def start_def)
  then show ?thesis by (auto simp: date_matches_def)
qed

theorem relative_window_wraps_witness:
  "\<exists>f. parse_relative (sample_host 0 (2 * kDay + 5)) (wstr ''>3d'') = Some (FV_date f) \<and> (\<forall>t. \<not> date_matches f t)"
proof -
  let ?h = "sample_host 0 (2 * kDay + 5)"
  have "LocalDayStart ?h (h_now ?h) = local_midnight 0 (h_now ?h) + 0"
    by (rule LocalDayStart_value [OF sample_calendar]) (simp_all add: sample_host_def)
  then have "LocalDayStart ?h (h_now ?h) = 2 * kDay"
    by (simp add: local_midnight_def sample_host_def kDay_def)
  then show ?thesis
    using relative_window_wraps [of "wstr ''3''" ?h]
    by (simp add: iswdigit_def wcstoul_def digits_value_def kDay_def)
qed

end
