(* ===== verification/Paths.thy ===== *)
theory Paths
  imports Query
begin

text \<open>
  The Windows path helpers of \<open>search/src/Path.cpp\<close>: drive paths, UNC and extended-length spellings,
  parent, leaf, and volume identity. The locale's \<open>iswalpha\<close>, \<open>towupper\<close> and \<open>towlower\<close> and the hash of
  the standard library are the parameters \<open>CharTable\<close> and \<open>hash\<close>; \<open>None\<close> is \<open>npos\<close>.
\<close>

record CharTable =
  ct_iswalpha :: "u16 \<Rightarrow> bool"
  ct_towupper :: "u16 \<Rightarrow> u16"
  ct_towlower :: "u16 \<Rightarrow> u16"

definition find_from :: "('a \<Rightarrow> bool) \<Rightarrow> 'a list \<Rightarrow> nat \<Rightarrow> nat option" where
  "find_from P xs start = find (\<lambda>i. P (xs ! i)) [start..<length xs]"

section \<open>Roots\<close>

text \<open>\<open>Some (rootLength, driveLetter)\<close> when the function returns true.\<close>

definition IsDrivePath :: "CharTable \<Rightarrow> u16string \<Rightarrow> (nat \<times> u16) option" where
  "IsDrivePath ct path =
     (if length path \<ge> 3 \<and> ct_iswalpha ct (path ! 0) \<and> path ! 1 = 58 \<and> path ! 2 = 92
      then Some (3, ct_towupper ct (path ! 0))
      else if length path \<ge> 6 \<and> starts_with [92, 92, 63, 92] path \<and> ct_iswalpha ct (path ! 4) \<and> path ! 5 = 58
              \<and> (length path = 6 \<or> path ! 6 = 92)
      then Some (if length path \<ge> 7 then 7 else 6, ct_towupper ct (path ! 4))
      else None)"

definition ShareBoundary :: "u16string \<Rightarrow> nat \<Rightarrow> nat option" where
  "ShareBoundary path prefixLength =
     (if length path \<le> prefixLength then None
      else case find_from (\<lambda>c. c = 92) path prefixLength of
        None \<Rightarrow> None
      | Some serverEnd \<Rightarrow>
          if serverEnd + 1 \<ge> length path then None
          else (case find_from (\<lambda>c. c = 92) path (serverEnd + 1) of
                  None \<Rightarrow> Some (length path) | Some shareEnd \<Rightarrow> Some shareEnd))"

definition IsExtendedUnc :: "u16string \<Rightarrow> bool" where
  "IsExtendedUnc path = starts_with [92, 92, 63, 92, 85, 78, 67, 92] path"

definition IsUnc :: "u16string \<Rightarrow> bool" where
  "IsUnc path = (length path \<ge> 2 \<and> path ! 0 = 92 \<and> path ! 1 = 92 \<and> \<not> IsExtendedUnc path)"

definition is_separator :: "u16 \<Rightarrow> bool" where
  "is_separator c = (c = 92 \<or> c = 47)"

function TrimTrailingSeparators :: "u16string \<Rightarrow> u16string" where
  "TrimTrailingSeparators path =
     (if length path > 1 \<and> is_separator (last path) then TrimTrailingSeparators (butlast path) else path)"
  by pat_completeness auto
termination
  by (relation "measure length") auto

declare TrimTrailingSeparators.simps [simp del]

definition IsRoot :: "CharTable \<Rightarrow> u16string \<Rightarrow> bool" where
  "IsRoot ct path =
     (case IsDrivePath ct path of
        Some (driveRootLength, _) \<Rightarrow> length path = driveRootLength
      | None \<Rightarrow>
          if IsExtendedUnc path then ShareBoundary path 8 = Some (length path)
          else if IsUnc path then ShareBoundary path 2 = Some (length path)
          else False)"

definition CanonicalVolumeRoot :: "CharTable \<Rightarrow> u16string \<Rightarrow> u16string" where
  "CanonicalVolumeRoot ct path =
     (let val = TrimTrailingSeparators path in
      case IsDrivePath ct val of
        Some (_, driveLetter) \<Rightarrow> [driveLetter, 58]
      | None \<Rightarrow>
          if IsExtendedUnc val
          then (case ShareBoundary val 8 of None \<Rightarrow> [] | Some boundary \<Rightarrow> [92, 92] @ take (boundary - 8) (drop 8 val))
          else if IsUnc val
          then (case ShareBoundary val 2 of None \<Rightarrow> [] | Some boundary \<Rightarrow> take boundary val)
          else (case find_first is_separator val of None \<Rightarrow> val | Some separator \<Rightarrow> take separator val))"

section \<open>Parent, leaf and volume\<close>

definition ParentPath :: "CharTable \<Rightarrow> u16string \<Rightarrow> u16string" where
  "ParentPath ct path =
     (if path = [] then []
      else let val = TrimTrailingSeparators path in
        if IsRoot ct val then []
        else case find_last is_separator val of
          None \<Rightarrow> []
        | Some separator \<Rightarrow>
            if (case IsDrivePath ct val of Some (driveRootLength, _) \<Rightarrow> separator + 1 = driveRootLength | None \<Rightarrow> False)
            then take (separator + 1) val
            else if IsExtendedUnc val
                    \<and> (case ShareBoundary val 8 of None \<Rightarrow> True | Some boundary \<Rightarrow> separator < boundary) then []
            else if \<not> IsExtendedUnc val \<and> IsUnc val
                    \<and> (case ShareBoundary val 2 of None \<Rightarrow> True | Some boundary \<Rightarrow> separator < boundary) then []
            else take separator val)"

definition LeafName :: "CharTable \<Rightarrow> u16string \<Rightarrow> u16string" where
  "LeafName ct path =
     (if path = [] then []
      else let val = TrimTrailingSeparators path in
        if IsRoot ct path \<or> IsRoot ct val then path
        else case find_last is_separator val of None \<Rightarrow> val | Some separator \<Rightarrow> drop (separator + 1) val)"

definition SameVolume :: "CharTable \<Rightarrow> ordinal \<Rightarrow> u16string \<Rightarrow> u16string \<Rightarrow> bool" where
  "SameVolume ct cso l r =
     (let leftRoot = CanonicalVolumeRoot ct l; rightRoot = CanonicalVolumeRoot ct r in
      if leftRoot = [] \<or> rightRoot = [] then False else cso leftRoot rightRoot = 2)"

definition VolumeId :: "CharTable \<Rightarrow> (u16string \<Rightarrow> u64) \<Rightarrow> u16string \<Rightarrow> u64" where
  "VolumeId ct hash path =
     (let root = CanonicalVolumeRoot ct path in
      if length root = 2 \<and> root ! 1 = 58 then ucast (root ! 0) else hash (map (ct_towlower ct) root))"

section \<open>Searching a path\<close>

lemma find_last_snoc: "find_last P (xs @ [x]) = (if P x then Some (length xs) else find_last P xs)"
proof -
  have "find (\<lambda>i. P ((xs @ [x]) ! i)) (rev [0..<length xs]) = find (\<lambda>i. P (xs ! i)) (rev [0..<length xs])"
    by (rule find_cong) (auto simp: nth_append)
  then show ?thesis by (simp add: find_last_def)
qed

lemma find_last_Nil [simp]: "find_last P [] = None"
  by (simp add: find_last_def)

lemma find_last_append:
  "(\<And>x. x \<in> set ys \<Longrightarrow> \<not> P x) \<Longrightarrow> P c \<Longrightarrow> find_last P (xs @ c # ys) = Some (length xs)"
  by (induction ys rule: rev_induct) (simp_all add: find_last_snoc flip: append_assoc append_Cons)

lemma find_last_less: "find_last P xs = Some i \<Longrightarrow> i < length xs \<and> P (xs ! i)"
  by (induction xs rule: rev_induct) (auto simp: find_last_snoc nth_append less_SucI split: if_splits)

lemma Trim_id: "path = [] \<or> \<not> is_separator (last path) \<Longrightarrow> TrimTrailingSeparators path = path"
  by (subst TrimTrailingSeparators.simps) auto

lemma Trim_length: "length (TrimTrailingSeparators path) \<le> length path"
  by (induction path rule: TrimTrailingSeparators.induct) (subst TrimTrailingSeparators.simps, auto)

lemma drive_root_length:
  "IsDrivePath ct path = Some (n, d) \<Longrightarrow> n \<le> length path \<and> (n = 3 \<or> n = 6 \<or> n = 7)"
  by (auto simp: IsDrivePath_def split: if_splits)

text \<open>
  C38. Climbing a path ends. The parent of a path is strictly shorter than the path, for every path that
  is not empty, drive, UNC and extended spellings included; so repeated steps reach the empty path
  after at most as many steps as the path has characters.
\<close>

theorem ParentPath_climb_ends:
  "(path = [] \<or> length (ParentPath ct path) < length path) \<and> (ParentPath ct ^^ length path) path = []"
proof -
  have step: "length (ParentPath ct path) < length path" if "path \<noteq> []" for path
  proof -
    let ?v = "TrimTrailingSeparators path"
    have "length ?v \<le> length path" by (rule Trim_length)
    moreover have "length (take (n + 1) ?v) < length path"
      if "IsDrivePath ct ?v = Some (n + 1, d)" "\<not> IsRoot ct ?v" for n d
      using that drive_root_length [OF that(1)] Trim_length [of path] by (simp add: IsRoot_def)
    ultimately show ?thesis
      using that find_last_less [of is_separator ?v]
      by (auto simp: ParentPath_def Let_def min_def split: option.split if_splits dest: order_less_le_trans)
  qed
  have "length path \<le> n \<Longrightarrow> (ParentPath ct ^^ n) path = []" for n
  proof (induction n arbitrary: path)
    case (Suc n)
    have "length (ParentPath ct path) \<le> n"
      using Suc.prems step [of path] by (cases "path = []") (auto simp: ParentPath_def)
    from Suc.IH [OF this] show ?case by (simp add: funpow_swap1)
  qed simp
  then show ?thesis using step by blast
qed

section \<open>Drive paths\<close>

text \<open>A child of a folder on a drive; only the drive root keeps its separator.\<close>

definition child_path :: "u16string \<Rightarrow> u16string \<Rightarrow> u16string" where
  "child_path dir leaf = (if length dir = 3 then dir @ leaf else dir @ [92] @ leaf)"

lemma drive_path:
  assumes "ct_iswalpha ct d" "val = [d, 58, 92] @ rest"
  shows "IsDrivePath ct val = Some (3, ct_towupper ct d)" "\<not> IsExtendedUnc val" "\<not> IsUnc val"
    "IsRoot ct val \<longleftrightarrow> rest = []"
  using assms by (simp_all add: IsDrivePath_def IsExtendedUnc_def IsUnc_def starts_with_def IsRoot_def)

lemma drive_folder_root:
  assumes "ct_iswalpha ct d" "\<not> is_separator d" "dir = [d, 58, 92] @ rest" "rest = [] \<or> \<not> is_separator (last rest)"
  shows "CanonicalVolumeRoot ct dir = [if rest = [] then d else ct_towupper ct d, 58]"
proof (cases "rest = []")
  case True
  have "TrimTrailingSeparators [d, 58, 92] = [d, 58]"
    by (simp add: TrimTrailingSeparators.simps is_separator_def)
  moreover have "find_first is_separator [d, 58] = None"
    using assms(2) by (simp add: find_first_def is_separator_def upt_rec)
  ultimately show ?thesis using True assms(3)
    by (simp add: CanonicalVolumeRoot_def IsDrivePath_def IsExtendedUnc_def IsUnc_def starts_with_def)
next
  case False
  then have "TrimTrailingSeparators dir = dir" using assms(3,4) by (simp add: Trim_id)
  then show ?thesis using False drive_path(1) [OF assms(1,3)] by (simp add: CanonicalVolumeRoot_def Let_def)
qed

text \<open>
  C37. On a drive, \<open>ParentPath\<close> and \<open>LeafName\<close> take apart what joining a folder and a name puts together, the drive
  root included, for a folder that starts with an alphabetic drive letter, colon and backslash and has no separator
  at its end beyond these, and a name that is not empty and has no separator. The canonical root of the child is the
  upper-case drive letter, as is that of its folder unless the folder is the drive root, whose letter stays as written;
  \<open>SameVolume\<close> still holds of the two, given that the platform comparison equates the upper-case drive letter with
  the letter as written and with itself.
\<close>

theorem child_path_roundtrip:
  assumes "ct_iswalpha ct d" and "\<not> is_separator d" and "leaf \<noteq> []" and "\<And>c. c \<in> set leaf \<Longrightarrow> \<not> is_separator c"
    and "dir = [d, 58, 92] @ rest" and "rest = [] \<or> \<not> is_separator (last rest)"
    and "cso [ct_towupper ct d, 58] [d, 58] = 2" and "cso [ct_towupper ct d, 58] [ct_towupper ct d, 58] = 2"
  shows "ParentPath ct (child_path dir leaf) = dir \<and> LeafName ct (child_path dir leaf) = leaf
    \<and> CanonicalVolumeRoot ct (child_path dir leaf) = [ct_towupper ct d, 58]
    \<and> CanonicalVolumeRoot ct dir = [if rest = [] then d else ct_towupper ct d, 58]
    \<and> SameVolume ct cso (child_path dir leaf) dir"
proof -
  define sub where "sub = (if rest = [] then leaf else rest @ 92 # leaf)"
  define xs where "xs = (if rest = [] then [d, 58] else dir)"
  have child: "child_path dir leaf = [d, 58, 92] @ sub" "child_path dir leaf = xs @ 92 # leaf"
    using assms(5) by (simp_all add: child_path_def sub_def xs_def)
  note dp = drive_path [OF assms(1) child(1)]
  have "\<not> is_separator (last (child_path dir leaf))"
    using assms(3,4) by (simp add: child(2))
  then have trim: "TrimTrailingSeparators (child_path dir leaf) = child_path dir leaf"
    by (simp add: Trim_id)
  have last: "find_last is_separator (child_path dir leaf) = Some (length xs)"
    unfolding child(2) by (rule find_last_append) (use assms(4) in \<open>auto simp: is_separator_def\<close>)
  have "sub \<noteq> []" using assms(3) by (simp add: sub_def)
  then have notroot: "\<not> IsRoot ct (child_path dir leaf)" by (simp add: dp)
  have "ParentPath ct (child_path dir leaf) = dir"
  proof -
    have ne: "child_path dir leaf \<noteq> []" by (simp add: child(2))
    have "ParentPath ct (child_path dir leaf) =
        (if length xs = 2 then take 3 (child_path dir leaf) else take (length xs) (child_path dir leaf))"
      using ne by (simp add: ParentPath_def Let_def trim notroot last dp(1-3))
    then show ?thesis
      using assms(5) unfolding child(2) by (cases "rest = []") (simp_all add: xs_def)
  qed
  moreover have "LeafName ct (child_path dir leaf) = leaf"
    by (simp add: LeafName_def Let_def trim notroot last) (simp add: child(2))
  moreover have "CanonicalVolumeRoot ct (child_path dir leaf) = [ct_towupper ct d, 58]"
    by (simp add: CanonicalVolumeRoot_def Let_def trim dp)
  moreover note drive_folder_root [OF assms(1,2,5,6)]
  ultimately show ?thesis using assms(7,8) by (simp add: SameVolume_def)
qed

text \<open>The ASCII letters as a character table.\<close>

definition ascii_table :: CharTable where
  "ascii_table =
     \<lparr>ct_iswalpha = (\<lambda>c. (65 \<le> c \<and> c \<le> 90) \<or> (97 \<le> c \<and> c \<le> 122)),
      ct_towupper = (\<lambda>c. if 97 \<le> c \<and> c \<le> 122 then c - 32 else c), ct_towlower = FoldAscii16Char\<rparr>"

theorem child_path_roundtrip_witness:
  "ParentPath ascii_table ([99, 58, 92] @ [98]) = [99, 58, 92] \<and> SameVolume ascii_table fold_ordinal ([99, 58, 92] @ [98]) [99, 58, 92]
   \<and> ParentPath ascii_table ([99, 58, 92, 97] @ [92] @ [98]) = [99, 58, 92, 97]
   \<and> CanonicalVolumeRoot ascii_table [99, 58, 92, 97] = [67, 58]"
proof -
  have eq: "fold_ordinal [ct_towupper ascii_table 99, 58] [99, 58] = 2"
    "fold_ordinal [ct_towupper ascii_table 99, 58] [ct_towupper ascii_table 99, 58] = 2" by code_simp+
  show ?thesis
    using child_path_roundtrip [where ct = ascii_table and d = 99 and cso = fold_ordinal and leaf = "[98]" and dir = "[99, 58, 92]" and rest = "[]", OF _ _ _ _ _ _ eq]
      child_path_roundtrip [where ct = ascii_table and d = 99 and cso = fold_ordinal and leaf = "[98]" and dir = "[99, 58, 92, 97]" and rest = "[97]", OF _ _ _ _ _ _ eq]
    by (simp add: ascii_table_def child_path_def is_separator_def)
qed

text \<open>
  \<open>VolumeId\<close> does not always agree on one drive: for a drive letter that upper-casing changes, the
  drive root, whose trailing separator is trimmed before the drive test, keeps the letter as written,
  while every path below it uses the upper-case letter.
\<close>

theorem VolumeId_root_differs:
  assumes "ct_iswalpha ct d" and "\<not> is_separator d" and "ct_towupper ct d \<noteq> d"
    and "leaf \<noteq> []" and "\<not> is_separator (last leaf)"
  shows "VolumeId ct hash [d, 58, 92] \<noteq> VolumeId ct hash ([d, 58, 92] @ leaf)"
proof -
  have "CanonicalVolumeRoot ct [d, 58, 92] = [d, 58]" using drive_folder_root [OF assms(1,2), of "[d, 58, 92]" "[]"] by simp
  moreover have "CanonicalVolumeRoot ct ([d, 58, 92] @ leaf) = [ct_towupper ct d, 58]"
    using assms drive_path [OF assms(1) refl, of leaf]
    by (simp add: CanonicalVolumeRoot_def Let_def Trim_id)
  ultimately show ?thesis
    using assms(3) by (auto simp: VolumeId_def Let_def word_unat_eq_iff unsigned_ucast_eq)
qed

theorem VolumeId_root_differs_witness:
  "VolumeId ascii_table (\<lambda>s. 0) ([99, 58, 92]) \<noteq> VolumeId ascii_table (\<lambda>s. 0) ([99, 58, 92] @ [120])"
  using VolumeId_root_differs [of ascii_table 99 "[120]" "\<lambda>s. 0"]
  by (simp add: ascii_table_def is_separator_def)

end
