(* ===== verification/Heaps.thy ===== *)
theory Heaps
  imports Prelude "HOL-Library.Multiset"
begin

text \<open>
  The parts of the standard library's \<open>algorithm\<close> header that the bounded result sets use, over an
  arbitrary comparison: \<open>push_heap\<close>, \<open>pop_heap\<close> and \<open>sort\<close>. Clients rely on the effects that the
  standard prescribes, which the locale \<open>std_heap\<close> states; the sift operations below provide them.
\<close>

section \<open>Strict weak orders\<close>

definition strict_weak :: "('a \<Rightarrow> 'a \<Rightarrow> bool) \<Rightarrow> bool" where
  "strict_weak lt \<longleftrightarrow> (\<forall>a b. lt a b \<longrightarrow> \<not> lt b a)
     \<and> (\<forall>a b c. \<not> lt a b \<longrightarrow> \<not> lt b c \<longrightarrow> \<not> lt a c)"

lemma strict_weak_irrefl: "strict_weak lt \<Longrightarrow> \<not> lt a a"
  unfolding strict_weak_def by blast

lemma strict_weak_asym: "strict_weak lt \<Longrightarrow> lt a b \<Longrightarrow> \<not> lt b a"
  unfolding strict_weak_def by blast

lemma strict_weak_negtrans: "strict_weak lt \<Longrightarrow> \<not> lt a b \<Longrightarrow> \<not> lt b c \<Longrightarrow> \<not> lt a c"
  unfolding strict_weak_def by blast

lemma strict_weak_trans: "strict_weak lt \<Longrightarrow> lt a b \<Longrightarrow> lt b c \<Longrightarrow> lt a c"
  unfolding strict_weak_def by blast

section \<open>Sorting\<close>

fun insert_by :: "('a \<Rightarrow> 'a \<Rightarrow> bool) \<Rightarrow> 'a \<Rightarrow> 'a list \<Rightarrow> 'a list" where
  "insert_by lt x [] = [x]"
| "insert_by lt x (y # ys) = (if lt y x then y # insert_by lt x ys else x # y # ys)"

definition sort_by :: "('a \<Rightarrow> 'a \<Rightarrow> bool) \<Rightarrow> 'a list \<Rightarrow> 'a list" where
  "sort_by lt xs = foldr (insert_by lt) xs []"

definition sorted_by :: "('a \<Rightarrow> 'a \<Rightarrow> bool) \<Rightarrow> 'a list \<Rightarrow> bool" where
  "sorted_by lt xs = sorted_wrt (\<lambda>x y. \<not> lt y x) xs"

lemma mset_insert_by [simp]: "mset (insert_by lt x xs) = add_mset x (mset xs)"
  by (induction xs) auto

lemma set_insert_by [simp]: "set (insert_by lt x xs) = insert x (set xs)"
  by (induction xs) auto

lemma mset_sort_by [simp]: "mset (sort_by lt xs) = mset xs"
  by (induction xs) (auto simp: sort_by_def)

lemma length_sort_by [simp]: "length (sort_by lt xs) = length xs"
  by (metis mset_sort_by size_mset)

lemma set_sort_by [simp]: "set (sort_by lt xs) = set xs"
  by (metis mset_sort_by set_mset_mset)

lemma sorted_insert_by:
  assumes "strict_weak lt" "sorted_by lt xs"
  shows "sorted_by lt (insert_by lt x xs)"
  using assms(2)
proof (induction xs)
  case (Cons y ys)
  show ?case
  proof (cases "lt y x")
    case True
    then show ?thesis using Cons strict_weak_asym [OF assms(1) True] by (simp add: sorted_by_def)
  next
    case False
    have "\<not> lt z x" if "z \<in> set ys" for z
      using strict_weak_negtrans [OF assms(1) _ False, of z] Cons.prems that by (simp add: sorted_by_def)
    then show ?thesis using Cons.prems False by (simp add: sorted_by_def)
  qed
qed (simp add: sorted_by_def)

lemma sorted_sort_by: "strict_weak lt \<Longrightarrow> sorted_by lt (sort_by lt xs)"
  by (induction xs) (auto simp: sort_by_def sorted_insert_by, simp add: sorted_by_def)

text \<open>A comparison that separates the elements of a list leaves one sorted arrangement.\<close>

definition separates :: "('a \<Rightarrow> 'a \<Rightarrow> bool) \<Rightarrow> 'a set \<Rightarrow> bool" where
  "separates lt S \<longleftrightarrow> (\<forall>x \<in> S. \<forall>y \<in> S. x \<noteq> y \<longrightarrow> lt x y \<or> lt y x)"

lemma sorted_by_unique:
  assumes "separates lt (set xs)" "mset xs = mset ys" "sorted_by lt xs" "sorted_by lt ys"
  shows "xs = ys"
  using assms
proof (induction xs arbitrary: ys)
  case (Cons x xs)
  then obtain y ys' where ys: "ys = y # ys'" by (cases ys) auto
  have mem: "set (x # xs) = set ys" using Cons.prems(2) by (metis set_mset_mset)
  have "x = y"
  proof (rule ccontr)
    assume "x \<noteq> y"
    then have "x \<in> set ys'" "y \<in> set xs" using mem ys by auto
    then have "\<not> lt x y" "\<not> lt y x"
      using Cons.prems(3,4) ys by (auto simp: sorted_by_def)
    then show False using Cons.prems(1) \<open>x \<noteq> y\<close> \<open>y \<in> set xs\<close> by (auto simp: separates_def)
  qed
  moreover have "xs = ys'"
    using Cons \<open>x = y\<close> ys by (intro Cons.IH) (auto simp: separates_def sorted_by_def)
  ultimately show ?case by (simp add: ys)
qed simp

lemma sort_by_unique:
  "strict_weak lt \<Longrightarrow> separates lt (set xs) \<Longrightarrow> mset xs = mset ys \<Longrightarrow> sort_by lt xs = sort_by lt ys"
  using sorted_by_unique [of lt "sort_by lt xs" "sort_by lt ys"] sorted_sort_by [of lt xs] sorted_sort_by [of lt ys]
  by simp

section \<open>Heap operations\<close>

definition heap_parent :: "nat \<Rightarrow> nat" where
  "heap_parent i = (i - 1) div 2"

definition swap_at :: "nat \<Rightarrow> nat \<Rightarrow> 'a list \<Rightarrow> 'a list" where
  "swap_at i j xs = xs[i := xs ! j, j := xs ! i]"

function sift_up :: "('a \<Rightarrow> 'a \<Rightarrow> bool) \<Rightarrow> 'a list \<Rightarrow> nat \<Rightarrow> 'a list" where
  "sift_up lt xs i =
     (if i \<noteq> 0 \<and> lt (xs ! heap_parent i) (xs ! i)
      then sift_up lt (swap_at i (heap_parent i) xs) (heap_parent i) else xs)"
  by pat_completeness auto
termination
  by (relation "measure (\<lambda>(lt, xs, i). i)") (auto simp: heap_parent_def)

declare sift_up.simps [simp del]

definition push_heap :: "('a \<Rightarrow> 'a \<Rightarrow> bool) \<Rightarrow> 'a list \<Rightarrow> 'a list" where
  "push_heap lt xs = (if xs = [] then xs else sift_up lt xs (length xs - 1))"

text \<open>The child that the hole moves to, in the first \<open>n\<close> positions.\<close>

definition larger_child :: "('a \<Rightarrow> 'a \<Rightarrow> bool) \<Rightarrow> nat \<Rightarrow> 'a list \<Rightarrow> nat \<Rightarrow> nat" where
  "larger_child lt n xs i =
     (if 2 * i + 2 < n \<and> lt (xs ! (2 * i + 1)) (xs ! (2 * i + 2)) then 2 * i + 2 else 2 * i + 1)"

function sift_down :: "('a \<Rightarrow> 'a \<Rightarrow> bool) \<Rightarrow> nat \<Rightarrow> 'a list \<Rightarrow> nat \<Rightarrow> 'a list" where
  "sift_down lt n xs i =
     (if 2 * i + 1 < n \<and> lt (xs ! i) (xs ! larger_child lt n xs i)
      then sift_down lt n (swap_at i (larger_child lt n xs i) xs) (larger_child lt n xs i) else xs)"
  by pat_completeness auto
termination
  by (relation "measure (\<lambda>(lt, n, xs, i). n - i)") (auto simp: larger_child_def)

declare sift_down.simps [simp del]

definition pop_heap :: "('a \<Rightarrow> 'a \<Rightarrow> bool) \<Rightarrow> 'a list \<Rightarrow> 'a list" where
  "pop_heap lt xs =
     (if length xs \<le> 1 then xs
      else sift_down lt (length xs - 1) (swap_at 0 (length xs - 1) xs) 0)"

definition is_heap :: "('a \<Rightarrow> 'a \<Rightarrow> bool) \<Rightarrow> 'a list \<Rightarrow> bool" where
  "is_heap lt xs \<longleftrightarrow> (\<forall>i. 0 < i \<and> i < length xs \<longrightarrow> \<not> lt (xs ! heap_parent i) (xs ! i))"

lemma length_swap_at [simp]: "length (swap_at i j xs) = length xs"
  by (simp add: swap_at_def)

lemma mset_swap_at: "i < length xs \<Longrightarrow> j < length xs \<Longrightarrow> mset (swap_at i j xs) = mset xs"
  by (simp add: swap_at_def mset_swap)

lemma nth_swap_at:
  "i < length xs \<Longrightarrow> j < length xs \<Longrightarrow> swap_at i j xs ! k = (if k = i then xs ! j else if k = j then xs ! i else xs ! k)"
  by (auto simp: swap_at_def nth_list_update)

lemma heap_parent_less: "0 < i \<Longrightarrow> heap_parent i < i"
  by (simp add: heap_parent_def)

lemma mset_sift_up: "i < length xs \<Longrightarrow> mset (sift_up lt xs i) = mset xs"
proof (induction lt xs i rule: sift_up.induct)
  case (1 lt xs i)
  show ?case
  proof (cases "i \<noteq> 0 \<and> lt (xs ! heap_parent i) (xs ! i)")
    case True
    then have "heap_parent i < length xs" using "1.prems" heap_parent_less [of i] by simp
    then show ?thesis
      using 1 True by (subst sift_up.simps) (simp add: mset_swap_at)
  next
    case False
    then show ?thesis by (subst sift_up.simps) auto
  qed
qed

text \<open>The heap property but for the edge above position \<open>i\<close>, whose children are below its parent.\<close>

definition heap_but_up :: "('a \<Rightarrow> 'a \<Rightarrow> bool) \<Rightarrow> 'a list \<Rightarrow> nat \<Rightarrow> bool" where
  "heap_but_up lt xs i \<longleftrightarrow>
     (\<forall>k. 0 < k \<and> k < length xs \<and> k \<noteq> i \<longrightarrow> \<not> lt (xs ! heap_parent k) (xs ! k))
     \<and> (\<forall>k. 0 < k \<and> k < length xs \<and> 0 < i \<and> heap_parent k = i \<longrightarrow> \<not> lt (xs ! heap_parent i) (xs ! k))"

lemma heap_but_up_step:
  assumes "strict_weak lt" "heap_but_up lt xs i" "0 < i" "i < length xs" "lt (xs ! heap_parent i) (xs ! i)"
  shows "heap_but_up lt (swap_at i (heap_parent i) xs) (heap_parent i)"
proof -
  define p where "p = heap_parent i"
  have p: "p < i" "p < length xs" using assms(3,4) heap_parent_less [of i] by (auto simp: p_def)
  note sw = nth_swap_at [OF assms(4) p(2)]
  have edge: "\<not> lt (xs ! heap_parent k) (xs ! k)" if "0 < k" "k < length xs" "k \<noteq> i" for k
    using that assms(2) by (simp add: heap_but_up_def)
  have grand: "\<not> lt (xs ! p) (xs ! k)" if "0 < k" "k < length xs" "heap_parent k = i" for k
    using that assms(2,3) by (simp add: heap_but_up_def p_def)
  have "\<not> lt (swap_at i p xs ! heap_parent k) (swap_at i p xs ! k)"
    if k: "0 < k" "k < length xs" "k \<noteq> p" for k
  proof (cases "k = i")
    case True
    then show ?thesis using strict_weak_asym [OF assms(1,5)] p by (simp add: sw flip: p_def)
  next
    case False
    consider "heap_parent k = p" | "heap_parent k = i" | "heap_parent k \<noteq> p" "heap_parent k \<noteq> i" by blast
    then show ?thesis
    proof cases
      case 1
      then have "\<not> lt (xs ! p) (xs ! k)" using edge [OF k(1,2) False] by simp
      then have "\<not> lt (xs ! i) (xs ! k)" using strict_weak_trans [OF assms(1,5)] by (auto simp: p_def)
      then show ?thesis using 1 False k p by (simp add: sw)
    next
      case 2
      then show ?thesis using grand [OF k(1,2)] False k by (simp add: sw)
    next
      case 3
      then show ?thesis using edge [OF k(1,2) False] False k by (simp add: sw)
    qed
  qed
  moreover have "\<not> lt (swap_at i p xs ! heap_parent p) (swap_at i p xs ! k)"
    if k: "0 < k" "k < length xs" "0 < p" "heap_parent k = p" for k
  proof -
    have pp: "\<not> lt (xs ! heap_parent p) (xs ! p)" using edge [of p] p k by simp
    have q: "heap_parent p \<noteq> p" "heap_parent p \<noteq> i" using heap_parent_less [OF k(3)] p by auto
    have "k \<noteq> p" using heap_parent_less [OF k(1)] k(4) by auto
    then show ?thesis
      using pp q edge [OF k(1,2)] strict_weak_negtrans [OF assms(1) pp] k(4) by (cases "k = i") (simp_all add: sw)
  qed
  ultimately show ?thesis by (simp add: heap_but_up_def p_def [symmetric])
qed

lemma sift_up_heap:
  "strict_weak lt \<Longrightarrow> heap_but_up lt xs i \<Longrightarrow> i < length xs \<Longrightarrow> is_heap lt (sift_up lt xs i)"
proof (induction lt xs i rule: sift_up.induct)
  case (1 lt xs i)
  show ?case
  proof (cases "i \<noteq> 0 \<and> lt (xs ! heap_parent i) (xs ! i)")
    case True
    then have "heap_parent i < length xs" using "1.prems" heap_parent_less [of i] by simp
    then have "is_heap lt (sift_up lt (swap_at i (heap_parent i) xs) (heap_parent i))"
      using 1 True heap_but_up_step [of lt xs i] by simp
    then show ?thesis using True by (subst sift_up.simps) simp
  next
    case False
    then have "is_heap lt xs" using "1.prems" unfolding is_heap_def heap_but_up_def by (metis neq0_conv)
    then show ?thesis using False by (subst sift_up.simps) auto
  qed
qed

lemma push_heap_heap:
  assumes "strict_weak lt" "is_heap lt (butlast xs)" "xs \<noteq> []"
  shows "is_heap lt (push_heap lt xs)"
proof -
  have "heap_but_up lt xs (length xs - 1)"
    unfolding heap_but_up_def
  proof (intro conjI allI impI)
    fix k assume k: "0 < k \<and> k < length xs \<and> k \<noteq> length xs - 1"
    then have "heap_parent k < length xs - 1" using heap_parent_less [of k] by linarith
    then show "\<not> lt (xs ! heap_parent k) (xs ! k)"
      using k assms(2) nth_butlast [of k xs] nth_butlast [of "heap_parent k" xs]
      by (auto simp: is_heap_def dest: spec [of _ k])
  next
    fix k assume "0 < k \<and> k < length xs \<and> 0 < length xs - 1 \<and> heap_parent k = length xs - 1"
    then show "\<not> lt (xs ! heap_parent (length xs - 1)) (xs ! k)"
      using heap_parent_less [of k] by linarith
  qed
  then show ?thesis using assms by (simp add: push_heap_def sift_up_heap)
qed

lemma mset_push_heap: "mset (push_heap lt xs) = mset xs"
  by (simp add: push_heap_def mset_sift_up)

lemma larger_child_cases:
  assumes "2 * i + 1 < n"
  shows "larger_child lt n xs i < n" "0 < larger_child lt n xs i" "heap_parent (larger_child lt n xs i) = i"
    "i < larger_child lt n xs i"
  using assms by (auto simp: larger_child_def heap_parent_def)

lemma larger_child_max:
  assumes "strict_weak lt" "2 * i + 1 < n" "0 < k" "k < n" "heap_parent k = i"
  shows "\<not> lt (xs ! larger_child lt n xs i) (xs ! k)"
proof -
  have "k = 2 * i + 1 \<or> k = 2 * i + 2" using assms(3,5) by (auto simp: heap_parent_def)
  then show ?thesis
    using strict_weak_asym [OF assms(1)] strict_weak_irrefl [OF assms(1)] assms(4)
    by (auto simp: larger_child_def)
qed

lemma length_sift_down [simp]: "length (sift_down lt n xs i) = length xs"
proof (induction lt n xs i rule: sift_down.induct)
  case (1 lt n xs i)
  show ?case
  proof (cases "2 * i + 1 < n \<and> lt (xs ! i) (xs ! larger_child lt n xs i)")
    case True
    from "1.IH" [OF True] True show ?thesis by (subst sift_down.simps) simp
  qed (subst sift_down.simps, auto)
qed

text \<open>The heap property of the first \<open>n\<close> positions but for the edges below position \<open>i\<close>.\<close>

definition heap_but_down :: "('a \<Rightarrow> 'a \<Rightarrow> bool) \<Rightarrow> nat \<Rightarrow> 'a list \<Rightarrow> nat \<Rightarrow> bool" where
  "heap_but_down lt n xs i \<longleftrightarrow>
     (\<forall>k. 0 < k \<and> k < n \<and> heap_parent k \<noteq> i \<longrightarrow> \<not> lt (xs ! heap_parent k) (xs ! k))
     \<and> (\<forall>k. 0 < k \<and> k < n \<and> 0 < i \<and> heap_parent k = i \<longrightarrow> \<not> lt (xs ! heap_parent i) (xs ! k))"

lemma heap_but_down_step:
  assumes "strict_weak lt" "heap_but_down lt n xs i" "2 * i + 1 < n" "n \<le> length xs"
    "lt (xs ! i) (xs ! larger_child lt n xs i)"
  shows "heap_but_down lt n (swap_at i (larger_child lt n xs i) xs) (larger_child lt n xs i)"
proof -
  define c where "c = larger_child lt n xs i"
  have c: "c < n" "0 < c" "heap_parent c = i" "i < c" using larger_child_cases [OF assms(3)] by (auto simp: c_def)
  have len: "i < length xs" "c < length xs" using c assms(4) by auto
  note sw = nth_swap_at [OF len]
  have edge: "\<not> lt (xs ! heap_parent k) (xs ! k)" if "0 < k" "k < n" "heap_parent k \<noteq> i" for k
    using that assms(2) by (simp add: heap_but_down_def)
  have below: "\<not> lt (xs ! heap_parent i) (xs ! k)" if "0 < k" "k < n" "0 < i" "heap_parent k = i" for k
    using that assms(2) by (simp add: heap_but_down_def)
  have "\<not> lt (swap_at i c xs ! heap_parent k) (swap_at i c xs ! k)"
    if k: "0 < k" "k < n" "heap_parent k \<noteq> c" for k
  proof -
    consider "heap_parent k = i" | "k = i" | "heap_parent k \<noteq> i" "k \<noteq> i" by blast
    then show ?thesis
    proof cases
      case 1
      then have "k \<noteq> i" using heap_parent_less [OF k(1)] by auto
      then show ?thesis
        using 1 larger_child_max [OF assms(1,3) k(1,2) 1, of xs, folded c_def]
          strict_weak_asym [OF assms(1,5), folded c_def]
        by (cases "k = c") (simp_all add: sw)
    next
      case 2
      then have "heap_parent k \<noteq> i" using heap_parent_less [OF k(1)] by auto
      then show ?thesis using below [OF c(2,1) _ c(3)] 2 k by (simp add: sw)
    next
      case 3
      then have "k \<noteq> c" using c(3) by auto
      then show ?thesis using 3 k edge by (simp add: sw)
    qed
  qed
  moreover have "\<not> lt (swap_at i c xs ! heap_parent c) (swap_at i c xs ! k)"
    if k: "0 < k" "k < n" "heap_parent k = c" for k
  proof -
    have "k \<noteq> c" "k \<noteq> i" using heap_parent_less [OF k(1)] k(3) c(4) by auto
    then show ?thesis using edge [OF k(1,2)] k(3) c by (simp add: sw)
  qed
  ultimately show ?thesis by (simp add: heap_but_down_def c_def [symmetric])
qed

lemma sift_down_spec:
  "strict_weak lt \<Longrightarrow> heap_but_down lt n xs i \<Longrightarrow> n \<le> length xs \<Longrightarrow>
   is_heap lt (take n (sift_down lt n xs i)) \<and> mset (sift_down lt n xs i) = mset xs
     \<and> drop n (sift_down lt n xs i) = drop n xs"
proof (induction lt n xs i rule: sift_down.induct)
  case (1 lt n xs i)
  let ?c = "larger_child lt n xs i"
  show ?case
  proof (cases "2 * i + 1 < n \<and> lt (xs ! i) (xs ! ?c)")
    case True
    then have c: "?c < n" "i < ?c" using larger_child_cases [of i n lt xs] by auto
    have "heap_but_down lt n (swap_at i ?c xs) ?c"
      using heap_but_down_step [of lt n xs i] "1.prems" True by simp
    from "1.IH" [OF True "1.prems"(1) this] have
      "is_heap lt (take n (sift_down lt n (swap_at i ?c xs) ?c))
       \<and> mset (sift_down lt n (swap_at i ?c xs) ?c) = mset (swap_at i ?c xs)
       \<and> drop n (sift_down lt n (swap_at i ?c xs) ?c) = drop n (swap_at i ?c xs)"
      using "1.prems"(3) by simp
    moreover have "sift_down lt n xs i = sift_down lt n (swap_at i ?c xs) ?c"
      using True by (subst sift_down.simps) simp
    moreover have "drop n (swap_at i ?c xs) = drop n xs" "mset (swap_at i ?c xs) = mset xs"
      using c "1.prems"(3) by (auto simp: swap_at_def mset_swap)
    ultimately show ?thesis by simp
  next
    case False
    have "\<not> lt (xs ! heap_parent k) (xs ! k)" if k: "0 < k" "k < n" for k
    proof (cases "heap_parent k = i")
      case True
      then have "2 * i + 1 < n" using k by (auto simp: heap_parent_def)
      then have "\<not> lt (xs ! i) (xs ! ?c)" "\<not> lt (xs ! ?c) (xs ! k)"
        using False larger_child_max [OF "1.prems"(1) _ k True] by auto
      then show ?thesis using True strict_weak_negtrans [OF "1.prems"(1)] by blast
    next
      case False
      then show ?thesis using "1.prems"(2) k by (simp add: heap_but_down_def)
    qed
    then have "is_heap lt (take n xs)"
      using "1.prems"(3) by (auto simp: is_heap_def dest: heap_parent_less)
    moreover have "sift_down lt n xs i = xs" using False by (subst sift_down.simps) auto
    ultimately show ?thesis by simp
  qed
qed

lemma heap_top_max:
  assumes "strict_weak lt" "is_heap lt xs"
  shows "k < length xs \<Longrightarrow> \<not> lt (xs ! 0) (xs ! k)"
proof (induction k rule: less_induct)
  case (less k)
  show ?case
  proof (cases "k = 0")
    case False
    then have "\<not> lt (xs ! 0) (xs ! heap_parent k)" "\<not> lt (xs ! heap_parent k) (xs ! k)"
      using less assms(2) heap_parent_less [of k] by (auto simp: is_heap_def)
    then show ?thesis using strict_weak_negtrans [OF assms(1)] by blast
  qed (simp add: strict_weak_irrefl [OF assms(1)])
qed

lemma pop_heap_spec:
  assumes "strict_weak lt" "is_heap lt xs" "xs \<noteq> []"
  shows "is_heap lt (butlast (pop_heap lt xs)) \<and> last (pop_heap lt xs) = hd xs \<and> mset (pop_heap lt xs) = mset xs"
proof (cases "length xs \<le> 1")
  case True
  then obtain x where "xs = [x]" using assms(3) by (cases xs) auto
  then show ?thesis by (simp add: pop_heap_def is_heap_def)
next
  case False
  define n where "n = length xs - 1"
  define ys where "ys = swap_at 0 n xs"
  have n: "0 < n" "n < length xs" "length ys = n + 1" using False by (auto simp: n_def ys_def)
  have hd: "hd xs = xs ! 0" using assms(3) by (simp add: hd_conv_nth)
  have "heap_but_down lt n ys 0"
    using assms(2) n by (auto simp: heap_but_down_def is_heap_def ys_def nth_swap_at dest: heap_parent_less)
  from sift_down_spec [OF assms(1) this] n
  have spec: "is_heap lt (take n (sift_down lt n ys 0))" "mset (sift_down lt n ys 0) = mset ys"
    "drop n (sift_down lt n ys 0) = drop n ys" by auto
  have "drop n ys = [xs ! 0]"
    using n Cons_nth_drop_Suc [of n ys] by (simp add: ys_def nth_swap_at)
  then have "last (sift_down lt n ys 0) = xs ! 0"
    using spec(3) by (metis last_ConsL last_drop length_sift_down lessI n(3) Suc_eq_plus1)
  moreover have "butlast (sift_down lt n ys 0) = take n (sift_down lt n ys 0)"
    using n(3) by (simp add: butlast_conv_take)
  moreover have "mset ys = mset xs" using n by (simp add: ys_def mset_swap_at)
  moreover have "pop_heap lt xs = sift_down lt n ys 0" using False by (simp add: pop_heap_def n_def ys_def)
  ultimately show ?thesis using spec hd by simp
qed

section \<open>Keeping the best\<close>

text \<open>
  \<open>xs\<close> holds the \<open>n\<close> best of the items \<open>M\<close>: as many as there are up to \<open>n\<close>, and none that was left out
  comes before one that was kept.
\<close>

definition best :: "('a \<Rightarrow> 'a \<Rightarrow> bool) \<Rightarrow> nat \<Rightarrow> 'a multiset \<Rightarrow> 'a list \<Rightarrow> bool" where
  "best lt n M xs \<longleftrightarrow> mset xs \<subseteq># M \<and> length xs = min n (size M)
     \<and> (\<forall>x \<in># mset xs. \<forall>y \<in># M - mset xs. \<not> lt y x)"

lemma best_all: "length xs \<le> n \<Longrightarrow> best lt n (mset xs) xs"
  by (simp add: best_def)

lemma best_room: "best lt n M xs \<Longrightarrow> length xs < n \<Longrightarrow> M = mset xs"
  by (metis best_def min_def mset_subset_size nless_le size_mset subset_mset.le_neq_trans)

lemma best_sorted:
  assumes "strict_weak lt" "best lt n (mset items) xs" "separates lt (set items)"
  shows "sort_by lt xs = take n (sort_by lt items)"
proof -
  obtain rest where rest: "mset rest = mset items - mset xs" using ex_mset by blast
  then have perm: "mset (xs @ rest) = mset items"
    using assms(2) by (simp add: best_def)
  have "sorted_by lt (sort_by lt xs @ sort_by lt rest)"
    using assms(2) sorted_sort_by [OF assms(1)] rest [symmetric]
    by (auto simp: sorted_by_def sorted_wrt_append best_def)
  moreover have "separates lt (set (sort_by lt xs @ sort_by lt rest))"
    using assms(3) perm by (metis mset_append mset_sort_by set_mset_mset)
  ultimately have all: "sort_by lt items = sort_by lt xs @ sort_by lt rest"
    using perm by (intro sym [OF sorted_by_unique [OF _ _ _ sorted_sort_by [OF assms(1)]]]) simp_all
  have "length xs = min n (length items)" using assms(2) by (simp add: best_def)
  moreover have "length items = length xs + length rest"
    using perm by (metis length_append size_mset)
  ultimately show ?thesis
    unfolding all by (cases "n < length items") (auto simp: sort_by_def [of _ "[]"])
qed

text \<open>The heap of the standard library, as its clients see it.\<close>

locale std_heap =
  fixes heap :: "('a \<Rightarrow> 'a \<Rightarrow> bool) \<Rightarrow> 'a list \<Rightarrow> bool"
    and push :: "('a \<Rightarrow> 'a \<Rightarrow> bool) \<Rightarrow> 'a list \<Rightarrow> 'a list"
    and pop :: "('a \<Rightarrow> 'a \<Rightarrow> bool) \<Rightarrow> 'a list \<Rightarrow> 'a list"
  assumes heap_Nil: "heap lt []"
    and heap_top: "strict_weak lt \<Longrightarrow> heap lt xs \<Longrightarrow> x \<in> set xs \<Longrightarrow> \<not> lt (hd xs) x"
    and push_mset: "mset (push lt xs) = mset xs"
    and push_ok: "strict_weak lt \<Longrightarrow> heap lt (butlast xs) \<Longrightarrow> xs \<noteq> [] \<Longrightarrow> heap lt (push lt xs)"
    and pop_mset: "strict_weak lt \<Longrightarrow> heap lt xs \<Longrightarrow> xs \<noteq> [] \<Longrightarrow> mset (pop lt xs) = mset xs"
    and pop_ok: "strict_weak lt \<Longrightarrow> heap lt xs \<Longrightarrow> xs \<noteq> [] \<Longrightarrow> heap lt (butlast (pop lt xs)) \<and> last (pop lt xs) = hd xs"
begin

lemma push_length: "length (push lt xs) = length xs"
  by (metis push_mset size_mset)

text \<open>What one bounded insertion discards is no better than anything it keeps.\<close>

lemma discard:
  assumes "strict_weak lt" "heap lt ys" "ys \<noteq> []"
  shows "mset ys = add_mset (hd ys) (mset (butlast (pop lt ys)))"
    and "z \<in> set (butlast (pop lt ys)) \<Longrightarrow> \<not> lt (hd ys) z"
proof -
  have "pop lt ys \<noteq> []" using pop_mset [OF assms] assms(3) by auto
  then have "mset (pop lt ys) = add_mset (last (pop lt ys)) (mset (butlast (pop lt ys)))"
    by (metis append_butlast_last_id mset.simps(1,2) mset_append union_mset_add_mset_right add_0_right)
  then show perm: "mset ys = add_mset (hd ys) (mset (butlast (pop lt ys)))"
    using pop_mset [OF assms] pop_ok [OF assms] by simp
  assume "z \<in> set (butlast (pop lt ys))"
  then have "z \<in># mset ys" unfolding perm by simp
  then show "\<not> lt (hd ys) z" using heap_top [OF assms(1,2)] by simp
qed

lemma bounded_add:
  fixes x :: 'a
  assumes sw: "strict_weak lt" and heap: "heap lt xs" and b: "best lt n M xs"
  defines "ys \<equiv> push lt (xs @ [x])"
  defines "zs \<equiv> (if length ys > n then butlast (pop lt ys) else ys)"
  shows "heap lt zs \<and> best lt n (add_mset x M) zs"
proof -
  have ys: "heap lt ys" "mset ys = add_mset x (mset xs)" "length ys = length xs + 1" "ys \<noteq> []"
    using push_ok [OF sw, of "xs @ [x]"] heap push_mset [of lt "xs @ [x]"] push_length [of lt "xs @ [x]"]
    by (auto simp: ys_def)
  show ?thesis
  proof (cases "length xs < n")
    case True
    then show ?thesis
      using best_room [OF b True] ys best_all [of ys n lt] by (simp add: zs_def)
  next
    case False
    then have len: "length xs = n" using b by (auto simp: best_def min_def split: if_splits)
    define w where "w = hd ys"
    have zs: "zs = butlast (pop lt ys)" using ys(3) len by (simp add: zs_def)
    have perm: "add_mset x (mset xs) = add_mset w (mset zs)" using discard(1) [OF sw ys(1,4)] ys(2) zs by (simp add: w_def)
    have top: "\<not> lt w z" if "z \<in># mset zs" for z using discard(2) [OF sw ys(1,4)] that zs by (simp add: w_def)
    have sub: "mset xs \<subseteq># M" using b by (simp add: best_def)
    have rest: "add_mset x M - mset zs = add_mset w (M - mset xs)"
    proof -
      have "add_mset x M = add_mset x (mset xs) + (M - mset xs)" using sub by simp
      then show ?thesis unfolding perm by simp
    qed
    have "\<not> lt y z" if z: "z \<in># mset zs" and y: "y \<in># M - mset xs" for y z
    proof (cases "z \<in># mset xs")
      case True
      then show ?thesis using b y by (simp add: best_def)
    next
      case False
      then have "w \<noteq> x" using perm z by (metis add_mset_add_mset_same_iff)
      moreover have "w \<in># add_mset x (mset xs)" unfolding perm by simp
      ultimately have "w \<in># mset xs" by simp
      then have "\<not> lt y w" using b y by (simp add: best_def)
      then show ?thesis using strict_weak_negtrans [OF sw _ top [OF z]] by blast
    qed
    moreover have "mset zs \<subseteq># add_mset x M"
    proof -
      have "mset zs \<subseteq># add_mset x (mset xs)" unfolding perm by simp
      then show ?thesis using sub by (meson mset_subset_eq_add_mset_cancel subset_mset.order_trans)
    qed
    moreover have "length zs = min n (size (add_mset x M))"
    proof -
      have "length zs = n" using arg_cong [OF perm, of size] len by simp
      moreover have "n \<le> size M" using b len by (simp add: best_def min_def split: if_splits)
      ultimately show ?thesis by simp
    qed
    ultimately show ?thesis
      using pop_ok [OF sw ys(1,4)] top by (auto simp: best_def rest zs [symmetric])
  qed
qed

end

interpretation shp: std_heap is_heap push_heap pop_heap
proof
  show "is_heap lt []" for lt :: "'a \<Rightarrow> 'a \<Rightarrow> bool" by (simp add: is_heap_def)
  show "\<not> lt (hd xs) x" if "strict_weak lt" "is_heap lt xs" "x \<in> set xs" for lt :: "'a \<Rightarrow> 'a \<Rightarrow> bool" and xs x
    using heap_top_max [OF that(1,2)] that(3) by (metis hd_conv_nth in_set_conv_nth list.distinct(1) list.set_cases)
qed (simp_all add: mset_push_heap push_heap_heap pop_heap_spec)

end
