(* ===== verification/Search.thy ===== *)
theory Search
  imports Paths Heaps
begin

text \<open>
  Search execution and ranking, \<open>search/src/Search.cpp\<close> and the tier classification of
  \<open>search/src/Query.cpp\<close>: scope, tiers, the result order, the bounded accumulator, and path
  reconstruction from candidates. The optional diagnostics are not modelled. A cancellation callback
  is a function of the number of candidates visited when it is polled; the empty callback never fires.
  A materializer returns the completed candidate, or \<open>None\<close> where the source's returns false.
\<close>

section \<open>Data\<close>

datatype SearchScope = CurrentFolder | CurrentFolderAndSubfolders | CurrentDrive | AllIndexedLocations

datatype MatchTier = Exact | Prefix | Substring | PathOnly

datatype SortField = SF_Relevance | SF_Filename | SF_Path | SF_Size | SF_Modified | SF_Created | SF_AllocatedSize

record SearchRequest =
  rq_query :: Query
  rq_scope :: SearchScope
  rq_scopePath :: u16string
  rq_sortField :: SortField
  rq_descending :: bool
  rq_chunkSize :: nat
  rq_maxResults :: nat
  rq_persistentOnly :: bool
  rq_candidateFilter :: "(Candidate \<Rightarrow> bool) option"
  rq_candidateFilterRequiresFolder :: bool

record SearchResult =
  sr_candidate :: Candidate
  sr_tier :: MatchTier

record SearchResponse =
  rs_results :: "SearchResult list"
  rs_cancelled :: bool
  rs_truncated :: bool
  rs_candidatesVisited :: nat

definition empty_response :: SearchResponse where
  "empty_response = \<lparr>rs_results = [], rs_cancelled = False, rs_truncated = False, rs_candidatesVisited = 0\<rparr>"

fun tier_int :: "MatchTier \<Rightarrow> int" where
  "tier_int Exact = 0"
| "tier_int Prefix = 1"
| "tier_int Substring = 2"
| "tier_int PathOnly = 3"

text \<open>\<open>static_cast<int>\<close> of a length.\<close>

definition int_size :: "'a list \<Rightarrow> int" where
  "int_size xs = sint (of_nat (length xs) :: 32 word)"

section \<open>Scope\<close>

definition OrdinalEqual :: "ordinal \<Rightarrow> u16string \<Rightarrow> u16string \<Rightarrow> bool" where
  "OrdinalEqual cso l r = (length l = length r \<and> cso l r = 2)"

definition OrdinalStartsWith :: "ordinal \<Rightarrow> u16string \<Rightarrow> u16string \<Rightarrow> bool" where
  "OrdinalStartsWith cso val pre = (length val \<ge> length pre \<and> cso (take (length pre) val) pre = 2)"

definition InScope :: "CharTable \<Rightarrow> ordinal \<Rightarrow> Candidate \<Rightarrow> SearchScope \<Rightarrow> u16string \<Rightarrow> bool \<Rightarrow> bool" where
  "InScope ct cso c scope root persistentOnly =
     (if persistentOnly \<and> \<not> c_persistentIndexed c then False
      else if scope = AllIndexedLocations then True
      else if scope = CurrentFolder then OrdinalEqual cso (c_folder c) root
      else if scope = CurrentDrive then SameVolume ct cso root (c_folder c)
      else if OrdinalEqual cso (c_folder c) root then True
      else if \<not> OrdinalStartsWith cso (c_folder c) root then False
      else root = [] \<or> last root = 92
           \<or> (length (c_folder c) > length root \<and> c_folder c ! length root = 92))"

definition CompareOrdinal :: "ordinal \<Rightarrow> u16string \<Rightarrow> u16string \<Rightarrow> int" where
  "CompareOrdinal cso l r = int (cso l r) - 2"

section \<open>Tiers\<close>

definition ClassifyMatch :: "ordinal \<Rightarrow> Candidate \<Rightarrow> u16string \<Rightarrow> MatchTier" where
  "ClassifyMatch cso c trm =
     (if trm = [] then Substring
      else let needle = PrepareAsciiFoldNeedle trm;
               equals = (\<lambda>v. if afn_ascii needle then AsciiFoldEquals v trm else OrdinalEqual cso v trm);
               startsWith = (\<lambda>v. if afn_ascii needle then AsciiFoldStartsWith v trm else OrdinalStartsWith cso v trm);
               stem = (case find_last (\<lambda>ch. ch = 46) (c_name c) of None \<Rightarrow> c_name c | Some dot \<Rightarrow> take dot (c_name c))
           in if equals stem \<or> equals (c_name c) then Exact
              else if startsWith (c_name c) then Prefix
              else if (if afn_ascii needle then AsciiFoldContains cso (c_name c) needle else OrdinalContains cso (c_name c) trm)
                then Substring
              else PathOnly)"

definition folded_eq :: "u16string \<Rightarrow> nat \<Rightarrow> u16string \<Rightarrow> bool" where
  "folded_eq name start trm =
     list_all (\<lambda>i. FoldAscii16Char (name ! (start + i)) = FoldAsciiWideChar (trm ! i)) [0..<length trm]"

definition FoldedEquals16 :: "ordinal \<Rightarrow> u16string \<Rightarrow> u16string \<Rightarrow> bool" where
  "FoldedEquals16 cso name trm =
     (if length name \<noteq> length trm then False
      else if IsAscii trm then folded_eq name 0 trm
      else CompareOrdinal16 cso name trm = 0)"

definition FoldedStartsWith16 :: "ordinal \<Rightarrow> u16string \<Rightarrow> u16string \<Rightarrow> bool" where
  "FoldedStartsWith16 cso name trm =
     (if length trm > length name then False
      else if IsAscii trm then folded_eq name 0 trm
      else CompareOrdinal16 cso (take (length trm) name) trm = 0)"

definition FoldedContains16 :: "ordinal \<Rightarrow> u16string \<Rightarrow> u16string \<Rightarrow> bool" where
  "FoldedContains16 cso name trm =
     (if trm = [] then True
      else if length trm > length name then False
      else if IsAscii trm then list_ex (\<lambda>start. folded_eq name start trm) [0..<length name - length trm + 1]
      else contains_from (\<lambda>s. CompareOrdinal16 cso s trm = 0) (length trm) name 0)"

definition ClassifyMatchView :: "ordinal \<Rightarrow> u16string \<Rightarrow> u16string \<Rightarrow> MatchTier" where
  "ClassifyMatchView cso name trm =
     (if trm = [] then Substring
      else let stem = (case find_last (\<lambda>ch. ch = 46) name of None \<Rightarrow> name | Some dot \<Rightarrow> take dot name)
           in if FoldedEquals16 cso stem trm \<or> FoldedEquals16 cso name trm then Exact
              else if FoldedStartsWith16 cso name trm then Prefix
              else if FoldedContains16 cso name trm then Substring
              else PathOnly)"

section \<open>The order of results\<close>

definition cmp_u64 :: "u64 \<Rightarrow> u64 \<Rightarrow> int" where
  "cmp_u64 l r = (if l < r then - 1 else if l > r then 1 else 0)"

definition ResultLess :: "ordinal \<Rightarrow> SortField \<Rightarrow> bool \<Rightarrow> SearchResult \<Rightarrow> SearchResult \<Rightarrow> bool" where
  "ResultLess cso fld descending l r =
     (let lc = sr_candidate l; rc = sr_candidate r;
          primary =
            (case fld of
               SF_Relevance \<Rightarrow>
                 (let p = tier_int (sr_tier l) - tier_int (sr_tier r);
                      p = (if p = 0 then int_size (c_name lc) - int_size (c_name rc) else p)
                  in if p = 0 then int_size (c_folder lc) - int_size (c_folder rc) else p)
             | SF_Filename \<Rightarrow> CompareOrdinal cso (c_name lc) (c_name rc)
             | SF_Path \<Rightarrow> CompareOrdinal cso (c_folder lc) (c_folder rc)
             | SF_Size \<Rightarrow> cmp_u64 (c_sizeBytes lc) (c_sizeBytes rc)
             | SF_Modified \<Rightarrow> cmp_u64 (c_modifiedTime lc) (c_modifiedTime rc)
             | SF_Created \<Rightarrow> cmp_u64 (c_createdTime lc) (c_createdTime rc)
             | SF_AllocatedSize \<Rightarrow>
                 (if c_allocatedSizeKnown lc then cmp_u64 (c_allocatedSizeBytes lc) (c_allocatedSizeBytes rc) else 0))
      in if fld = SF_AllocatedSize \<and> c_allocatedSizeKnown lc \<noteq> c_allocatedSizeKnown rc then c_allocatedSizeKnown lc
         else if primary \<noteq> 0 then (if descending then primary > 0 else primary < 0)
         else if CompareOrdinal cso (c_folder lc) (c_folder rc) \<noteq> 0
           then CompareOrdinal cso (c_folder lc) (c_folder rc) < 0
         else if c_volumeId lc \<noteq> c_volumeId rc then sint (c_volumeId lc) < sint (c_volumeId rc)
         else c_id lc < c_id rc)"

definition SortResults :: "ordinal \<Rightarrow> SortField \<Rightarrow> bool \<Rightarrow> SearchResult list \<Rightarrow> SearchResult list" where
  "SortResults cso fld descending results = sort_by (ResultLess cso fld descending) results"

section \<open>The bounded accumulator\<close>

definition folder_needed :: "SearchRequest \<Rightarrow> bool" where
  "folder_needed rq = (rq_scope rq \<noteq> AllIndexedLocations \<or> q_requiresFolder (rq_query rq))"

text \<open>Appending a result and, under a cap, the heap step.\<close>

definition push_result :: "ordinal \<Rightarrow> SearchRequest \<Rightarrow> SearchResult \<Rightarrow> SearchResponse \<Rightarrow> SearchResponse" where
  "push_result cso rq r rs =
     (let before = ResultLess cso (rq_sortField rq) (rq_descending rq);
          results = rs_results rs @ [r]
      in if rq_maxResults rq = 0 then rs\<lparr>rs_results := results\<rparr>
         else let results = push_heap before results
              in if length results > rq_maxResults rq
                 then rs\<lparr>rs_results := butlast (pop_heap before results), rs_truncated := True\<rparr>
                 else rs\<lparr>rs_results := results\<rparr>)"

text \<open>The switch of \<open>AdmitView\<close> over the sort field, against the worst result kept.\<close>

definition admits :: "ordinal \<Rightarrow> SearchRequest \<Rightarrow> CandidateView \<Rightarrow> SearchResult \<Rightarrow> bool" where
  "admits cso rq v worst =
     (let wc = sr_candidate worst;
          judge = (\<lambda>primary. if rq_descending rq then primary \<ge> (0 :: int) else primary \<le> 0)
      in case rq_sortField rq of
           SF_Relevance \<Rightarrow>
             (let p = tier_int (ClassifyMatchView cso (cv_name v) (q_primaryTerm (rq_query rq))) - tier_int (sr_tier worst)
              in judge (if p = 0 then int_size (cv_name v) - int_size (c_name wc) else p))
         | SF_Filename \<Rightarrow> judge (CompareOrdinal16 cso (cv_name v) (c_name wc))
         | SF_Size \<Rightarrow> judge (cmp_u64 (cv_sizeBytes v) (c_sizeBytes wc))
         | SF_Modified \<Rightarrow> judge (cmp_u64 (cv_modifiedTime v) (c_modifiedTime wc))
         | SF_Created \<Rightarrow> judge (cmp_u64 (cv_createdTime v) (c_createdTime wc))
         | SF_AllocatedSize \<Rightarrow>
             if cv_allocatedSizeKnown v \<noteq> c_allocatedSizeKnown wc then cv_allocatedSizeKnown v
             else if \<not> cv_allocatedSizeKnown v then True
             else judge (cmp_u64 (cv_allocatedSizeBytes v) (c_allocatedSizeBytes wc))
         | SF_Path \<Rightarrow> True)"

definition AdmitView :: "ordinal \<Rightarrow> SearchRequest \<Rightarrow> CandidateView \<Rightarrow> SearchResponse \<Rightarrow> bool \<times> SearchResponse" where
  "AdmitView cso rq v rs =
     (if rs_cancelled rs then (False, rs)
      else if rq_maxResults rq = 0 then (True, rs)
      else if length (rs_results rs) < rq_maxResults rq then (True, rs)
      else if rq_candidateFilter rq \<noteq> None \<or> rq_candidateFilterRequiresFolder rq \<or> folder_needed rq then (True, rs)
      else if admits cso rq v (hd (rs_results rs)) then (True, rs)
      else (False, rs\<lparr>rs_truncated := True\<rparr>))"

type_synonym Materializer = "Candidate \<Rightarrow> Candidate option"

text \<open>The decision of \<open>AddImpl\<close> on one candidate: the candidate as it enters the results, or \<open>None\<close>.\<close>

definition accept :: "CharTable \<Rightarrow> ordinal \<Rightarrow> SearchRequest \<Rightarrow> Materializer option \<Rightarrow> bool \<Rightarrow> Candidate \<Rightarrow> Candidate option" where
  "accept ct cso rq materialize evaluated c =
     (if \<not> evaluated \<and> \<not> MatchesWithoutFolder (rq_query rq) c then None
      else
        let early = (folder_needed rq \<or> rq_candidateFilterRequiresFolder rq) \<and> materialize \<noteq> None in
        case (if early then the materialize c else Some c) of
          None \<Rightarrow> None
        | Some c \<Rightarrow>
            if (case rq_candidateFilter rq of None \<Rightarrow> False | Some f \<Rightarrow> \<not> f c) then None
            else if \<not> InScope ct cso c (rq_scope rq) (rq_scopePath rq) (rq_persistentOnly rq) then None
            else if \<not> evaluated \<and> \<not> Matches (rq_query rq) c then None
            else if \<not> early \<and> \<not> folder_needed rq \<and> materialize \<noteq> None then the materialize c
            else Some c)"

definition AddImpl :: "CharTable \<Rightarrow> ordinal \<Rightarrow> SearchRequest \<Rightarrow> (nat \<Rightarrow> bool) \<Rightarrow> Materializer option \<Rightarrow> bool
    \<Rightarrow> Candidate \<Rightarrow> SearchResponse \<Rightarrow> bool \<times> SearchResponse" where
  "AddImpl ct cso rq cancelled materialize evaluated c rs =
     (if rs_cancelled rs then (False, rs)
      else if rs_candidatesVisited rs mod max 1 (rq_chunkSize rq) = 0 \<and> cancelled (rs_candidatesVisited rs)
        then (False, rs\<lparr>rs_cancelled := True, rs_results := []\<rparr>)
      else
        let rs = rs\<lparr>rs_candidatesVisited := rs_candidatesVisited rs + 1\<rparr> in
        case accept ct cso rq materialize evaluated c of
          None \<Rightarrow> (True, rs)
        | Some c \<Rightarrow>
            (True, push_result cso rq \<lparr>sr_candidate = c, sr_tier = ClassifyMatch cso c (q_primaryTerm (rq_query rq))\<rparr> rs))"

definition Add :: "CharTable \<Rightarrow> ordinal \<Rightarrow> SearchRequest \<Rightarrow> (nat \<Rightarrow> bool) \<Rightarrow> Materializer option \<Rightarrow> Candidate
    \<Rightarrow> SearchResponse \<Rightarrow> bool \<times> SearchResponse" where
  "Add ct cso rq cancelled materialize c rs = AddImpl ct cso rq cancelled materialize False c rs"

definition AddViewMatched :: "CharTable \<Rightarrow> ordinal \<Rightarrow> SearchRequest \<Rightarrow> (nat \<Rightarrow> bool) \<Rightarrow> Materializer option \<Rightarrow> Candidate
    \<Rightarrow> SearchResponse \<Rightarrow> bool \<times> SearchResponse" where
  "AddViewMatched ct cso rq cancelled materialize c rs = AddImpl ct cso rq cancelled materialize True c rs"

definition Finish :: "ordinal \<Rightarrow> SearchRequest \<Rightarrow> SearchResponse \<Rightarrow> SearchResponse" where
  "Finish cso rq rs =
     (if rs_cancelled rs then rs\<lparr>rs_results := []\<rparr>
      else rs\<lparr>rs_results := SortResults cso (rq_sortField rq) (rq_descending rq) (rs_results rs)\<rparr>)"

section \<open>Whole searches\<close>

text \<open>
  The loop body of \<open>ExecuteSearchCore\<close> on one candidate. \<open>mutable\<close> says that the candidates may be
  completed in place, which \<open>ExecuteSearchLazy\<close> passes; without it a materializer that is needed
  rejects the candidate.
\<close>

definition core_accept :: "CharTable \<Rightarrow> ordinal \<Rightarrow> SearchRequest \<Rightarrow> bool \<Rightarrow> Materializer option \<Rightarrow> Candidate \<Rightarrow> Candidate option" where
  "core_accept ct cso rq mutable materialize c =
     (let complete = (\<lambda>c. if \<not> mutable then None else the materialize c);
          early = folder_needed rq \<or> rq_candidateFilterRequiresFolder rq
      in if \<not> MatchesWithoutFolder (rq_query rq) c then None
         else case (if early \<and> materialize \<noteq> None then complete c else Some c) of
           None \<Rightarrow> None
         | Some c \<Rightarrow>
             if (case rq_candidateFilter rq of None \<Rightarrow> False | Some f \<Rightarrow> \<not> f c) then None
             else if \<not> InScope ct cso c (rq_scope rq) (rq_scopePath rq) (rq_persistentOnly rq) then None
             else if \<not> Matches (rq_query rq) c then None
             else if \<not> early \<and> \<not> folder_needed rq \<and> materialize \<noteq> None then complete c
             else Some c)"

fun core_loop :: "CharTable \<Rightarrow> ordinal \<Rightarrow> SearchRequest \<Rightarrow> bool \<Rightarrow> Materializer option \<Rightarrow> (nat \<Rightarrow> bool)
    \<Rightarrow> nat \<Rightarrow> Candidate list \<Rightarrow> SearchResponse \<Rightarrow> SearchResponse" where
  "core_loop ct cso rq mutable materialize cancelled index [] rs =
     rs\<lparr>rs_results := SortResults cso (rq_sortField rq) (rq_descending rq) (rs_results rs)\<rparr>"
| "core_loop ct cso rq mutable materialize cancelled index (c # cs) rs =
     (if index mod max 1 (rq_chunkSize rq) = 0 \<and> cancelled index
      then rs\<lparr>rs_cancelled := True, rs_results := []\<rparr>
      else
        let rs = rs\<lparr>rs_candidatesVisited := rs_candidatesVisited rs + 1\<rparr> in
        case core_accept ct cso rq mutable materialize c of
          None \<Rightarrow> core_loop ct cso rq mutable materialize cancelled (index + 1) cs rs
        | Some c \<Rightarrow>
            core_loop ct cso rq mutable materialize cancelled (index + 1) cs
              (push_result cso rq \<lparr>sr_candidate = c, sr_tier = ClassifyMatch cso c (q_primaryTerm (rq_query rq))\<rparr> rs))"

definition ExecuteSearch :: "CharTable \<Rightarrow> ordinal \<Rightarrow> Candidate list \<Rightarrow> SearchRequest \<Rightarrow> (nat \<Rightarrow> bool) \<Rightarrow> SearchResponse" where
  "ExecuteSearch ct cso candidates rq cancelled = core_loop ct cso rq False None cancelled 0 candidates empty_response"

definition ExecuteSearchLazy :: "CharTable \<Rightarrow> ordinal \<Rightarrow> Candidate list \<Rightarrow> SearchRequest \<Rightarrow> Materializer \<Rightarrow> (nat \<Rightarrow> bool)
    \<Rightarrow> SearchResponse" where
  "ExecuteSearchLazy ct cso candidates rq materialize cancelled =
     core_loop ct cso rq True (Some materialize) cancelled 0 candidates empty_response"

text \<open>\<open>ExecuteSearchViews\<close> on the views an enumerator yields; the visitor stops at a cancellation.\<close>

definition view_accept :: "Host \<Rightarrow> CharTable \<Rightarrow> SearchRequest \<Rightarrow> (CandidateView \<Rightarrow> Candidate option) \<Rightarrow> CandidateView \<Rightarrow> Candidate option" where
  "view_accept host ct rq materialize v =
     (let filtered = (\<lambda>c. case rq_candidateFilter rq of None \<Rightarrow> False | Some f \<Rightarrow> \<not> f c) in
      if folder_needed rq
      then if \<not> MatchesViewWithoutFolder host (rq_query rq) v then None
           else case materialize v of None \<Rightarrow> None
             | Some c \<Rightarrow>
                 if filtered c \<or> \<not> InScope ct (h_cso host) c (rq_scope rq) (rq_scopePath rq) (rq_persistentOnly rq)
                    \<or> \<not> Matches (rq_query rq) c then None else Some c
      else if \<not> MatchesView host (rq_query rq) v then None
           else case materialize v of None \<Rightarrow> None
             | Some c \<Rightarrow> if filtered c then None else Some c)"

fun view_loop :: "Host \<Rightarrow> CharTable \<Rightarrow> SearchRequest \<Rightarrow> (CandidateView \<Rightarrow> Candidate option) \<Rightarrow> (nat \<Rightarrow> bool)
    \<Rightarrow> CandidateView list \<Rightarrow> SearchResponse \<Rightarrow> SearchResponse" where
  "view_loop host ct rq materialize cancelled [] rs =
     rs\<lparr>rs_results := SortResults (h_cso host) (rq_sortField rq) (rq_descending rq) (rs_results rs)\<rparr>"
| "view_loop host ct rq materialize cancelled (v # vs) rs =
     (if rs_candidatesVisited rs mod max 1 (rq_chunkSize rq) = 0 \<and> cancelled (rs_candidatesVisited rs)
      then rs\<lparr>rs_cancelled := True, rs_results := []\<rparr>
      else
        let rs = rs\<lparr>rs_candidatesVisited := rs_candidatesVisited rs + 1\<rparr> in
        case view_accept host ct rq materialize v of
          None \<Rightarrow> view_loop host ct rq materialize cancelled vs rs
        | Some c \<Rightarrow>
            view_loop host ct rq materialize cancelled vs
              (push_result (h_cso host) rq
                 \<lparr>sr_candidate = c, sr_tier = ClassifyMatch (h_cso host) c (q_primaryTerm (rq_query rq))\<rparr> rs))"

definition ExecuteSearchViews :: "Host \<Rightarrow> CharTable \<Rightarrow> CandidateView list \<Rightarrow> SearchRequest
    \<Rightarrow> (CandidateView \<Rightarrow> Candidate option) \<Rightarrow> (nat \<Rightarrow> bool) \<Rightarrow> SearchResponse" where
  "ExecuteSearchViews host ct views rq materialize cancelled =
     (if \<not> q_viewCompatible (rq_query rq) then empty_response
      else view_loop host ct rq materialize cancelled views empty_response)"

section \<open>Paths from candidates\<close>

record PathReconstruction =
  rec_segments :: "u16string list"
  rec_complete :: bool
  rec_unresolvedParentId :: u64

text \<open>The lookup table keeps the first entry of each key, as \<open>emplace\<close> does.\<close>

definition cand_key :: "Candidate \<Rightarrow> u64 \<times> u64" where
  "cand_key c = (c_volumeId c, c_id c)"

definition by_id :: "Candidate list \<Rightarrow> u64 \<times> u64 \<Rightarrow> Candidate option" where
  "by_id entries k = find (\<lambda>e. cand_key e = k) entries"

function climb :: "Candidate list \<Rightarrow> (u64 \<times> u64) list \<Rightarrow> Candidate \<Rightarrow> PathReconstruction \<Rightarrow> PathReconstruction" where
  "climb entries seen current result =
     (if cand_key current \<in> set seen then result\<lparr>rec_unresolvedParentId := c_id current\<rparr>
      else
        let result = result\<lparr>rec_segments := rec_segments result @ [c_name current]\<rparr> in
        if c_parentId current = 0 \<or> c_parentId current = c_id current then result\<lparr>rec_complete := True\<rparr>
        else case by_id entries (c_volumeId current, c_parentId current) of
          None \<Rightarrow> result\<lparr>rec_unresolvedParentId := c_parentId current\<rparr>
        | Some parent \<Rightarrow> climb entries (cand_key current # seen) parent result)"
  by pat_completeness auto

lemma by_id_Some: "by_id entries k = Some e \<Longrightarrow> e \<in> set entries \<and> cand_key e = k"
  by (auto simp: by_id_def find_Some_iff)

termination climb
proof (relation "measure (\<lambda>(entries, seen, current, result). card (insert (cand_key current) (cand_key ` set entries) - set seen))", goal_cases)
  case 1
  then show ?case by simp
next
  case (2 entries seen current result result' parent)
  let ?K = "cand_key ` set entries"
  have "cand_key parent \<in> ?K" using by_id_Some [OF 2(4)] by blast
  then have "insert (cand_key parent) ?K - set (cand_key current # seen) \<subset> insert (cand_key current) ?K - set seen"
    using 2(1) by auto
  then show ?case by (simp add: psubset_card_mono)
qed

declare climb.simps [simp del]

definition ReconstructPath :: "Candidate list \<Rightarrow> nat \<Rightarrow> PathReconstruction" where
  "ReconstructPath entries entryIndex =
     (let result = \<lparr>rec_segments = [], rec_complete = False, rec_unresolvedParentId = 0\<rparr> in
      if entryIndex \<ge> length entries then result
      else let result = climb entries [] (entries ! entryIndex) result
           in result\<lparr>rec_segments := rev (rec_segments result)\<rparr>)"

section \<open>The two classifiers agree\<close>

lemma folded_eq_at: "start + length trm \<le> length name \<Longrightarrow> folded_eq name start trm \<longleftrightarrow> fold_at name (FoldAscii16 trm) start"
  by (auto simp: folded_eq_def fold_at_iff FoldAscii16_eq list_all_iff)

lemma FoldedEquals16_iff:
  "FoldedEquals16 cso v trm \<longleftrightarrow> (if IsAscii trm then AsciiFoldEquals v trm else OrdinalEqual cso v trm)"
  by (auto simp: FoldedEquals16_def AsciiFoldEquals_def OrdinalEqual_def folded_eq_def CompareOrdinal16_def list_all_iff)

lemma FoldedStartsWith16_iff:
  "FoldedStartsWith16 cso v trm \<longleftrightarrow> (if IsAscii trm then AsciiFoldStartsWith v trm else OrdinalStartsWith cso v trm)"
  by (auto simp: FoldedStartsWith16_def AsciiFoldStartsWith_def AsciiFoldEquals_def OrdinalStartsWith_def
      folded_eq_def CompareOrdinal16_def list_all_iff)

lemma FoldedContains16_iff:
  assumes "trm \<noteq> []"
  shows "FoldedContains16 cso v trm \<longleftrightarrow>
    (if IsAscii trm then AsciiFoldContains cso v (PrepareAsciiFoldNeedle trm) else OrdinalContains cso v trm)"
proof (cases "IsAscii trm")
  case True
  have "list_ex (\<lambda>start. folded_eq v start trm) [0..<length v - length trm + 1] \<longleftrightarrow> fold_occurs v (FoldAscii16 trm)"
    if "length trm \<le> length v"
  proof -
    have "list_ex (\<lambda>start. folded_eq v start trm) [0..<length v - length trm + 1] \<longleftrightarrow>
        (\<exists>start. start + length trm \<le> length v \<and> folded_eq v start trm)"
    proof -
      have "start \<in> set [0..<length v - length trm + 1] \<longleftrightarrow> start + length trm \<le> length v" for start
        using that by (simp only: set_upt atLeastLessThan_iff) linarith
      then show ?thesis unfolding list_ex_iff Bex_def by (simp only:)
    qed
    also have "\<dots> \<longleftrightarrow> fold_occurs v (FoldAscii16 trm)"
      using folded_eq_at by (auto simp: fold_occurs_def fold_at_def FoldAscii16_eq)
    finally show ?thesis .
  qed
  moreover have "\<not> fold_occurs v (FoldAscii16 trm)" if "length v < length trm"
    using that by (auto simp: fold_occurs_def fold_at_def FoldAscii16_eq)
  ultimately show ?thesis
    using True assms by (auto simp: FoldedContains16_def AsciiFoldContains_iff)
next
  case False
  then show ?thesis
    using assms by (auto simp: FoldedContains16_def OrdinalContains_iff16 OrdinalContains16_def)
qed

text \<open>
  C25. The two tier classifiers agree on every name and term, ASCII or not, empty term included: the
  classifier over a projection view, which the admission test uses before a row is materialized,
  gives the tier that the owning classifier gives the materialized row.
\<close>

theorem ClassifyMatchView_agrees: "ClassifyMatchView cso (c_name c) trm = ClassifyMatch cso c trm"
  by (simp add: ClassifyMatchView_def ClassifyMatch_def Let_def FoldedEquals16_iff FoldedStartsWith16_iff
      FoldedContains16_iff Prepare_simps)

section \<open>The result order\<close>

text \<open>
  What \<open>CompareStringOrdinal\<close> documents: the results less, equal and greater (1, 2, 3), a comparison
  and its reverse are opposite, and the comparison is transitive.
\<close>

definition ordinal_total :: "ordinal \<Rightarrow> bool" where
  "ordinal_total cso \<longleftrightarrow> (\<forall>l r. cso l r = 1 \<or> cso l r = 2 \<or> cso l r = 3) \<and> (\<forall>l r. cso l r = 1 \<longleftrightarrow> cso r l = 3)
     \<and> (\<forall>l m r. cso l m \<le> 2 \<longrightarrow> cso m r \<le> 2 \<longrightarrow> cso l r \<le> 2)"

text \<open>Three-way comparisons that are consistent, and how they combine.\<close>

definition cmp_ok :: "('a \<Rightarrow> 'a \<Rightarrow> int) \<Rightarrow> bool" where
  "cmp_ok c \<longleftrightarrow> (\<forall>a b. c a b < 0 \<longleftrightarrow> c b a > 0) \<and> (\<forall>a b d. c a b \<le> 0 \<longrightarrow> c b d \<le> 0 \<longrightarrow> c a d \<le> 0)"

definition then_less :: "('a \<Rightarrow> 'a \<Rightarrow> int) \<Rightarrow> ('a \<Rightarrow> 'a \<Rightarrow> bool) \<Rightarrow> 'a \<Rightarrow> 'a \<Rightarrow> bool" where
  "then_less c lt a b = (if c a b \<noteq> 0 then c a b < 0 else lt a b)"

definition then_cmp :: "('a \<Rightarrow> 'a \<Rightarrow> int) \<Rightarrow> ('a \<Rightarrow> 'a \<Rightarrow> int) \<Rightarrow> 'a \<Rightarrow> 'a \<Rightarrow> int" where
  "then_cmp c c' a b = (if c a b = 0 then c' a b else c a b)"

lemma cmp_okD:
  assumes "cmp_ok c"
  shows "c a b < 0 \<longleftrightarrow> c b a > 0" "c a b = 0 \<longleftrightarrow> c b a = 0" "c a b \<le> 0 \<Longrightarrow> c b d \<le> 0 \<Longrightarrow> c a d \<le> 0"
    "c a b = 0 \<Longrightarrow> c b d = 0 \<Longrightarrow> c a d = 0"
    "c a b \<le> 0 \<Longrightarrow> c b d < 0 \<Longrightarrow> c a d < 0" "c a b < 0 \<Longrightarrow> c b d \<le> 0 \<Longrightarrow> c a d < 0"
proof -
  have flip: "c a b < 0 \<longleftrightarrow> c b a > 0" for a b using assms by (simp add: cmp_ok_def)
  have trans: "c a b \<le> 0 \<Longrightarrow> c b d \<le> 0 \<Longrightarrow> c a d \<le> 0" for a b d using assms unfolding cmp_ok_def by blast
  show "c a b < 0 \<longleftrightarrow> c b a > 0" by (rule flip)
  show "c a b = 0 \<longleftrightarrow> c b a = 0" using flip [of a b] flip [of b a] by linarith
  show "c a b \<le> 0 \<Longrightarrow> c b d \<le> 0 \<Longrightarrow> c a d \<le> 0" by (rule trans)
  show "c a b = 0 \<Longrightarrow> c b d = 0 \<Longrightarrow> c a d = 0"
    using trans [of a b d] trans [of d b a] flip [of a b] flip [of b a] flip [of b d] flip [of d b] flip [of a d] flip [of d a]
    by linarith
  show "c a b \<le> 0 \<Longrightarrow> c b d < 0 \<Longrightarrow> c a d < 0"
    using trans [of a b d] trans [of d a b] flip [of b d] flip [of a d] flip [of d a] by linarith
  show "c a b < 0 \<Longrightarrow> c b d \<le> 0 \<Longrightarrow> c a d < 0"
    using trans [of a b d] trans [of b d a] flip [of a b] flip [of a d] flip [of d a] by linarith
qed

lemma strict_weak_then:
  assumes c: "cmp_ok c" and lt: "strict_weak lt"
  shows "strict_weak (then_less c lt)"
  unfolding strict_weak_def
proof (intro conjI allI impI)
  fix a b assume "then_less c lt a b"
  then show "\<not> then_less c lt b a"
    using cmp_okD(1) [OF c, of a b] cmp_okD(2) [OF c, of a b] strict_weak_asym [OF lt, of a b]
    by (auto simp: then_less_def split: if_splits)
next
  fix a b d assume ab: "\<not> then_less c lt a b" and bd: "\<not> then_less c lt b d"
  have "c b a \<le> 0" "c d b \<le> 0"
    using ab bd cmp_okD(1,2) [OF c, of b a] cmp_okD(1,2) [OF c, of d b] by (auto simp: then_less_def split: if_splits)
  show "\<not> then_less c lt a d"
  proof (cases "c b a = 0 \<and> c d b = 0")
    case True
    then have "c a b = 0" "c b d = 0" using cmp_okD(2) [OF c] by blast+
    then show ?thesis
      using ab bd cmp_okD(4) [OF c, of a b d] strict_weak_negtrans [OF lt, of a b d] by (simp add: then_less_def)
  next
    case False
    then have "c d a < 0"
      using \<open>c b a \<le> 0\<close> \<open>c d b \<le> 0\<close> cmp_okD(5,6) [OF c, of d b a] by (cases "c b a = 0") auto
    then show ?thesis using cmp_okD(1) [OF c, of d a] by (simp add: then_less_def)
  qed
qed

lemma cmp_ok_then:
  assumes "cmp_ok c" "cmp_ok c'"
  shows "cmp_ok (then_cmp c c')"
  unfolding cmp_ok_def
proof (intro conjI allI impI)
  show "then_cmp c c' a b < 0 \<longleftrightarrow> then_cmp c c' b a > 0" for a b
    using cmp_okD(1,2) [OF assms(1), of a b] cmp_okD(1) [OF assms(2), of a b] by (simp add: then_cmp_def)
  fix a b d assume "then_cmp c c' a b \<le> 0" "then_cmp c c' b d \<le> 0"
  then show "then_cmp c c' a d \<le> 0"
    using cmp_okD(4-6) [OF assms(1), of a b d] cmp_okD(3) [OF assms(2), of a b d]
    by (cases "c a b = 0"; cases "c b d = 0") (auto simp: then_cmp_def)
qed

lemma cmp_ok_basic:
  "cmp_ok (\<lambda>a b. f a - f b)" "cmp_ok (\<lambda>a b. cmp_u64 (g a) (g b))"
  by (auto simp: cmp_ok_def cmp_u64_def split: if_splits)

lemma cmp_ok_minus: "cmp_ok c \<Longrightarrow> cmp_ok (\<lambda>a b. - c a b)"
  unfolding cmp_ok_def [of "\<lambda>a b. - c a b"]
proof (intro conjI allI impI)
  fix a b d
  assume c: "cmp_ok c"
  show "- c a b < 0 \<longleftrightarrow> - c b a > 0" using cmp_okD(1) [OF c, of b a] by linarith
  assume "- c a b \<le> 0" "- c b d \<le> 0"
  then show "- c a d \<le> 0"
    using cmp_okD(1) [OF c, of a b] cmp_okD(1) [OF c, of b a] cmp_okD(1) [OF c, of b d] cmp_okD(1) [OF c, of d b]
      cmp_okD(1) [OF c, of a d] cmp_okD(3) [OF c, of d b a] by linarith
qed

lemma cmp_ok_ordinal:
  assumes "ordinal_total cso"
  shows "cmp_ok (\<lambda>a b. CompareOrdinal cso (f a) (f b))"
proof -
  have one: "cso l r = 1 \<or> cso l r = 2 \<or> cso l r = 3" and flip: "cso l r = 1 \<longleftrightarrow> cso r l = 3"
    and trans: "cso l m \<le> 2 \<Longrightarrow> cso m r \<le> 2 \<Longrightarrow> cso l r \<le> 2" for l m r
    using assms unfolding ordinal_total_def by blast+
  have "CompareOrdinal cso l r < 0 \<longleftrightarrow> cso l r = 1" "CompareOrdinal cso l r > 0 \<longleftrightarrow> cso l r = 3"
    "CompareOrdinal cso l r \<le> 0 \<longleftrightarrow> cso l r \<le> 2" for l r
    using one [of l r] by (auto simp: CompareOrdinal_def)
  then show ?thesis unfolding cmp_ok_def using flip trans by simp
qed

text \<open>The keys of the comparison, in the order in which it consults them.\<close>

definition known_cmp :: "SortField \<Rightarrow> SearchResult \<Rightarrow> SearchResult \<Rightarrow> int" where
  "known_cmp fld l r =
     (let key = (\<lambda>x. if fld = SF_AllocatedSize \<and> \<not> c_allocatedSizeKnown (sr_candidate x) then 1 else 0) in key l - key r)"

definition primary_cmp :: "ordinal \<Rightarrow> SortField \<Rightarrow> SearchResult \<Rightarrow> SearchResult \<Rightarrow> int" where
  "primary_cmp cso fld =
     (case fld of
        SF_Relevance \<Rightarrow>
          then_cmp (\<lambda>l r. tier_int (sr_tier l) - tier_int (sr_tier r))
            (then_cmp (\<lambda>l r. int_size (c_name (sr_candidate l)) - int_size (c_name (sr_candidate r)))
               (\<lambda>l r. int_size (c_folder (sr_candidate l)) - int_size (c_folder (sr_candidate r))))
      | SF_Filename \<Rightarrow> (\<lambda>l r. CompareOrdinal cso (c_name (sr_candidate l)) (c_name (sr_candidate r)))
      | SF_Path \<Rightarrow> (\<lambda>l r. CompareOrdinal cso (c_folder (sr_candidate l)) (c_folder (sr_candidate r)))
      | SF_Size \<Rightarrow> (\<lambda>l r. cmp_u64 (c_sizeBytes (sr_candidate l)) (c_sizeBytes (sr_candidate r)))
      | SF_Modified \<Rightarrow> (\<lambda>l r. cmp_u64 (c_modifiedTime (sr_candidate l)) (c_modifiedTime (sr_candidate r)))
      | SF_Created \<Rightarrow> (\<lambda>l r. cmp_u64 (c_createdTime (sr_candidate l)) (c_createdTime (sr_candidate r)))
      | SF_AllocatedSize \<Rightarrow>
          (let key = (\<lambda>x. if c_allocatedSizeKnown (sr_candidate x) then c_allocatedSizeBytes (sr_candidate x) else 0)
           in (\<lambda>l r. cmp_u64 (key l) (key r))))"

definition directed :: "bool \<Rightarrow> ('a \<Rightarrow> 'a \<Rightarrow> int) \<Rightarrow> 'a \<Rightarrow> 'a \<Rightarrow> int" where
  "directed descending c a b = (if descending then - c a b else c a b)"

lemma sint_eq_iff: "sint (a :: u64) = sint b \<longleftrightarrow> a = b"
  using signed_word_eqI by auto

lemma ResultLess_keys:
  "ResultLess cso fld descending =
     then_less (known_cmp fld)
       (then_less (directed descending (primary_cmp cso fld))
         (then_less (\<lambda>l r. CompareOrdinal cso (c_folder (sr_candidate l)) (c_folder (sr_candidate r)))
           (then_less (\<lambda>l r. sint (c_volumeId (sr_candidate l)) - sint (c_volumeId (sr_candidate r)))
             (\<lambda>l r. c_id (sr_candidate l) < c_id (sr_candidate r)))))"
proof (intro ext)
  fix l r
  show "ResultLess cso fld descending l r = then_less (known_cmp fld)
       (then_less (directed descending (primary_cmp cso fld))
         (then_less (\<lambda>l r. CompareOrdinal cso (c_folder (sr_candidate l)) (c_folder (sr_candidate r)))
           (then_less (\<lambda>l r. sint (c_volumeId (sr_candidate l)) - sint (c_volumeId (sr_candidate r)))
             (\<lambda>l r. c_id (sr_candidate l) < c_id (sr_candidate r))))) l r"
    by (cases fld; cases "c_allocatedSizeKnown (sr_candidate l)"; cases "c_allocatedSizeKnown (sr_candidate r)")
      (simp_all add: ResultLess_def Let_def known_cmp_def primary_cmp_def then_less_def then_cmp_def directed_def
        cmp_u64_def sint_eq_iff)
qed

lemma primary_cmp_ok: "ordinal_total cso \<Longrightarrow> cmp_ok (primary_cmp cso fld)"
  by (cases fld) (simp_all add: primary_cmp_def Let_def cmp_ok_then cmp_ok_basic cmp_ok_ordinal)

lemma directed_ok: "ordinal_total cso \<Longrightarrow> cmp_ok (directed descending (primary_cmp cso fld))"
  using primary_cmp_ok [of cso fld] cmp_ok_minus [OF primary_cmp_ok, of cso fld]
  by (cases descending) (simp_all add: directed_def [abs_def])

lemma known_ok: "cmp_ok (known_cmp fld)"
  unfolding known_cmp_def Let_def by (rule cmp_ok_basic)

lemma ResultLess_strict_weak:
  assumes "ordinal_total cso"
  shows "strict_weak (ResultLess cso fld descending)"
proof -
  note directed_ok [OF assms, of descending fld] known_ok [of fld]
  moreover have "strict_weak (\<lambda>l r. c_id (sr_candidate l) < c_id (sr_candidate r))"
    by (auto simp: strict_weak_def)
  ultimately show ?thesis
    unfolding ResultLess_keys by (intro strict_weak_then cmp_ok_basic cmp_ok_ordinal [OF assms])
qed

text \<open>Results with different identities are never tied.\<close>

definition result_id :: "SearchResult \<Rightarrow> u64 \<times> u64" where
  "result_id r = (c_volumeId (sr_candidate r), c_id (sr_candidate r))"

lemma ResultLess_total:
  assumes "ordinal_total cso" "result_id l \<noteq> result_id r"
  shows "ResultLess cso fld descending l r \<or> ResultLess cso fld descending r l"
proof -
  have total: "then_less c lt l r \<or> then_less c lt r l" if "cmp_ok c" "lt l r \<or> lt r l" for c lt
    using cmp_okD(1,2) [OF that(1), of l r] that(2) by (auto simp: then_less_def)
  let ?vol = "\<lambda>l r. sint (c_volumeId (sr_candidate l)) - sint (c_volumeId (sr_candidate r))"
    and ?id = "\<lambda>l r. c_id (sr_candidate l) < c_id (sr_candidate r)"
  have v: "then_less ?vol ?id l r \<or> then_less ?vol ?id r l"
    using assms(2) sint_eq_iff [of "c_volumeId (sr_candidate l)" "c_volumeId (sr_candidate r)"]
    unfolding then_less_def result_id_def by (auto simp: neq_iff)
  have d: "cmp_ok (directed descending (primary_cmp cso fld))" and k: "cmp_ok (known_cmp fld)"
    by (rule directed_ok [OF assms(1)], rule known_ok)
  show ?thesis
    unfolding ResultLess_keys by (rule total [OF k total [OF d total [OF cmp_ok_ordinal [OF assms(1)] v]]])
qed

lemma ResultLess_separates:
  "ordinal_total cso \<Longrightarrow> distinct (map result_id rs) \<Longrightarrow> separates (ResultLess cso fld descending) (set rs)"
  unfolding separates_def
proof (intro ballI impI)
  fix x y
  assume "ordinal_total cso" "distinct (map result_id rs)" "x \<in> set rs" "y \<in> set rs" "x \<noteq> y"
  then show "ResultLess cso fld descending x y \<or> ResultLess cso fld descending y x"
    by (intro ResultLess_total) (auto simp: distinct_map dest: inj_onD)
qed

text \<open>An instance of the documented comparison: ASCII case folding, then the units from left to right.\<close>

fun lex_cmp :: "nat list \<Rightarrow> nat list \<Rightarrow> nat" where
  "lex_cmp [] [] = 2"
| "lex_cmp [] (y # ys) = 1"
| "lex_cmp (x # xs) [] = 3"
| "lex_cmp (x # xs) (y # ys) = (if x < y then 1 else if x > y then 3 else lex_cmp xs ys)"

definition lex_ordinal :: ordinal where
  "lex_ordinal l r = lex_cmp (map (unat \<circ> FoldAscii16Char) l) (map (unat \<circ> FoldAscii16Char) r)"

lemma lex_cmp_range: "lex_cmp xs ys = 1 \<or> lex_cmp xs ys = 2 \<or> lex_cmp xs ys = 3"
  by (induction xs ys rule: lex_cmp.induct) auto

lemma lex_cmp_flip: "lex_cmp xs ys = 1 \<longleftrightarrow> lex_cmp ys xs = 3"
  by (induction xs ys rule: lex_cmp.induct) auto

lemma lex_cmp_trans: "lex_cmp xs ys \<le> 2 \<Longrightarrow> lex_cmp ys zs \<le> 2 \<Longrightarrow> lex_cmp xs zs \<le> 2"
proof (induction xs ys arbitrary: zs rule: lex_cmp.induct)
  case (2 y ys)
  then show ?case by (cases zs) auto
next
  case (4 x xs y ys)
  then obtain z zs' where zs: "zs = z # zs'" by (cases zs) auto
  have le: "x \<le> y" "y \<le> z" using "4.prems" by (auto simp: zs split: if_splits)
  show ?case
  proof (cases "x = y \<and> y = z")
    case True
    then have "lex_cmp xs ys \<le> 2" "lex_cmp ys zs' \<le> 2" using "4.prems" by (auto simp: zs)
    from "4.IH" [OF _ _ this] True show ?thesis by (simp add: zs)
  next
    case False
    then have "x < z" using le by linarith
    then show ?thesis by (simp add: zs)
  qed
qed auto

lemma lex_ordinal_total: "ordinal_total lex_ordinal"
  unfolding ordinal_total_def lex_ordinal_def using lex_cmp_range lex_cmp_flip lex_cmp_trans by blast

text \<open>
  C20. The result comparison is a strict weak order for every sort field and direction, and it never
  ties two results with different volume and identity, provided the platform's string comparison is
  a total preorder, as documented. Sorting and heap operations are therefore well defined, and the
  order of a result list does not depend on the order in which the rows were enumerated.
\<close>

theorem ResultLess_total_order:
  assumes "ordinal_total cso"
  shows "strict_weak (ResultLess cso fld descending)
    \<and> (result_id l \<noteq> result_id r \<longrightarrow> ResultLess cso fld descending l r \<or> ResultLess cso fld descending r l)"
  using ResultLess_strict_weak [OF assms] ResultLess_total [OF assms] by blast

definition sample_result :: "u64 \<Rightarrow> u64 \<Rightarrow> SearchResult" where
  "sample_result i sz = \<lparr>sr_candidate = sample_candidate\<lparr>c_id := i, c_sizeBytes := sz\<rparr>, sr_tier = Prefix\<rparr>"

theorem ResultLess_total_order_witness:
  "ResultLess lex_ordinal SF_Size True (sample_result 1 10) (sample_result 2 10)
   \<or> ResultLess lex_ordinal SF_Size True (sample_result 2 10) (sample_result 1 10)"
  using ResultLess_total_order [OF lex_ordinal_total, of SF_Size True "sample_result 1 10" "sample_result 2 10"]
  by (simp add: result_id_def sample_result_def)

section \<open>The accumulator keeps the best\<close>

text \<open>The state after the results \<open>items\<close> were pushed.\<close>

definition acc_inv :: "ordinal \<Rightarrow> SearchRequest \<Rightarrow> SearchResult list \<Rightarrow> SearchResponse \<Rightarrow> bool" where
  "acc_inv cso rq items rs \<longleftrightarrow>
     (if rq_maxResults rq = 0 then rs_results rs = items \<and> \<not> rs_truncated rs
      else is_heap (ResultLess cso (rq_sortField rq) (rq_descending rq)) (rs_results rs)
           \<and> best (ResultLess cso (rq_sortField rq) (rq_descending rq)) (rq_maxResults rq) (mset items) (rs_results rs)
           \<and> (rs_truncated rs \<longleftrightarrow> rq_maxResults rq < length items))"

lemma acc_inv_empty: "acc_inv cso rq [] empty_response"
  by (simp add: acc_inv_def empty_response_def is_heap_def best_def)

lemma push_result_inv:
  assumes "ordinal_total cso" "acc_inv cso rq items rs"
  shows "acc_inv cso rq (items @ [r]) (push_result cso rq r rs)"
proof (cases "rq_maxResults rq = 0")
  case True
  then show ?thesis using assms(2) by (simp add: acc_inv_def push_result_def)
next
  case False
  let ?lt = "ResultLess cso (rq_sortField rq) (rq_descending rq)" and ?n = "rq_maxResults rq"
  have inv: "is_heap ?lt (rs_results rs)" "best ?lt ?n (mset items) (rs_results rs)"
    "rs_truncated rs \<longleftrightarrow> ?n < length items" using assms(2) False by (auto simp: acc_inv_def)
  have len: "length (push_heap ?lt (rs_results rs @ [r])) = length (rs_results rs) + 1"
    by (simp add: shp.push_length)
  have "length (rs_results rs) = min ?n (length items)" using inv(2) by (simp add: best_def)
  then show ?thesis
    using shp.bounded_add [OF ResultLess_strict_weak [OF assms(1)] inv(1,2), of r] inv(3) False len
    by (auto simp: acc_inv_def push_result_def Let_def)
qed

lemma push_result_keeps [simp]:
  "rs_cancelled (push_result cso rq r rs) = rs_cancelled rs"
  "rs_candidatesVisited (push_result cso rq r rs) = rs_candidatesVisited rs"
  by (simp_all add: push_result_def Let_def)

text \<open>The list that a search reports: all the results in order, or the first of them under a cap.\<close>

definition ranked :: "ordinal \<Rightarrow> SearchRequest \<Rightarrow> SearchResult list \<Rightarrow> SearchResult list" where
  "ranked cso rq items =
     (let sorted = sort_by (ResultLess cso (rq_sortField rq) (rq_descending rq)) items
      in if rq_maxResults rq = 0 then sorted else take (rq_maxResults rq) sorted)"

lemma acc_inv_ranked:
  assumes "ordinal_total cso" "acc_inv cso rq items rs" "distinct (map result_id items)"
  shows "SortResults cso (rq_sortField rq) (rq_descending rq) (rs_results rs) = ranked cso rq items"
  using assms(2) best_sorted [OF ResultLess_strict_weak [OF assms(1)] _ ResultLess_separates [OF assms(1,3)]]
  by (auto simp: acc_inv_def SortResults_def ranked_def Let_def split: if_splits)

definition result_of :: "ordinal \<Rightarrow> SearchRequest \<Rightarrow> Candidate \<Rightarrow> SearchResult" where
  "result_of cso rq c = \<lparr>sr_candidate = c, sr_tier = ClassifyMatch cso c (q_primaryTerm (rq_query rq))\<rparr>"

definition matched :: "ordinal \<Rightarrow> SearchRequest \<Rightarrow> ('a \<Rightarrow> Candidate option) \<Rightarrow> 'a list \<Rightarrow> SearchResult list" where
  "matched cso rq accepts xs = map (result_of cso rq) (List.map_filter accepts xs)"

lemma matched_simps [simp]:
  "matched cso rq accepts [] = []"
  "matched cso rq accepts (x # xs) =
     (case accepts x of None \<Rightarrow> matched cso rq accepts xs | Some c \<Rightarrow> result_of cso rq c # matched cso rq accepts xs)"
  by (simp_all add: matched_def map_filter_simps split: option.split)

lemma acc_inv_visited [simp]: "acc_inv cso rq items (rs\<lparr>rs_candidatesVisited := n\<rparr>) = acc_inv cso rq items rs"
  by (simp add: acc_inv_def)

lemma core_loop_spec:
  assumes "ordinal_total cso" "\<And>n. \<not> cancelled n" "acc_inv cso rq items rs"
  shows "\<exists>rs'. core_loop ct cso rq mutable materialize cancelled index cs rs =
      rs'\<lparr>rs_results := SortResults cso (rq_sortField rq) (rq_descending rq) (rs_results rs')\<rparr>
    \<and> acc_inv cso rq (items @ matched cso rq (core_accept ct cso rq mutable materialize) cs) rs'
    \<and> rs_cancelled rs' = rs_cancelled rs \<and> rs_candidatesVisited rs' = rs_candidatesVisited rs + length cs"
  using assms(3)
proof (induction cs arbitrary: index items rs)
  case Nil
  then show ?case by (intro exI [of _ rs]) simp
next
  case (Cons c cs)
  let ?rs = "rs\<lparr>rs_candidatesVisited := rs_candidatesVisited rs + 1\<rparr>"
  show ?case
  proof (cases "core_accept ct cso rq mutable materialize c")
    case None
    then show ?thesis using Cons.IH [of items ?rs "index + 1"] Cons.prems assms(2) by simp
  next
    case (Some c')
    then have "acc_inv cso rq (items @ [result_of cso rq c']) (push_result cso rq (result_of cso rq c') ?rs)"
      using push_result_inv [OF assms(1)] Cons.prems by simp
    from Cons.IH [OF this, of "index + 1"] Some show ?thesis
      using assms(2) by (simp add: result_of_def [symmetric])
  qed
qed

lemma view_loop_spec:
  assumes "ordinal_total (h_cso host)" "\<And>n. \<not> cancelled n" "acc_inv (h_cso host) rq items rs"
  shows "\<exists>rs'. view_loop host ct rq materialize cancelled vs rs =
      rs'\<lparr>rs_results := SortResults (h_cso host) (rq_sortField rq) (rq_descending rq) (rs_results rs')\<rparr>
    \<and> acc_inv (h_cso host) rq (items @ matched (h_cso host) rq (view_accept host ct rq materialize) vs) rs'
    \<and> rs_cancelled rs' = rs_cancelled rs \<and> rs_candidatesVisited rs' = rs_candidatesVisited rs + length vs"
  using assms(3)
proof (induction vs arbitrary: items rs)
  case Nil
  then show ?case by (intro exI [of _ rs]) simp
next
  case (Cons v vs)
  let ?rs = "rs\<lparr>rs_candidatesVisited := rs_candidatesVisited rs + 1\<rparr>"
  show ?case
  proof (cases "view_accept host ct rq materialize v")
    case None
    then show ?thesis using Cons.IH [of items ?rs] Cons.prems assms(2) by simp
  next
    case (Some c')
    then have "acc_inv (h_cso host) rq (items @ [result_of (h_cso host) rq c'])
        (push_result (h_cso host) rq (result_of (h_cso host) rq c') ?rs)"
      using push_result_inv [OF assms(1)] Cons.prems by simp
    from Cons.IH [OF this] Some show ?thesis
      using assms(2) by (simp add: result_of_def [symmetric])
  qed
qed

lemma acc_inv_truncated:
  "acc_inv cso rq items rs \<Longrightarrow> rs_truncated rs \<longleftrightarrow> rq_maxResults rq \<noteq> 0 \<and> rq_maxResults rq < length items"
  by (auto simp: acc_inv_def split: if_splits)

lemma ExecuteSearch_core:
  assumes "ordinal_total cso" and "\<And>n. \<not> cancelled n"
    and "distinct (map result_id (matched cso rq (core_accept ct cso rq False None) candidates))"
  shows "ExecuteSearch ct cso candidates rq cancelled =
    \<lparr>rs_results = ranked cso rq (matched cso rq (core_accept ct cso rq False None) candidates), rs_cancelled = False,
     rs_truncated = (rq_maxResults rq \<noteq> 0
       \<and> rq_maxResults rq < length (matched cso rq (core_accept ct cso rq False None) candidates)),
     rs_candidatesVisited = length candidates\<rparr>"
proof -
  obtain rs' where rs': "ExecuteSearch ct cso candidates rq cancelled =
      rs'\<lparr>rs_results := SortResults cso (rq_sortField rq) (rq_descending rq) (rs_results rs')\<rparr>"
    "acc_inv cso rq (matched cso rq (core_accept ct cso rq False None) candidates) rs'" "\<not> rs_cancelled rs'"
    "rs_candidatesVisited rs' = length candidates"
    using core_loop_spec [where ct = ct and cancelled = cancelled and mutable = False and materialize = None
        and index = 0 and cs = candidates and rq = rq, OF assms(1,2) acc_inv_empty]
    by (auto simp: ExecuteSearch_def empty_response_def)
  then show ?thesis
    using acc_inv_ranked [OF assms(1) rs'(2) assms(3)] acc_inv_truncated [OF rs'(2)] by simp
qed

text \<open>
  C1. A search that is not cancelled returns the top of the whole ranking. The results are all accepted
  candidates with their tiers, sorted by the requested order and, under a cap of \<open>maxResults\<close>, the
  first \<open>maxResults\<close> of that list, although only a heap of that size was kept; the truncated flag says
  exactly that rows were left out, and every candidate was visited. It is stated for a platform comparison that is a
  total order and for accepted candidates that differ in the pair of volume and file id, the last key of the order.
\<close>

theorem ExecuteSearch_top_n:
  assumes "ordinal_total cso" and "\<And>n. \<not> cancelled n"
    and "items = matched cso rq (core_accept ct cso rq False None) candidates"
    and "distinct (map result_id items)"
  shows "ExecuteSearch ct cso candidates rq cancelled =
    \<lparr>rs_results = ranked cso rq items, rs_cancelled = False,
     rs_truncated = (rq_maxResults rq \<noteq> 0 \<and> rq_maxResults rq < length items),
     rs_candidatesVisited = length candidates\<rparr>"
  using ExecuteSearch_core [OF assms(1,2), where ct = ct and rq = rq and candidates = candidates] assms(3,4) by simp

text \<open>A small search: two rows match \<open>note\<close>, one is kept.\<close>

definition sample_query :: Query where
  "sample_query = empty_Query\<lparr>q_predicates := [\<lambda>c. c_sizeBytes c > 5], q_predicatesWithoutFolder := [\<lambda>c. c_sizeBytes c > 5],
     q_primaryTerm := wstr ''note''\<rparr>"

definition sample_request :: SearchRequest where
  "sample_request =
     \<lparr>rq_query = sample_query, rq_scope = AllIndexedLocations, rq_scopePath = [], rq_sortField = SF_Size,
      rq_descending = True, rq_chunkSize = 1024, rq_maxResults = 1, rq_persistentOnly = False,
      rq_candidateFilter = None, rq_candidateFilterRequiresFolder = False\<rparr>"

definition sample_rows :: "Candidate list" where
  "sample_rows = [sample_candidate\<lparr>c_id := 1, c_sizeBytes := 10\<rparr>, sample_candidate\<lparr>c_id := 2, c_sizeBytes := 3\<rparr>,
                  sample_candidate\<lparr>c_id := 3, c_sizeBytes := 20\<rparr>]"

lemma sample_matched:
  "matched lex_ordinal sample_request (core_accept ascii_table lex_ordinal sample_request False None) sample_rows =
     [result_of lex_ordinal sample_request (sample_candidate\<lparr>c_id := 1, c_sizeBytes := 10\<rparr>),
      result_of lex_ordinal sample_request (sample_candidate\<lparr>c_id := 3, c_sizeBytes := 20\<rparr>)]"
  by (simp add: sample_rows_def core_accept_def sample_request_def sample_query_def folder_needed_def empty_Query_def
      MatchesWithoutFolder_def Matches_def InScope_def Let_def)

theorem ExecuteSearch_top_n_witness:
  "map (c_id \<circ> sr_candidate) (rs_results (ExecuteSearch ascii_table lex_ordinal sample_rows sample_request (\<lambda>n. False))) = [3]"
proof -
  have "ExecuteSearch ascii_table lex_ordinal sample_rows sample_request (\<lambda>n. False) =
      \<lparr>rs_results = ranked lex_ordinal sample_request
         (matched lex_ordinal sample_request (core_accept ascii_table lex_ordinal sample_request False None) sample_rows),
       rs_cancelled = False, rs_truncated = (rq_maxResults sample_request \<noteq> 0 \<and> rq_maxResults sample_request < Suc (Suc 0)),
       rs_candidatesVisited = length sample_rows\<rparr>"
    using ExecuteSearch_top_n [OF lex_ordinal_total, of "\<lambda>n. False" _ sample_request ascii_table sample_rows, OF _ refl]
    by (simp add: sample_matched result_id_def result_of_def)
  moreover have "rq_sortField sample_request = SF_Size" "rq_descending sample_request" "rq_maxResults sample_request = 1"
    by (simp_all add: sample_request_def)
  ultimately show ?thesis
    by (simp add: sample_matched ranked_def sort_by_def ResultLess_def Let_def result_of_def cmp_u64_def)
qed

lemma mset_map_filter: "mset xs = mset ys \<Longrightarrow> mset (List.map_filter f xs) = mset (List.map_filter f ys)"
  unfolding map_filter_def by (metis mset_filter mset_map)

text \<open>
  C18. The answer does not depend on the order of enumeration. Two searches over the same candidates in
  different orders, one from the projection and one from the durable store for example, return the
  same list of results and the same truncated flag, whatever the cap, when neither is cancelled, the platform
  comparison is a total order, and the matched candidates differ in the pair of volume and file id. The last
  condition is needed: two matched rows with the same volume and id tie on every key, and come out as they came in.
\<close>

theorem ExecuteSearch_order_independent:
  assumes "ordinal_total cso" and "\<And>n. \<not> cancelled n" and "mset candidates = mset candidates'"
    and "distinct (map result_id (matched cso rq (core_accept ct cso rq False None) candidates))"
  shows "ExecuteSearch ct cso candidates rq cancelled = ExecuteSearch ct cso candidates' rq cancelled"
proof -
  let ?m = "matched cso rq (core_accept ct cso rq False None)"
  have perm: "mset (?m candidates) = mset (?m candidates')"
    using mset_map_filter [OF assms(3), of "core_accept ct cso rq False None"] by (simp add: matched_def)
  then have dist: "distinct (map result_id (?m candidates'))"
    using assms(4) by (metis mset_eq_imp_distinct_iff mset_map)
  have "ranked cso rq (?m candidates) = ranked cso rq (?m candidates')"
    using sort_by_unique [OF ResultLess_strict_weak [OF assms(1)] ResultLess_separates [OF assms(1,4)] perm]
    by (simp add: ranked_def)
  moreover have "length (?m candidates) = length (?m candidates')" "length candidates = length candidates'"
    using perm assms(3) by (metis size_mset)+
  moreover note ExecuteSearch_core [OF assms(1,2) assms(4)] ExecuteSearch_core [OF assms(1,2) dist]
  ultimately show ?thesis by simp
qed

theorem ExecuteSearch_order_independent_witness:
  "ExecuteSearch ascii_table lex_ordinal sample_rows sample_request (\<lambda>n. False)
   = ExecuteSearch ascii_table lex_ordinal (rev sample_rows) sample_request (\<lambda>n. False)"
  using ExecuteSearch_order_independent [OF lex_ordinal_total, of "\<lambda>n. False" sample_rows "rev sample_rows" sample_request ascii_table]
  by (simp add: sample_matched result_id_def result_of_def)

section \<open>Admission\<close>

text \<open>A row that the admission test refuses comes after the worst row kept.\<close>

lemma admits_worse:
  assumes "ordinal_total cso" "\<not> admits cso rq v worst" "view_of (c\<lparr>c_folder := cv_folder v\<rparr>) v"
  shows "ResultLess cso (rq_sortField rq) (rq_descending rq) worst (result_of cso rq c)"
proof -
  have f: "cv_name v = c_name c" "cv_sizeBytes v = c_sizeBytes c" "cv_modifiedTime v = c_modifiedTime c"
    "cv_createdTime v = c_createdTime c" "cv_allocatedSizeKnown v = c_allocatedSizeKnown c"
    "cv_allocatedSizeBytes v = c_allocatedSizeBytes c" using assms(3) by (auto simp: view_of_def)
  have flip: "CompareOrdinal16 cso l r < 0 \<longleftrightarrow> CompareOrdinal cso r l > 0"
    "0 < CompareOrdinal16 cso l r \<longleftrightarrow> CompareOrdinal cso r l < 0" for l r
    using cmp_okD(1) [OF cmp_ok_ordinal [OF assms(1), of id], of l r] cmp_okD(1) [OF cmp_ok_ordinal [OF assms(1), of id], of r l]
    by (simp_all add: CompareOrdinal16_def CompareOrdinal_def)
  have u: "cmp_u64 l r < 0 \<longleftrightarrow> l < r" "0 < cmp_u64 l r \<longleftrightarrow> r < l" "cmp_u64 l r = 0 \<longleftrightarrow> l = r" for l r
    by (auto simp: cmp_u64_def)
  note defs = admits_def ResultLess_def Let_def result_of_def f ClassifyMatchView_agrees flip not_le u
  show ?thesis
  proof (cases "rq_sortField rq")
    case SF_Relevance
    then show ?thesis using assms(2) by (auto simp: defs split: if_splits)
  next
    case SF_Filename
    then show ?thesis using assms(2) by (auto simp: defs split: if_splits)
  next
    case SF_AllocatedSize
    then show ?thesis using assms(2) by (auto simp: defs split: if_splits)
  qed (use assms(2) in \<open>auto simp: defs split: if_splits\<close>)
qed

lemma AdmitView_refuses:
  assumes "ordinal_total cso" "AdmitView cso rq v rs = (False, rs')" "\<not> rs_cancelled rs"
    and "view_of (c\<lparr>c_folder := cv_folder v\<rparr>) v"
  shows "rs' = rs\<lparr>rs_truncated := True\<rparr>" "rq_maxResults rq \<noteq> 0" "rq_maxResults rq \<le> length (rs_results rs)"
    "ResultLess cso (rq_sortField rq) (rq_descending rq) (hd (rs_results rs)) (result_of cso rq c)"
  using assms(2,3) admits_worse [OF assms(1) _ assms(4), of rq "hd (rs_results rs)"]
  by (auto simp: AdmitView_def split: if_splits)

lemma best_refuse:
  assumes "strict_weak lt" "is_heap lt xs" "best lt n M xs" "n \<le> length xs" "xs \<noteq> []" "lt (hd xs) x"
  shows "best lt n (add_mset x M) xs"
proof -
  have sub: "mset xs \<subseteq># M" using assms(3) by (simp add: best_def)
  have "\<not> lt x z" if "z \<in># mset xs" for z
    using shp.heap_top [OF assms(1,2), of z] strict_weak_trans [OF assms(1,6), of z] that by auto
  moreover have "add_mset x M - mset xs = add_mset x (M - mset xs)"
    by (rule multiset_eqI) (use mset_subset_eq_count [OF sub] in \<open>auto simp: Suc_diff_le\<close>)
  moreover have "mset xs \<subseteq># add_mset x M" by (rule subset_mset.order_trans [OF sub]) simp
  ultimately show ?thesis using assms(3,4) by (auto simp: best_def)
qed

lemma refused_inv:
  assumes "ordinal_total cso" "acc_inv cso rq items rs" "AdmitView cso rq v rs = (False, rs')" "\<not> rs_cancelled rs"
    and "view_of (c\<lparr>c_folder := cv_folder v\<rparr>) v"
  shows "acc_inv cso rq (items @ [result_of cso rq c]) rs'"
proof -
  note r = AdmitView_refuses [OF assms(1,3,4,5)]
  let ?lt = "ResultLess cso (rq_sortField rq) (rq_descending rq)"
  have inv: "is_heap ?lt (rs_results rs)" "best ?lt (rq_maxResults rq) (mset items) (rs_results rs)"
    using assms(2) r(2) by (auto simp: acc_inv_def)
  have "rs_results rs \<noteq> []" using r(2,3) by auto
  from best_refuse [OF ResultLess_strict_weak [OF assms(1)] inv r(3) this r(4)]
  have "best ?lt (rq_maxResults rq) (mset (items @ [result_of cso rq c])) (rs_results rs)" by simp
  moreover have "rq_maxResults rq \<le> length items"
    using inv(2) r(3) by (simp add: best_def)
  ultimately show ?thesis using inv r(1,2) by (simp add: acc_inv_def)
qed

text \<open>The rows added so far, by the call that follows an admitted view.\<close>

definition added :: "CharTable \<Rightarrow> ordinal \<Rightarrow> SearchRequest \<Rightarrow> (nat \<Rightarrow> bool) \<Rightarrow> Materializer option \<Rightarrow> Candidate list
    \<Rightarrow> SearchResponse" where
  "added ct cso rq cancelled m cs = foldl (\<lambda>rs c. snd (AddViewMatched ct cso rq cancelled m c rs)) empty_response cs"

text \<open>A materializer fills in the folder and nothing else, or fails.\<close>

definition fills_folder :: "Materializer option \<Rightarrow> bool" where
  "fills_folder m \<longleftrightarrow> (\<forall>f c c'. m = Some f \<longrightarrow> f c = Some c' \<longrightarrow> c'\<lparr>c_folder := c_folder c\<rparr> = c)"

lemma accept_fills:
  assumes "fills_folder m" "accept ct cso rq m e c = Some c'"
  shows "c'\<lparr>c_folder := f\<rparr> = c\<lparr>c_folder := f\<rparr>"
proof -
  have "c'\<lparr>c_folder := c_folder c\<rparr> = c"
    using assms by (cases m) (auto simp: accept_def fills_folder_def Let_def split: if_splits option.splits)
  then have "c\<lparr>c_folder := f\<rparr> = c'\<lparr>c_folder := c_folder c\<rparr>\<lparr>c_folder := f\<rparr>" by simp
  then show ?thesis by simp
qed

lemma accept_key:
  assumes "fills_folder m" "accept ct cso rq m e c = Some c'"
  shows "result_id (result_of cso rq c') = cand_key c"
proof -
  have "cand_key (x\<lparr>c_folder := []\<rparr>) = cand_key x" for x by (simp add: cand_key_def)
  then have "cand_key c' = cand_key c" using accept_fills [OF assms, of "[]"] by metis
  then show ?thesis by (simp add: result_id_def result_of_def cand_key_def)
qed

lemma matched_snoc:
  "matched cso rq acc (cs @ [c]) = matched cso rq acc cs @ (case acc c of None \<Rightarrow> [] | Some c' \<Rightarrow> [result_of cso rq c'])"
  by (simp add: matched_def map_filter_def split: option.split)

lemma matched_distinct:
  assumes "fills_folder m" "distinct (map cand_key cs)"
  shows "distinct (map result_id (matched cso rq (accept ct cso rq m e) cs))"
proof -
  have "set (map result_id (matched cso rq (accept ct cso rq m e) cs)) \<subseteq> set (map cand_key cs)" for cs
    by (induction cs) (auto simp: accept_key [OF assms(1)] split: option.splits)
  then show ?thesis using assms(2)
    by (induction cs) (auto simp: accept_key [OF assms(1)] split: option.splits)
qed

lemma AddViewMatched_inv:
  assumes "ordinal_total cso" "\<And>n. \<not> cancelled n" "acc_inv cso rq items rs" "\<not> rs_cancelled rs"
    and "AddViewMatched ct cso rq cancelled m c rs = (go, rs')"
  shows "acc_inv cso rq (items @ (case accept ct cso rq m True c of None \<Rightarrow> [] | Some c' \<Rightarrow> [result_of cso rq c'])) rs'"
    "\<not> rs_cancelled rs'"
    "accept ct cso rq m True c = None \<longrightarrow> rs_results rs' = rs_results rs \<and> rs_truncated rs' = rs_truncated rs"
  using assms(2-) push_result_inv [OF assms(1), of rq items "rs\<lparr>rs_candidatesVisited := rs_candidatesVisited rs + 1\<rparr>"]
  by (auto simp: AddViewMatched_def AddImpl_def Let_def result_of_def split: option.splits)

lemma added_inv:
  assumes "ordinal_total cso" "\<And>n. \<not> cancelled n"
  shows "acc_inv cso rq (matched cso rq (accept ct cso rq m True) cs) (added ct cso rq cancelled m cs)
    \<and> \<not> rs_cancelled (added ct cso rq cancelled m cs)"
proof (induction cs rule: rev_induct)
  case Nil
  then show ?case using acc_inv_empty by (simp add: added_def empty_response_def)
next
  case (snoc c cs)
  obtain go rs' where add: "AddViewMatched ct cso rq cancelled m c (added ct cso rq cancelled m cs) = (go, rs')" by fastforce
  then have "added ct cso rq cancelled m (cs @ [c]) = rs'" by (simp add: added_def)
  moreover note AddViewMatched_inv(1,2) [OF assms conjunct1 [OF snoc] conjunct2 [OF snoc] add]
  ultimately show ?case by (simp add: matched_snoc)
qed

text \<open>
  C6. Skipping a refused row never changes the results. After any sequence of rows given to \<open>AddViewMatched\<close>, when the
  admission test refuses the view of a further row, the final sorted list is the list that \<open>AddViewMatched\<close> on that
  row would have led to, for every sort field and direction. Refusing always sets the truncated flag; adding the row
  sets it exactly when the row passes the scope test and the materializer, so the flags agree for such a row, and a row
  that would have been dropped is still reported as left out. It is stated for searches that are not cancelled, a
  platform comparison that is a total order, a materializer that fills in the folder only or fails, and rows that
  differ in the pair of volume and file id; the counts of visited rows, which a skipped row does not enter, are not compared.
\<close>

theorem AdmitView_conservative:
  assumes "ordinal_total cso" and "\<And>n. \<not> cancelled n" and "fills_folder m"
    and "rs = added ct cso rq cancelled m cs"
    and "AdmitView cso rq v rs = (False, skipped)" and "view_of (c\<lparr>c_folder := cv_folder v\<rparr>) v"
    and "AddViewMatched ct cso rq cancelled m c rs = (go, processed)"
    and "distinct (map cand_key (cs @ [c]))"
  shows "rs_results (Finish cso rq skipped) = rs_results (Finish cso rq processed)
    \<and> rs_truncated skipped
    \<and> (rs_truncated processed \<longleftrightarrow> rs_truncated rs \<or> accept ct cso rq m True c \<noteq> None)"
proof -
  have inv: "acc_inv cso rq (matched cso rq (accept ct cso rq m True) cs) rs" and nc: "\<not> rs_cancelled rs"
    using added_inv [where ct = ct and rq = rq and m = m and cs = cs, OF assms(1,2)] assms(4) by auto
  note b = AddViewMatched_inv [OF assms(1,2) inv nc assms(7)]
  have rs': "skipped = rs\<lparr>rs_truncated := True\<rparr>" by (rule AdmitView_refuses(1) [OF assms(1,5) nc assms(6)])
  show ?thesis
  proof (cases "accept ct cso rq m True c")
    case None
    then show ?thesis using b(2,3) nc by (simp add: rs' Finish_def)
  next
    case (Some c')
    have "view_of (c'\<lparr>c_folder := cv_folder v\<rparr>) v" using accept_fills [OF assms(3) Some] assms(6) by simp
    note a = refused_inv [OF assms(1) inv assms(5) nc this]
    have b1: "acc_inv cso rq (matched cso rq (accept ct cso rq m True) cs @ [result_of cso rq c']) processed"
      using b(1) Some by simp
    have d: "distinct (map result_id (matched cso rq (accept ct cso rq m True) cs @ [result_of cso rq c']))"
      using matched_distinct [OF assms(3,8), of cso rq ct True] by (simp add: matched_snoc Some)
    show ?thesis
      using acc_inv_ranked [OF assms(1) a d] acc_inv_ranked [OF assms(1) b1 d] acc_inv_truncated [OF a]
        acc_inv_truncated [OF b1] b(2) nc Some by (simp add: rs' Finish_def)
  qed
qed

section \<open>Search by views\<close>

text \<open>The views that an enumeration yields for the owned candidates of the same rows.\<close>

definition rows_agree :: "Host \<Rightarrow> (CandidateView \<Rightarrow> Candidate option) \<Rightarrow> Materializer \<Rightarrow> CandidateView list \<Rightarrow> Candidate list \<Rightarrow> bool" where
  "rows_agree host mv m vs cs \<longleftrightarrow>
     list_all2 (\<lambda>v c. view_of c v \<and> folds_name (h_cso host) (c_name c) \<and> c_persistentIndexed c \<and> mv v = m c) vs cs"

lemma view_loop_core:
  assumes "list_all2 (\<lambda>v c. view_accept host ct rq mv v = core_accept ct (h_cso host) rq True (Some m) c) vs cs"
  shows "view_loop host ct rq mv cancelled vs rs =
    core_loop ct (h_cso host) rq True (Some m) cancelled (rs_candidatesVisited rs) cs rs"
  using assms
  by (induction vs cs arbitrary: rs rule: list_all2_induct) (simp_all add: Let_def split: option.split)

lemma parsed_accept:
  assumes "lower_fixed host" "rq_query rq = ParseQuery host (WithDefaults host) val" "rq_candidateFilter rq = None"
    "\<not> rq_candidateFilterRequiresFolder rq"
    and "view_of c v" "folds_name (h_cso host) (c_name c)" "c_persistentIndexed c" "mv v = m c"
  shows "view_accept host ct rq mv v = core_accept ct (h_cso host) rq True (Some m) c"
  using parsed_views [OF assms(1,5,6), of val] parsed_prefilter(1) [of host "WithDefaults host" val c] assms(2-4,7,8)
  by (cases "folder_needed rq")
    (auto simp: view_accept_def core_accept_def Let_def InScope_def folder_needed_def split: option.split)

text \<open>
  C5. Searching views is searching candidates. For a query parsed with the default filters, running the
  search over projection views gives the response, cancellation, flags and counts included, that the
  owning search gives on the candidates of the same rows, whatever the scope, cap and sort field,
  when the rows come from the durable index, materialization gives both the same candidate, and no
  extra filter is installed. Two conditions are on the platform: lowering leaves lower-case ASCII letters alone, and
  on the name of every row the ordinal comparison folds ASCII terms as the code's own folding does (\<open>folds_name\<close>),
  which a name with a long s or a Kelvin sign can break.
\<close>

theorem ExecuteSearchViews_agrees:
  assumes "lower_fixed host" and "rq_query rq = ParseQuery host (WithDefaults host) val"
    and "rq_candidateFilter rq = None" and "\<not> rq_candidateFilterRequiresFolder rq"
    and "rows_agree host mv m vs cs"
  shows "ExecuteSearchViews host ct vs rq mv cancelled = ExecuteSearchLazy ct (h_cso host) cs rq m cancelled"
proof -
  have "list_all2 (\<lambda>v c. view_accept host ct rq mv v = core_accept ct (h_cso host) rq True (Some m) c) vs cs"
    using assms(5) unfolding rows_agree_def
    by (rule list_all2_mono) (use parsed_accept [OF assms(1-4)] in blast)
  from view_loop_core [OF this, of cancelled empty_response] show ?thesis
    using parsed_compatible [OF assms(1), of val] assms(2)
    by (simp add: ExecuteSearchViews_def ExecuteSearchLazy_def empty_response_def)
qed

theorem ExecuteSearchViews_agrees_witness:
  "let host = sample_host 0 0;
       rq = sample_request\<lparr>rq_query := ParseQuery host (WithDefaults host) (wstr ''note'')\<rparr>
   in ExecuteSearchViews host ascii_table [view_from sample_candidate] rq (\<lambda>v. Some sample_candidate) (\<lambda>n. False)
      = ExecuteSearchLazy ascii_table (h_cso host) [sample_candidate] rq Some (\<lambda>n. False)"
  using ExecuteSearchViews_agrees [OF sample_host_lower, of
      "sample_request\<lparr>rq_query := ParseQuery (sample_host 0 0) (WithDefaults (sample_host 0 0)) (wstr ''note'')\<rparr>"
      0 0 "wstr ''note''" "\<lambda>v. Some sample_candidate" Some "[view_from sample_candidate]" "[sample_candidate]" ascii_table "\<lambda>n. False"]
    sample_folds [of 0 0] view_of_view_from [of sample_candidate]
  by (simp add: Let_def rows_agree_def sample_request_def) (simp add: sample_candidate_def)

section \<open>Reconstructed paths\<close>

text \<open>One step up: the entry has a parent other than itself, and the table has it.\<close>

definition parent_step :: "Candidate list \<Rightarrow> Candidate \<Rightarrow> Candidate \<Rightarrow> bool" where
  "parent_step entries c p \<longleftrightarrow> c_parentId c \<noteq> 0 \<and> c_parentId c \<noteq> c_id c
     \<and> by_id entries (c_volumeId c, c_parentId c) = Some p"

definition is_top :: "Candidate \<Rightarrow> bool" where
  "is_top c \<longleftrightarrow> c_parentId c = 0 \<or> c_parentId c = c_id c"

lemma climb_spec:
  assumes "cand_key current \<notin> set seen"
  shows "\<exists>cs. cs \<noteq> [] \<and> hd cs = current \<and> successively (parent_step entries) cs
    \<and> distinct (map cand_key cs) \<and> set (map cand_key cs) \<inter> set seen = {}
    \<and> rec_segments (climb entries seen current result) = rec_segments result @ map c_name cs
    \<and> (rec_complete (climb entries seen current result) \<longleftrightarrow> rec_complete result \<or> is_top (last cs))
    \<and> (is_top (last cs) \<or> (rec_unresolvedParentId (climb entries seen current result) = c_parentId (last cs)
         \<and> (case by_id entries (c_volumeId (last cs), c_parentId (last cs)) of None \<Rightarrow> True
            | Some p \<Rightarrow> cand_key p \<in> set (map cand_key cs) \<union> set seen)))"
  using assms
proof (induction entries seen current result rule: climb.induct)
  case (1 entries seen current result)
  let ?r = "result\<lparr>rec_segments := rec_segments result @ [c_name current]\<rparr>"
  show ?case
  proof (cases "is_top current")
    case True
    then show ?thesis
      using "1.prems" by (intro exI [of _ "[current]"], subst (1 2 3) climb.simps) (auto simp: is_top_def Let_def)
  next
    case False
    note nt = False
    show ?thesis
    proof (cases "by_id entries (c_volumeId current, c_parentId current)")
      case None
      then show ?thesis
        using "1.prems" nt by (intro exI [of _ "[current]"], subst (1 2 3) climb.simps) (auto simp: is_top_def Let_def)
    next
      case (Some p)
      have key: "cand_key p = (c_volumeId current, c_parentId current)" using by_id_Some [OF Some] by simp
      have unf: "climb entries seen current result = climb entries (cand_key current # seen) p ?r"
        using "1.prems" nt Some by (subst climb.simps) (simp add: is_top_def Let_def)
      show ?thesis
      proof (cases "cand_key p \<in> set (cand_key current # seen)")
        case True
        then have "climb entries (cand_key current # seen) p ?r = ?r\<lparr>rec_unresolvedParentId := c_id p\<rparr>"
          by (subst climb.simps) simp
        then show ?thesis
          using "1.prems" nt Some True key
          by (intro exI [of _ "[current]"]) (auto simp: unf is_top_def cand_key_def)
      next
        case False
        from "1.IH" [OF "1.prems" refl _ Some False] nt obtain cs where
          "cs \<noteq> []" "hd cs = p" "successively (parent_step entries) cs"
          "distinct (map cand_key cs)" "set (map cand_key cs) \<inter> set (cand_key current # seen) = {}"
          "rec_segments (climb entries (cand_key current # seen) p ?r) = rec_segments ?r @ map c_name cs"
          "rec_complete (climb entries (cand_key current # seen) p ?r) \<longleftrightarrow> rec_complete ?r \<or> is_top (last cs)"
          "is_top (last cs) \<or> (rec_unresolvedParentId (climb entries (cand_key current # seen) p ?r) = c_parentId (last cs)
             \<and> (case by_id entries (c_volumeId (last cs), c_parentId (last cs)) of None \<Rightarrow> True
                | Some p \<Rightarrow> cand_key p \<in> set (map cand_key cs) \<union> set (cand_key current # seen)))"
          by (auto simp: is_top_def)
        then show ?thesis
          using "1.prems" nt Some
          by (intro exI [of _ "current # cs"])
            (auto simp: unf is_top_def parent_step_def successively_Cons split: option.splits)
      qed
    qed
  qed
qed

text \<open>
  C26. Path reconstruction ends on every table, cyclic ones included, and is faithful. The segments are
  the names along a chain of parent steps from the entry upwards, root first, no entry twice. The path
  is complete exactly when the chain ends at an entry without a parent; otherwise the reported
  identity is the parent of the topmost segment, which is missing from the table or already on the chain.
\<close>

theorem ReconstructPath_chain:
  assumes "i < length entries"
  shows "\<exists>cs. cs \<noteq> [] \<and> hd cs = entries ! i \<and> successively (parent_step entries) cs \<and> distinct (map cand_key cs)
    \<and> rec_segments (ReconstructPath entries i) = rev (map c_name cs)
    \<and> (rec_complete (ReconstructPath entries i) \<longleftrightarrow> is_top (last cs))
    \<and> (is_top (last cs) \<or> (rec_unresolvedParentId (ReconstructPath entries i) = c_parentId (last cs)
         \<and> (case by_id entries (c_volumeId (last cs), c_parentId (last cs)) of None \<Rightarrow> True
            | Some p \<Rightarrow> cand_key p \<in> set (map cand_key cs))))"
  using climb_spec [of "entries ! i" "[]" entries "\<lparr>rec_segments = [], rec_complete = False, rec_unresolvedParentId = 0\<rparr>"] assms
  by (simp add: ReconstructPath_def Let_def cong: option.case_cong)

text \<open>Two folders that are each other's parents: the climb stops and reports the first one.\<close>

definition sample_cycle :: "Candidate list" where
  "sample_cycle = [sample_candidate\<lparr>c_id := 1, c_parentId := 2\<rparr>, sample_candidate\<lparr>c_id := 2, c_parentId := 1\<rparr>]"

theorem ReconstructPath_chain_witness:
  "\<not> rec_complete (ReconstructPath sample_cycle 0) \<and> rec_unresolvedParentId (ReconstructPath sample_cycle 0) = 1
   \<and> (\<exists>cs. rec_segments (ReconstructPath sample_cycle 0) = rev (map c_name cs) \<and> successively (parent_step sample_cycle) cs)"
proof -
  have "\<exists>cs. rec_segments (ReconstructPath sample_cycle 0) = rev (map c_name cs) \<and> successively (parent_step sample_cycle) cs"
    using ReconstructPath_chain [of 0 sample_cycle] by (auto simp: sample_cycle_def)
  moreover have "\<not> rec_complete (ReconstructPath sample_cycle 0)" "rec_unresolvedParentId (ReconstructPath sample_cycle 0) = 1"
    by (simp_all add: ReconstructPath_def sample_cycle_def climb.simps by_id_def cand_key_def sample_candidate_def)
  ultimately show ?thesis by blast
qed

theorem AdmitView_conservative_witness:
  "let big = sample_candidate\<lparr>c_id := 3, c_sizeBytes := 20\<rparr>; c = sample_candidate\<lparr>c_id := 1, c_sizeBytes := 10\<rparr>;
       rs = added ascii_table lex_ordinal sample_request (\<lambda>n. False) None [big];
       skipped = snd (AdmitView lex_ordinal sample_request (view_from c) rs);
       processed = snd (AddViewMatched ascii_table lex_ordinal sample_request (\<lambda>n. False) None c rs)
   in \<not> fst (AdmitView lex_ordinal sample_request (view_from c) rs)
      \<and> rs_results (Finish lex_ordinal sample_request skipped) = rs_results (Finish lex_ordinal sample_request processed)
      \<and> rs_truncated skipped \<and> rs_truncated processed"
proof -
  let ?big = "sample_candidate\<lparr>c_id := 3, c_sizeBytes := 20\<rparr>" and ?c = "sample_candidate\<lparr>c_id := 1, c_sizeBytes := 10\<rparr>"
  let ?rs = "added ascii_table lex_ordinal sample_request (\<lambda>n. False) None [?big]"
  have acc: "accept ascii_table lex_ordinal sample_request None True c = Some c" for c
    by (simp add: accept_def sample_request_def InScope_def folder_needed_def Let_def)
  have one: "rq_maxResults sample_request = 1" by (simp add: sample_request_def)
  have "rs_results ?rs = [result_of lex_ordinal sample_request ?big]" "\<not> rs_cancelled ?rs"
    by (simp_all add: added_def AddViewMatched_def AddImpl_def acc push_result_def empty_response_def push_heap_def
        sift_up.simps Let_def result_of_def one)
  then have no: "AdmitView lex_ordinal sample_request (view_from ?c) ?rs = (False, ?rs\<lparr>rs_truncated := True\<rparr>)"
    by (simp add: AdmitView_def admits_def Let_def sample_request_def folder_needed_def sample_query_def empty_Query_def
        view_from_def cmp_u64_def result_of_def)
  have v: "view_of (?c\<lparr>c_folder := cv_folder (view_from ?c)\<rparr>) (view_from ?c)" by (simp add: view_of_def view_from_def)
  obtain go processed where add: "AddViewMatched ascii_table lex_ordinal sample_request (\<lambda>n. False) None ?c ?rs = (go, processed)"
    by fastforce
  have "fills_folder None" "distinct (map cand_key ([?big] @ [?c]))" by (simp_all add: fills_folder_def cand_key_def)
  from AdmitView_conservative [OF lex_ordinal_total _ this(1) refl no v add this(2)] no add show ?thesis
    by (simp add: Let_def acc)
qed

text \<open>
  A cancelled search reports no rows: whenever the response says cancelled, the result list is
  empty, both for the owning search and for the search over views.
\<close>

theorem cancelled_search_is_empty:
  "(rs_cancelled (ExecuteSearch ct cso candidates rq cancelled) \<longrightarrow>
     rs_results (ExecuteSearch ct cso candidates rq cancelled) = [])
   \<and> (rs_cancelled (ExecuteSearchViews host ct views rq mv cancelled) \<longrightarrow>
     rs_results (ExecuteSearchViews host ct views rq mv cancelled) = [])"
proof -
  have "rs_results (core_loop ct cso rq mutable m cancelled i cs rs) = []"
    if "\<not> rs_cancelled rs" "rs_cancelled (core_loop ct cso rq mutable m cancelled i cs rs)" for mutable m i cs rs
    using that by (induction cs arbitrary: i rs) (auto simp: Let_def split: if_splits option.splits)
  moreover have "rs_results (view_loop host ct rq mv cancelled vs rs) = []"
    if "\<not> rs_cancelled rs" "rs_cancelled (view_loop host ct rq mv cancelled vs rs)" for vs rs
    using that by (induction vs arbitrary: rs) (auto simp: Let_def split: if_splits option.splits)
  ultimately show ?thesis
    by (auto simp: ExecuteSearch_def ExecuteSearchViews_def empty_response_def)
qed

theorem cancelled_search_is_empty_witness:
  "rs_results (ExecuteSearch ascii_table lex_ordinal sample_rows sample_request (\<lambda>n. True)) = []"
  using cancelled_search_is_empty [of ascii_table lex_ordinal sample_rows sample_request "\<lambda>n. True"]
  by (simp add: ExecuteSearch_def sample_rows_def)

end
