(* ===== verification/History.thy ===== *)
theory History
  imports Search
begin

text \<open>
  The search history (\<open>search/src/History.cpp\<close>): recording with deduplication to the front, the text format
  of the history file, and the replacement of the file.

  The conversions between UTF-16 and UTF-8 and the file system are Win32 services. The conversions are arguments
  (\<open>TextCodec\<close>, the two \<open>CP_UTF8\<close> calls with their error flags); the outcome of every file system
  call of one \<open>Save\<close> is an argument (\<open>SaveIo\<close>), and the state is the content of the history file.
\<close>

section \<open>State and conversions\<close>

record SearchHistory =
  sh_recordingEnabled :: bool
  sh_queries :: "u16string list"
  sh_timestamps :: "u64 list"

record TextCodec =
  tc_MultiByteToWideChar :: "byte list \<Rightarrow> u16string option"
  tc_WideCharToMultiByte :: "u16string \<Rightarrow> byte list option"

definition kMaxIndexedSearchQueryLengthChars :: nat where "kMaxIndexedSearchQueryLengthChars = 4095"

definition kMaxHistoryLineBytes :: nat where
  "kMaxHistoryLineBytes = kMaxIndexedSearchQueryLengthChars * 4 + 64"

definition EqualsCaseInsensitive :: "ordinal \<Rightarrow> u16string \<Rightarrow> u16string \<Rightarrow> bool" where
  "EqualsCaseInsensitive cso left right = (if length left \<noteq> length right then False else cso left right = 2)"

text \<open>The index of the first match, \<open>None\<close> for the end iterator.\<close>

definition FindCaseInsensitive :: "ordinal \<Rightarrow> u16string list \<Rightarrow> u16string \<Rightarrow> nat option" where
  "FindCaseInsensitive cso queries query = find_first (\<lambda>entry. EqualsCaseInsensitive cso entry query) queries"

definition Utf8ToWide :: "TextCodec \<Rightarrow> byte list \<Rightarrow> u16string option" where
  "Utf8ToWide tc utf8 =
     (if utf8 = [] then Some []
      else if int (length utf8) > 2147483647 then None
      else tc_MultiByteToWideChar tc utf8)"

definition WideToUtf8 :: "TextCodec \<Rightarrow> u16string \<Rightarrow> byte list option" where
  "WideToUtf8 tc wide =
     (if wide = [] then Some []
      else if int (length wide) > 2147483647 then None
      else tc_WideCharToMultiByte tc wide)"

section \<open>Recording\<close>

definition erase_at :: "nat \<Rightarrow> 'a list \<Rightarrow> 'a list" where
  "erase_at i xs = take i xs @ drop (Suc i) xs"

definition resize_to :: "'a \<Rightarrow> nat \<Rightarrow> 'a list \<Rightarrow> 'a list" where
  "resize_to z n xs = take n xs @ replicate (n - length xs) z"

text \<open>\<open>nowSeconds\<close> is the reading of the system clock, in seconds since the epoch.\<close>

definition RecordQuery :: "ordinal \<Rightarrow> u64 \<Rightarrow> u16string \<Rightarrow> nat \<Rightarrow> SearchHistory \<Rightarrow> bool \<times> SearchHistory" where
  "RecordQuery cso nowSeconds query limit h =
     (if \<not> sh_recordingEnabled h \<or> query = [] then (False, h)
      else if length query > kMaxIndexedSearchQueryLengthChars then (False, h)
      else
        let h1 = (case FindCaseInsensitive cso (sh_queries h) query of
                    None \<Rightarrow> h
                  | Some index \<Rightarrow> h\<lparr>sh_queries := erase_at index (sh_queries h),
                                    sh_timestamps := erase_at index (sh_timestamps h)\<rparr>);
            h2 = h1\<lparr>sh_queries := query # sh_queries h1, sh_timestamps := nowSeconds # sh_timestamps h1\<rparr>
        in (True, if length (sh_queries h2) > limit
                  then h2\<lparr>sh_queries := resize_to [] limit (sh_queries h2),
                          sh_timestamps := resize_to 0 limit (sh_timestamps h2)\<rparr>
                  else h2))"

section \<open>The history file\<close>

text \<open>\<open>operator<<\<close> of an unsigned integer, and \<open>std::stoull\<close>: \<open>None\<close> stands for its exceptions.\<close>

fun dec_digits :: "nat \<Rightarrow> byte list" where
  "dec_digits n = (if n < 10 then [of_nat (48 + n)] else dec_digits (n div 10) @ [of_nat (48 + n mod 10)])"

declare dec_digits.simps [simp del]

definition stoull_digits :: "u16string \<Rightarrow> nat option" where
  "stoull_digits s =
     (let ds = takeWhile (\<lambda>c. 48 \<le> c \<and> c \<le> 57) s;
          v = foldl (\<lambda>acc c. acc * 10 + (unat c - 48)) 0 ds
      in if ds = [] \<or> v \<ge> 2 ^ 64 then None else Some v)"

definition stoull :: "(u16 \<Rightarrow> bool) \<Rightarrow> u16string \<Rightarrow> u64 option" where
  "stoull iswspace s =
     (case dropWhile iswspace s of
        [] \<Rightarrow> None
      | c # cs \<Rightarrow>
          if c = 45 then map_option (\<lambda>v. - of_nat v) (stoull_digits cs)
          else if c = 43 then map_option of_nat (stoull_digits cs)
          else map_option of_nat (stoull_digits (c # cs)))"

text \<open>The lines \<open>std::getline\<close> delivers: what follows the last newline counts unless it is empty.\<close>

function getlines :: "byte list \<Rightarrow> byte list list" where
  "getlines bs =
     (if bs = [] then []
      else takeWhile (\<lambda>b. b \<noteq> 10) bs # getlines (tl (dropWhile (\<lambda>b. b \<noteq> 10) bs)))"
  by pat_completeness auto
termination
  by (relation "measure length") (auto simp: less_Suc_eq_le length_dropWhile_le le_trans [OF diff_le_self] neq_Nil_conv)

declare getlines.simps [simp del]

definition load_line :: "Host \<Rightarrow> TextCodec \<Rightarrow> byte list \<Rightarrow> SearchHistory \<Rightarrow> SearchHistory" where
  "load_line host tc line0 h =
     (let line = (if line0 \<noteq> [] \<and> last line0 = 13 then butlast line0 else line0) in
      if length line > kMaxHistoryLineBytes then h
      else case Utf8ToWide tc line of
        None \<Rightarrow> h
      | Some wideLine \<Rightarrow>
          if wideLine = [] then h
          else
            let (timestamp, query) =
                  (case find_first (\<lambda>c. c = 9) wideLine of
                     None \<Rightarrow> (0, wideLine)
                   | Some tab \<Rightarrow> (case stoull (h_iswspace host) (take tab wideLine) of None \<Rightarrow> 0 | Some t \<Rightarrow> t,
                                  drop (tab + 1) wideLine))
            in if length query \<le> kMaxIndexedSearchQueryLengthChars \<and> query \<noteq> []
                  \<and> FindCaseInsensitive (h_cso host) (sh_queries h) query = None
               then h\<lparr>sh_queries := sh_queries h @ [query], sh_timestamps := sh_timestamps h @ [timestamp]\<rparr>
               else h)"

text \<open>
  The input is \<open>None\<close> when the file does not open, otherwise the bytes it delivers and whether the stream
  ended bad.
\<close>

definition Load :: "Host \<Rightarrow> TextCodec \<Rightarrow> (byte list \<times> bool) option \<Rightarrow> SearchHistory \<Rightarrow> bool \<times> SearchHistory" where
  "Load host tc input h0 =
     (let h = h0\<lparr>sh_queries := [], sh_timestamps := []\<rparr> in
      case input of
        None \<Rightarrow> (True, h)
      | Some (content, bad) \<Rightarrow> (\<not> bad, fold (load_line host tc) (getlines content) h))"

text \<open>
  The file system calls of one \<open>Save\<close>, in order: whether the path is empty, whether the parent directory
  exists or could be created, whether the temporary name and then its stream were obtained, whether
  the stream is still good after line \<open>i\<close>, after closing, and whether the final rename succeeded.
\<close>

record SaveIo =
  io_path_empty :: bool
  io_create_directories :: bool
  io_GetTempFileName :: bool
  io_open :: bool
  io_write :: "nat \<Rightarrow> bool"
  io_close :: bool
  io_MoveFileEx :: bool

text \<open>The write loop: the bytes of the temporary file, or \<open>None\<close> for a failing exit.\<close>

function save_loop :: "TextCodec \<Rightarrow> (nat \<Rightarrow> bool) \<Rightarrow> SearchHistory \<Rightarrow> nat \<Rightarrow> byte list \<Rightarrow> byte list option" where
  "save_loop tc wr h index out =
     (if index < length (sh_queries h) then
        let query = sh_queries h ! index in
        if index \<ge> length (sh_timestamps h) \<or> query = [] \<or> length query > kMaxIndexedSearchQueryLengthChars then None
        else case WideToUtf8 tc query of
          None \<Rightarrow> None
        | Some encoded \<Rightarrow>
            if \<not> wr index then None
            else save_loop tc wr h (index + 1)
                   (out @ dec_digits (unat (sh_timestamps h ! index)) @ [9] @ encoded @ [10])
      else Some out)"
  by pat_completeness auto
termination
  by (relation "measure (\<lambda>(tc, wr, h, index, out). length (sh_queries h) - index)") auto

declare save_loop.simps [simp del]

definition Save :: "TextCodec \<Rightarrow> SaveIo \<Rightarrow> SearchHistory \<Rightarrow> byte list option \<Rightarrow> bool \<times> byte list option" where
  "Save tc io h file =
     (if io_path_empty io then (False, file)
      else if \<not> io_create_directories io then (False, file)
      else if \<not> io_GetTempFileName io then (False, file)
      else if \<not> io_open io then (False, file)
      else case save_loop tc (io_write io) h 0 [] of
        None \<Rightarrow> (False, file)
      | Some content \<Rightarrow>
          if \<not> io_close io then (False, file)
          else if \<not> io_MoveFileEx io then (False, file)
          else (True, Some content))"

definition Clear :: "bool \<Rightarrow> SearchHistory \<Rightarrow> byte list option \<Rightarrow> bool \<times> SearchHistory \<times> byte list option" where
  "Clear removed h file = (removed, h\<lparr>sh_queries := [], sh_timestamps := []\<rparr>, if removed then None else file)"

definition Record :: "ordinal \<Rightarrow> TextCodec \<Rightarrow> SaveIo \<Rightarrow> u64 \<Rightarrow> u16string \<Rightarrow> nat \<Rightarrow> SearchHistory \<Rightarrow> byte list option \<Rightarrow>
    bool \<times> SearchHistory \<times> byte list option" where
  "Record cso tc io nowSeconds query limit h file =
     (if length query > kMaxIndexedSearchQueryLengthChars then (False, h, file)
      else let (recorded, h') = RecordQuery cso nowSeconds query limit h in
        if \<not> recorded then (True, h', file)
        else let (saved, file') = Save tc io h' file in (saved, h', file'))"

section \<open>Decimal numbers\<close>

definition wide :: "byte list \<Rightarrow> u16string" where
  "wide bs = map ucast bs"

definition dec_value :: "u16string \<Rightarrow> nat" where
  "dec_value ds = foldl (\<lambda>acc c. acc * 10 + (unat c - 48)) 0 ds"

lemma digit_char: "k < 10 \<Longrightarrow> unat (ucast (of_nat (48 + k) :: byte) :: u16) = 48 + k"
  by (simp only: unsigned_ucast_eq unat_of_nat) (simp add: take_bit_nat_def)

lemma digit_bounds: "k < 10 \<Longrightarrow> (48 :: u16) \<le> ucast (of_nat (48 + k) :: byte) \<and> ucast (of_nat (48 + k) :: byte) \<le> (57 :: u16)"
  unfolding word_le_nat_alt using digit_char [of k] by simp

lemma dec_digits_value: "dec_value (wide (dec_digits n)) = n"
proof (induction n rule: dec_digits.induct)
  case (1 n)
  have "dec_value (xs @ [c]) = dec_value xs * 10 + (unat c - 48)" for xs c by (simp add: dec_value_def)
  then show ?case
    using 1 digit_char [of n] digit_char [of "n mod 10"]
    by (subst dec_digits.simps) (auto simp: wide_def dec_value_def simp del: of_nat_add)
qed

lemma dec_digits_digits: "c \<in> set (wide (dec_digits n)) \<Longrightarrow> 48 \<le> c \<and> c \<le> 57"
proof (induction n rule: dec_digits.induct)
  case (1 n)
  then show ?case
    using digit_bounds [of n] digit_bounds [of "n mod 10"]
    by (subst (asm) (2) dec_digits.simps) (auto simp: wide_def simp del: of_nat_add split: if_splits)
qed

lemma dec_digits_nonempty: "dec_digits n \<noteq> []"
  by (subst dec_digits.simps) simp

text \<open>The decimal digits are not white space for the platform.\<close>

definition digits_plain :: "(u16 \<Rightarrow> bool) \<Rightarrow> bool" where
  "digits_plain iswspace \<longleftrightarrow> (\<forall>c. 48 \<le> c \<and> c \<le> 57 \<longrightarrow> \<not> iswspace c)"

lemma stoull_dec:
  assumes "digits_plain iswspace"
  shows "stoull iswspace (wide (dec_digits (unat t))) = Some t"
proof -
  obtain c cs where c: "wide (dec_digits (unat t)) = c # cs"
    using dec_digits_nonempty [of "unat t"] by (cases "dec_digits (unat t)") (auto simp: wide_def)
  have d: "\<forall>x \<in> set (c # cs). 48 \<le> x \<and> x \<le> 57" using dec_digits_digits [of _ "unat t"] c by auto
  then have plain: "\<not> iswspace c" "c \<noteq> 45" "c \<noteq> 43" using assms by (auto simp: digits_plain_def)
  have tw: "takeWhile (\<lambda>c. 48 \<le> c \<and> c \<le> 57) (c # cs) = c # cs" using d by (simp add: takeWhile_eq_all_conv)
  have "stoull_digits (c # cs) = Some (unat t)"
    unfolding stoull_digits_def tw Let_def using dec_digits_value [of "unat t"] c by (simp add: dec_value_def not_le)
  then show ?thesis using plain by (simp add: stoull_def c)
qed

section \<open>Deduplication\<close>

lemma EqualsCaseInsensitive_equiv:
  assumes "ordinal_total cso"
  shows "EqualsCaseInsensitive cso a a" "EqualsCaseInsensitive cso a b \<longleftrightarrow> EqualsCaseInsensitive cso b a"
    "EqualsCaseInsensitive cso a b \<Longrightarrow> EqualsCaseInsensitive cso b c \<Longrightarrow> EqualsCaseInsensitive cso a c"
proof -
  have r: "cso l r = 1 \<or> cso l r = 2 \<or> cso l r = 3" "cso l r = 1 \<longleftrightarrow> cso r l = 3"
    and t: "cso l m \<le> 2 \<Longrightarrow> cso m r \<le> 2 \<Longrightarrow> cso l r \<le> 2" for l m r
    using assms unfolding ordinal_total_def by blast+
  have refl: "cso l l = 2" for l using r [of l l] by auto
  have sym: "cso l r = 2 \<Longrightarrow> cso r l = 2" for l r using r [of l r] r [of r l] by auto
  have trans: "cso l m = 2 \<Longrightarrow> cso m q = 2 \<Longrightarrow> cso l q = 2" for l m q
    using t [of l m q] t [of q m l] sym [of l m] sym [of m q] r [of l q] r [of q l] by auto
  show "EqualsCaseInsensitive cso a a" by (simp add: EqualsCaseInsensitive_def refl)
  show "EqualsCaseInsensitive cso a b \<longleftrightarrow> EqualsCaseInsensitive cso b a"
    using sym by (auto simp: EqualsCaseInsensitive_def)
  show "EqualsCaseInsensitive cso a b \<Longrightarrow> EqualsCaseInsensitive cso b c \<Longrightarrow> EqualsCaseInsensitive cso a c"
    using trans by (auto simp: EqualsCaseInsensitive_def split: if_splits)
qed

text \<open>
  The invariant of the two parallel vectors: equally long, no query empty or too long, no two
  queries equal up to case.
\<close>

definition query_ok :: "u16string \<Rightarrow> bool" where
  "query_ok q \<longleftrightarrow> q \<noteq> [] \<and> length q \<le> kMaxIndexedSearchQueryLengthChars"

definition history_ok :: "ordinal \<Rightarrow> SearchHistory \<Rightarrow> bool" where
  "history_ok cso h \<longleftrightarrow> length (sh_queries h) = length (sh_timestamps h) \<and> list_all query_ok (sh_queries h)
     \<and> sorted_wrt (\<lambda>a b. \<not> EqualsCaseInsensitive cso a b) (sh_queries h)"

definition history_entries :: "SearchHistory \<Rightarrow> (u16string \<times> u64) list" where
  "history_entries h = zip (sh_queries h) (sh_timestamps h)"

lemma find_first_None: "find_first P xs = None \<longleftrightarrow> (\<forall>x \<in> set xs. \<not> P x)"
  by (simp add: find_first_def find_None_iff all_set_conv_all_nth)

lemma find_first_Some: "find_first P xs = Some i \<Longrightarrow> i < length xs \<and> P (xs ! i) \<and> (\<forall>j < i. \<not> P (xs ! j))"
  by (auto simp: find_first_def find_Some_iff)

lemma find_first_intro: "i < length xs \<Longrightarrow> P (xs ! i) \<Longrightarrow> (\<And>j. j < i \<Longrightarrow> \<not> P (xs ! j)) \<Longrightarrow> find_first P xs = Some i"
  unfolding find_first_def by (auto simp: find_Some_iff intro!: exI [of _ i])

lemma filter_all_zip: "\<forall>x \<in> set xs. \<not> P x \<Longrightarrow> filter (\<lambda>e. \<not> P (fst e)) (zip xs ys) = zip xs ys"
  by (auto simp: filter_id_conv dest: set_zip_leftD)

lemma erase_at_filter:
  assumes "find_first P xs = Some i" "sorted_wrt (\<lambda>a b. \<not> (P a \<and> P b)) xs" "length xs = length ys"
  shows "erase_at i xs = filter (\<lambda>x. \<not> P x) xs"
    "zip (erase_at i xs) (erase_at i ys) = filter (\<lambda>e. \<not> P (fst e)) (zip xs ys)"
proof -
  note f = find_first_Some [OF assms(1)]
  have split: "xs = take i xs @ xs ! i # drop (Suc i) xs" "ys = take i ys @ ys ! i # drop (Suc i) ys"
    using f assms(3) by (simp_all add: id_take_nth_drop)
  have before: "\<forall>x \<in> set (take i xs). \<not> P x" using f by (auto simp: in_set_conv_nth)
  have "sorted_wrt (\<lambda>a b. \<not> (P a \<and> P b)) (take i xs @ xs ! i # drop (Suc i) xs)" using assms(2) split(1) by simp
  then have behind: "\<forall>x \<in> set (drop (Suc i) xs). \<not> P x" using f by (auto simp: sorted_wrt_append)
  have "filter (\<lambda>x. \<not> P x) (take i xs @ xs ! i # drop (Suc i) xs) = erase_at i xs"
    using before behind f by (simp add: erase_at_def filter_id_conv)
  then show "erase_at i xs = filter (\<lambda>x. \<not> P x) xs" using split(1) by simp
  have z: "zip xs ys = zip (take i xs) (take i ys) @ (xs ! i, ys ! i) # zip (drop (Suc i) xs) (drop (Suc i) ys)"
    using split assms(3) f by (metis (no_types, lifting) length_take zip_Cons_Cons zip_append)
  have "filter (\<lambda>e. \<not> P (fst e)) (zip (take i xs) (take i ys)) = zip (take i xs) (take i ys)"
    "filter (\<lambda>e. \<not> P (fst e)) (zip (drop (Suc i) xs) (drop (Suc i) ys)) = zip (drop (Suc i) xs) (drop (Suc i) ys)"
    using before behind by (simp_all add: filter_all_zip)
  then show "zip (erase_at i xs) (erase_at i ys) = filter (\<lambda>e. \<not> P (fst e)) (zip xs ys)"
    using f assms(3) by (simp add: z erase_at_def)
qed

lemma resize_to_take: "n \<le> length xs \<Longrightarrow> resize_to z n xs = take n xs"
  by (simp add: resize_to_def)

lemma RecordQuery_cases:
  assumes "ordinal_total cso" "history_ok cso h" "RecordQuery cso now q limit h = (True, h')"
  shows "query_ok q" "sh_recordingEnabled h' = sh_recordingEnabled h"
    "sh_queries h' = take limit (q # filter (\<lambda>e. \<not> EqualsCaseInsensitive cso e q) (sh_queries h))"
    "history_entries h' = take limit ((q, now) # filter (\<lambda>e. \<not> EqualsCaseInsensitive cso (fst e) q) (history_entries h))"
    "length (sh_queries h') = length (sh_timestamps h')"
proof -
  let ?P = "\<lambda>e. EqualsCaseInsensitive cso e q"
  note eq = EqualsCaseInsensitive_equiv [OF assms(1)]
  have len: "length (sh_queries h) = length (sh_timestamps h)" using assms(2) by (simp add: history_ok_def)
  have sw: "sorted_wrt (\<lambda>a b. \<not> (?P a \<and> ?P b)) (sh_queries h)"
    by (rule sorted_wrt_mono_rel [where P = "\<lambda>a b. \<not> EqualsCaseInsensitive cso a b"])
      (use assms(2) eq in \<open>auto simp: history_ok_def\<close>)
  have guards: "sh_recordingEnabled h" "query_ok q"
    using assms(3) by (auto simp: RecordQuery_def query_ok_def split: if_splits)
  define qs ts where "qs = filter (\<lambda>e. \<not> ?P e) (sh_queries h)"
    and "ts = (case FindCaseInsensitive cso (sh_queries h) q of None \<Rightarrow> sh_timestamps h
               | Some i \<Rightarrow> erase_at i (sh_timestamps h))"
  have erased: "(case FindCaseInsensitive cso (sh_queries h) q of None \<Rightarrow> sh_queries h
      | Some i \<Rightarrow> erase_at i (sh_queries h)) = qs"
    "zip qs ts = filter (\<lambda>e. \<not> ?P (fst e)) (history_entries h)" "length qs = length ts"
  proof -
    show e1: "(case FindCaseInsensitive cso (sh_queries h) q of None \<Rightarrow> sh_queries h
      | Some i \<Rightarrow> erase_at i (sh_queries h)) = qs"
      using erase_at_filter(1) [OF _ sw len] find_first_None [of ?P "sh_queries h"]
      by (auto simp: FindCaseInsensitive_def qs_def filter_id_conv split: option.splits)
    then show "zip qs ts = filter (\<lambda>e. \<not> ?P (fst e)) (history_entries h)"
      using erase_at_filter(2) [OF _ sw len] find_first_None [of ?P "sh_queries h"]
        filter_all_zip [of "sh_queries h" ?P "sh_timestamps h"]
      by (auto simp: FindCaseInsensitive_def ts_def history_entries_def split: option.splits)
    show "length qs = length ts"
      unfolding e1 [symmetric] ts_def using len by (simp add: erase_at_def split: option.split)
  qed
  have h': "h' = h\<lparr>sh_queries := take limit (q # qs), sh_timestamps := take limit (now # ts)\<rparr>"
    using assms(3) guards erased(1,3)
    by (auto simp: RecordQuery_def query_ok_def Let_def ts_def resize_to_take split: option.splits if_splits)
  show "query_ok q" by (rule guards)
  show "sh_recordingEnabled h' = sh_recordingEnabled h"
    "sh_queries h' = take limit (q # filter (\<lambda>e. \<not> ?P e) (sh_queries h))" by (simp_all add: h' qs_def)
  show "history_entries h' = take limit ((q, now) # filter (\<lambda>e. \<not> ?P (fst e)) (history_entries h))"
    using erased(2) by (simp add: history_entries_def h' take_zip [symmetric])
  show "length (sh_queries h') = length (sh_timestamps h')" using erased(3) by (simp add: h')
qed

lemma RecordQuery_ok:
  assumes "ordinal_total cso" "history_ok cso h" "RecordQuery cso now q limit h = (True, h')"
  shows "history_ok cso h'"
proof -
  note r = RecordQuery_cases [OF assms]
  let ?qs = "q # filter (\<lambda>e. \<not> EqualsCaseInsensitive cso e q) (sh_queries h)"
  have "sorted_wrt (\<lambda>a b. \<not> EqualsCaseInsensitive cso a b) ?qs" "list_all query_ok ?qs"
    using assms(2) r(1) EqualsCaseInsensitive_equiv(2) [OF assms(1)]
    by (auto simp: history_ok_def sorted_wrt_filter list_all_iff)
  moreover have "list_all query_ok (take limit ?qs)" using calculation(2) by (metis list_all_iff in_set_takeD)
  ultimately show ?thesis using r(5) unfolding history_ok_def r(3) by (simp add: sorted_wrt_take)
qed

section \<open>Saving and loading\<close>

text \<open>
  What the format relies on from the UTF-8 conversions: at most three bytes for a unit, newline and
  carriage return bytes only for those characters, and that decoding an encoded text behind ASCII characters gives
  the characters and the text.
\<close>

definition codec_ok :: "TextCodec \<Rightarrow> bool" where
  "codec_ok tc \<longleftrightarrow> (\<forall>w b. tc_WideCharToMultiByte tc w = Some b \<longrightarrow>
     length b \<le> 3 * length w \<and> (10 \<in> set b \<longrightarrow> 10 \<in> set w) \<and> (w \<noteq> [] \<longrightarrow> b \<noteq> [] \<and> (last b = 13 \<longrightarrow> last w = 13))
     \<and> (\<forall>a. (\<forall>c \<in> set a. c < 128) \<longrightarrow> tc_MultiByteToWideChar tc (a @ b) = Some (wide a @ w)))"

definition plain_query :: "u16string \<Rightarrow> bool" where
  "plain_query q \<longleftrightarrow> 10 \<notin> set q \<and> last q \<noteq> 13"

definition history_line :: "TextCodec \<Rightarrow> u16string \<times> u64 \<Rightarrow> byte list" where
  "history_line tc e = dec_digits (unat (snd e)) @ [9] @ the (WideToUtf8 tc (fst e))"

lemma save_loop_content:
  "save_loop tc wr h index out = Some r \<Longrightarrow>
   r = out @ concat (map (\<lambda>e. history_line tc e @ [10]) (drop index (history_entries h)))
   \<and> (\<forall>e \<in> set (drop index (history_entries h)). WideToUtf8 tc (fst e) \<noteq> None)"
proof (induction tc wr h index out rule: save_loop.induct)
  case (1 tc wr h index out)
  show ?case
  proof (cases "index < length (sh_queries h)")
    case True
    then obtain b where b: "index < length (sh_timestamps h)" "WideToUtf8 tc (sh_queries h ! index) = Some b"
      and rest: "save_loop tc wr h (index + 1) (out @ dec_digits (unat (sh_timestamps h ! index)) @ [9] @ b @ [10]) = Some r"
      and ok: "sh_queries h ! index \<noteq> []" "length (sh_queries h ! index) \<le> kMaxIndexedSearchQueryLengthChars" "wr index"
      using "1.prems" by (subst (asm) save_loop.simps) (auto simp: Let_def split: if_splits option.splits)
    have "drop index (history_entries h) = (sh_queries h ! index, sh_timestamps h ! index) # drop (index + 1) (history_entries h)"
      using True b(1) by (simp add: history_entries_def Cons_nth_drop_Suc [symmetric])
    then show ?thesis
      using "1.IH" [OF True refl _ b(2) _ rest] b ok by (simp add: history_line_def)
  next
    case False
    then have "drop index (history_entries h) = []" by (simp add: history_entries_def)
    then show ?thesis using "1.prems" False by (subst (asm) save_loop.simps) simp
  qed
qed

lemma getlines_concat: "(\<And>l. l \<in> set ls \<Longrightarrow> 10 \<notin> set l) \<Longrightarrow> getlines (concat (map (\<lambda>l. l @ [10]) ls)) = ls"
proof (induction ls)
  case (Cons l ls)
  have "takeWhile (\<lambda>b. b \<noteq> 10) (l @ 10 # rest) = l" "dropWhile (\<lambda>b. b \<noteq> 10) (l @ 10 # rest) = 10 # rest" for rest
    using Cons.prems [of l] by (auto simp: takeWhile_append dropWhile_append)
  then show ?case using Cons by (subst getlines.simps) simp
qed (simp add: getlines.simps)

lemma dec_digits_length: "n < 10 ^ k \<Longrightarrow> 0 < k \<Longrightarrow> length (dec_digits n) \<le> k"
proof (induction k arbitrary: n)
  case (Suc k)
  show ?case
  proof (cases "n < 10")
    case False
    then have "0 < k" using Suc.prems by (cases k) auto
    moreover have "n div 10 < 10 ^ k" using Suc.prems by (simp add: div_less_iff_less_mult mult.commute)
    ultimately show ?thesis using Suc.IH [of "n div 10"] False by (subst dec_digits.simps) simp
  qed (subst dec_digits.simps, simp)
qed simp

lemma unat_widen_byte: "unat (ucast (c :: byte) :: u16) = unat c"
proof -
  have "unat c < 2 ^ LENGTH(8)" by (rule unsigned_less)
  then have "unat c < 2 ^ 16" by (rule less_le_trans) simp
  then show ?thesis by (simp add: unsigned_ucast_eq take_bit_nat_def)
qed

lemma dec_digits_ascii: "c \<in> set (dec_digits n) \<Longrightarrow> c < 128 \<and> c \<noteq> 10 \<and> c \<noteq> 9"
proof -
  assume "c \<in> set (dec_digits n)"
  then have "48 \<le> (ucast c :: u16) \<and> (ucast c :: u16) \<le> 57" using dec_digits_digits [of "ucast c" n] by (auto simp: wide_def)
  then have "48 \<le> unat c" "unat c \<le> 57" by (simp_all add: word_le_nat_alt unat_widen_byte)
  then show ?thesis by (auto simp: word_less_nat_alt)
qed

lemma saved_line:
  assumes "codec_ok tc" "query_ok q" "plain_query q" "WideToUtf8 tc q \<noteq> None"
  obtains b where "WideToUtf8 tc q = Some b" "length b \<le> 3 * length q" "10 \<notin> set b" "b \<noteq> []" "last b \<noteq> 13"
    "tc_MultiByteToWideChar tc (history_line tc (q, t)) = Some (wide (dec_digits (unat t)) @ 9 # q)"
proof -
  obtain b where b: "WideToUtf8 tc q = Some b" "tc_WideCharToMultiByte tc q = Some b"
    using assms(2,4) by (auto simp: WideToUtf8_def query_ok_def kMaxIndexedSearchQueryLengthChars_def split: if_splits)
  have "\<forall>c \<in> set (dec_digits (unat t) @ [9]). c < 128" using dec_digits_ascii by auto
  then have "tc_MultiByteToWideChar tc ((dec_digits (unat t) @ [9]) @ b) = Some (wide (dec_digits (unat t) @ [9]) @ q)"
    using assms(1) b(2) unfolding codec_ok_def by blast
  moreover have "length b \<le> 3 * length q" "10 \<notin> set b" "b \<noteq> []" "last b \<noteq> 13"
    using assms b(2) by (auto simp: codec_ok_def plain_query_def query_ok_def)
  ultimately show ?thesis using that b(1) by (simp add: history_line_def wide_def)
qed

lemma load_saved_line:
  assumes "codec_ok tc" "digits_plain (h_iswspace host)" "query_ok q" "plain_query q" "WideToUtf8 tc q \<noteq> None"
    and "\<forall>e \<in> set (sh_queries h). \<not> EqualsCaseInsensitive (h_cso host) e q"
  shows "load_line host tc (history_line tc (q, t)) h =
    h\<lparr>sh_queries := sh_queries h @ [q], sh_timestamps := sh_timestamps h @ [t]\<rparr>"
proof -
  obtain b where b: "WideToUtf8 tc q = Some b" "length b \<le> 3 * length q" "b \<noteq> []" "last b \<noteq> 13"
    and wide: "tc_MultiByteToWideChar tc (history_line tc (q, t)) = Some (wide (dec_digits (unat t)) @ 9 # q)"
    using saved_line [OF assms(1,3-5), of t] by metis
  let ?line = "history_line tc (q, t)" and ?d = "wide (dec_digits (unat t))"
  have "length (dec_digits (unat t)) \<le> 20" by (intro dec_digits_length less_trans [OF unat_lit]) simp_all
  then have len: "length ?line \<le> kMaxHistoryLineBytes"
    using b(1,2) assms(3) by (simp add: history_line_def kMaxHistoryLineBytes_def query_ok_def kMaxIndexedSearchQueryLengthChars_def)
  have "?line \<noteq> []" "last ?line \<noteq> 13" using b by (simp_all add: history_line_def)
  moreover have "Utf8ToWide tc ?line = Some (?d @ 9 # q)"
    using wide len calculation(1) by (simp add: Utf8ToWide_def kMaxHistoryLineBytes_def kMaxIndexedSearchQueryLengthChars_def)
  moreover have "find_first (\<lambda>c. c = 9) (?d @ 9 # q) = Some (length ?d)"
    using dec_digits_digits [of 9 "unat t"]
    by (intro find_first_intro) (auto simp: nth_append dest!: nth_mem)
  moreover have "FindCaseInsensitive (h_cso host) (sh_queries h) q = None"
    using assms(6) by (simp add: FindCaseInsensitive_def find_first_None)
  ultimately show ?thesis
    using len stoull_dec [OF assms(2), of t] assms(3) by (simp add: load_line_def query_ok_def)
qed

lemma load_saved_lines:
  assumes "codec_ok tc" "digits_plain (h_iswspace host)"
    and "\<forall>e \<in> set es. query_ok (fst e) \<and> plain_query (fst e) \<and> WideToUtf8 tc (fst e) \<noteq> None"
    and "sorted_wrt (\<lambda>a b. \<not> EqualsCaseInsensitive (h_cso host) a b) (sh_queries h @ map fst es)"
  shows "fold (load_line host tc) (map (history_line tc) es) h =
    h\<lparr>sh_queries := sh_queries h @ map fst es, sh_timestamps := sh_timestamps h @ map snd es\<rparr>"
  using assms(3,4)
proof (induction es arbitrary: h)
  case (Cons e es)
  obtain q t where e: "e = (q, t)" by (cases e)
  have "load_line host tc (history_line tc (q, t)) h =
      h\<lparr>sh_queries := sh_queries h @ [q], sh_timestamps := sh_timestamps h @ [t]\<rparr>"
    using Cons.prems e by (intro load_saved_line [OF assms(1,2)]) (auto simp: sorted_wrt_append)
  then show ?case using Cons.IH [of "h\<lparr>sh_queries := sh_queries h @ [q], sh_timestamps := sh_timestamps h @ [t]\<rparr>"] Cons.prems e
    by simp
qed simp

text \<open>
  C33. A saved history loads back. When \<open>Save\<close> reports success, loading the file it wrote gives the same queries and
  times in the same order, for every history of the invariant whose queries contain no newline and do not end in
  a carriage return; when it reports failure at any step the old file is untouched.
\<close>

theorem Save_Load_roundtrip:
  assumes "codec_ok tc" "digits_plain (h_iswspace host)" "history_ok (h_cso host) h"
    and "list_all plain_query (sh_queries h)"
    and "Save tc io h file = (saved, file')"
  shows "if saved then \<exists>content. file' = Some content \<and> Load host tc (Some (content, False)) h = (True, h)
    else file' = file"
proof (cases saved)
  case True
  then obtain content where c: "save_loop tc (io_write io) h 0 [] = Some content" "file' = Some content"
    using assms(5) by (auto simp: Save_def split: if_splits option.splits)
  let ?es = "history_entries h"
  have len: "length (sh_queries h) = length (sh_timestamps h)" using assms(3) by (simp add: history_ok_def)
  have parts: "map fst ?es = sh_queries h" "map snd ?es = sh_timestamps h" using len by (simp_all add: history_entries_def)
  have content: "content = concat (map (\<lambda>l. l @ [10]) (map (history_line tc) ?es))"
    and enc: "\<forall>e \<in> set ?es. WideToUtf8 tc (fst e) \<noteq> None"
    using save_loop_content [OF c(1)] by (simp_all add: o_def)
  have ok: "\<forall>e \<in> set ?es. query_ok (fst e) \<and> plain_query (fst e) \<and> WideToUtf8 tc (fst e) \<noteq> None"
    using assms(3,4) enc by (auto simp: history_entries_def history_ok_def list_all_iff dest: set_zip_leftD)
  have "10 \<notin> set (history_line tc e)" if "e \<in> set ?es" for e
    using saved_line [OF assms(1), of "fst e"] ok that dec_digits_ascii [of 10]
    by (auto simp: history_line_def) (metis option.sel)
  then have "getlines content = map (history_line tc) ?es" unfolding content by (intro getlines_concat) auto
  then have "Load host tc (Some (content, False)) h = (True, h)"
    using load_saved_lines [OF assms(1,2) ok, of "h\<lparr>sh_queries := [], sh_timestamps := []\<rparr>"] assms(3)
    by (simp add: Load_def parts history_ok_def)
  then show ?thesis using True c(2) by simp
qed (use assms(5) in \<open>auto simp: Save_def split: if_splits option.splits\<close>)

text \<open>The codec restricted to ASCII, for which the laws hold.\<close>

definition ascii_codec :: TextCodec where
  "ascii_codec =
     \<lparr>tc_MultiByteToWideChar = (\<lambda>bs. if list_all (\<lambda>b. b < 128) bs then Some (wide bs) else None),
      tc_WideCharToMultiByte = (\<lambda>w. if list_all (\<lambda>c. c < 128) w then Some (map ucast w) else None)\<rparr>"

lemma ascii_unit:
  assumes "(c :: u16) < 128"
  shows "ucast (ucast c :: byte) = c" "(ucast c :: byte) < 128"
proof -
  have "unat c < 128" using assms by (simp add: word_less_nat_alt)
  then have u: "unat (ucast c :: byte) = unat c" by (simp add: unsigned_ucast_eq take_bit_nat_def)
  then show "(ucast c :: byte) < 128" using \<open>unat c < 128\<close> by (simp add: word_less_nat_alt)
  show "ucast (ucast c :: byte) = c"
    by (rule unsigned_word_eqI) (rule trans [OF unat_widen_byte u])
qed

lemma ascii_codec_ok: "codec_ok ascii_codec"
  unfolding codec_ok_def
proof (intro allI impI)
  fix w b assume "tc_WideCharToMultiByte ascii_codec w = Some b"
  then have w: "\<forall>c \<in> set w. c < 128" and b: "b = map ucast w"
    by (auto simp: ascii_codec_def list_all_iff split: if_splits)
  have rt: "ucast (ucast c :: byte) = c" "(ucast c :: byte) < 128" if "c \<in> set w" for c
    using w that ascii_unit by auto
  have "wide b = w" using rt by (simp add: b wide_def map_idI)
  moreover have "last b = 13 \<longrightarrow> last w = 13" if "w \<noteq> []"
    using rt(1) [OF last_in_set [OF that]] that by (auto simp: b last_map)
  moreover have "10 \<in> set b \<longrightarrow> 10 \<in> set w" using rt(1) by (force simp: b)
  ultimately show "length b \<le> 3 * length w \<and> (10 \<in> set b \<longrightarrow> 10 \<in> set w) \<and> (w \<noteq> [] \<longrightarrow> b \<noteq> [] \<and> (last b = 13 \<longrightarrow> last w = 13))
     \<and> (\<forall>a. (\<forall>c \<in> set a. c < 128) \<longrightarrow> tc_MultiByteToWideChar ascii_codec (a @ b) = Some (wide a @ w))"
    using rt(2) by (auto simp: ascii_codec_def list_all_iff b wide_def)
qed

definition sample_history :: SearchHistory where
  "sample_history = \<lparr>sh_recordingEnabled = True, sh_queries = [wstr ''ab'', wstr ''note''], sh_timestamps = [17, 5]\<rparr>"

definition good_io :: SaveIo where
  "good_io = \<lparr>io_path_empty = False, io_create_directories = True, io_GetTempFileName = True, io_open = True,
     io_write = (\<lambda>_. True), io_close = True, io_MoveFileEx = True\<rparr>"

definition history_host :: Host where
  "history_host = (sample_host 0 0)\<lparr>h_cso := lex_ordinal\<rparr>"

lemma sample_history_ok: "history_ok lex_ordinal sample_history" "list_all plain_query (sh_queries sample_history)"
  by code_simp+

lemma history_host_plain: "digits_plain (h_iswspace history_host)"
  by (auto simp: digits_plain_def history_host_def sample_host_def word_le_nat_alt)

theorem Save_Load_roundtrip_witness:
  "fst (Save ascii_codec good_io sample_history None) \<and>
   (\<exists>content. snd (Save ascii_codec good_io sample_history None) = Some content
      \<and> Load history_host ascii_codec (Some (content, False)) sample_history = (True, sample_history))"
proof -
  have saved: "fst (Save ascii_codec good_io sample_history None)" by code_simp
  have "history_ok (h_cso history_host) sample_history" using sample_history_ok(1) by (simp add: history_host_def)
  from Save_Load_roundtrip [OF ascii_codec_ok history_host_plain this sample_history_ok(2) surjective_pairing] saved
  show ?thesis by simp
qed

text \<open>
  C34. Recording a query moves it to the front: the list becomes the query with the current time followed by the
  older entries that differ from it beyond case, cut to the limit. The invariant is kept, so no query
  is ever listed twice up to case, and disabled recording, an empty and an overlong query change nothing.
\<close>

theorem RecordQuery_moves_to_front:
  assumes "ordinal_total cso" "history_ok cso h" "RecordQuery cso nowSeconds query limit h = (recorded, h')"
  shows "(recorded \<longleftrightarrow> sh_recordingEnabled h \<and> query_ok query) \<and> history_ok cso h' \<and>
    (if recorded
     then history_entries h' = take limit ((query, nowSeconds) #
            filter (\<lambda>e. \<not> EqualsCaseInsensitive cso (fst e) query) (history_entries h))
     else h' = h)"
proof (cases recorded)
  case True
  have "sh_recordingEnabled h" using assms(3) True by (auto simp: RecordQuery_def split: if_splits)
  then show ?thesis
    using True RecordQuery_cases(1,4) [OF assms(1,2)] RecordQuery_ok [OF assms(1,2)] assms(3) by simp
next
  case False
  then have "h' = h \<and> \<not> (sh_recordingEnabled h \<and> query_ok query)"
    using assms(3) by (auto simp: RecordQuery_def query_ok_def Let_def split: if_splits)
  then show ?thesis using False assms(2) by simp
qed

theorem RecordQuery_moves_to_front_witness:
  "history_entries (snd (RecordQuery lex_ordinal 9 (wstr ''NOTE'') 100 sample_history)) =
     [(wstr ''NOTE'', 9), (wstr ''ab'', 17)]"
proof -
  have r: "fst (RecordQuery lex_ordinal 9 (wstr ''NOTE'') 100 sample_history)" by code_simp
  have "take 100 ((wstr ''NOTE'', 9) # filter (\<lambda>e. \<not> EqualsCaseInsensitive lex_ordinal (fst e) (wstr ''NOTE''))
      (history_entries sample_history)) = [(wstr ''NOTE'', 9), (wstr ''ab'', 17)]" by code_simp
  then show ?thesis
    using RecordQuery_moves_to_front [OF lex_ordinal_total sample_history_ok(1) surjective_pairing, of 9 "wstr ''NOTE''" 100] r
    by (simp only: if_True simp_thms)
qed

end
