(* ===== verification/Ntfs.thy ===== *)
theory Ntfs
  imports Prelude "HOL-Library.Monad_Syntax"
begin

text \<open>
  The parsers of untrusted on-disk bytes in the privileged service: NTFS file records
  (\<open>indexsvc/src/MftParser.cpp\<close>) and change journal records (\<open>indexsvc/src/UsnRecordParser.cpp\<close>).

  The buffer is a byte list. Every read and write goes through an access function that yields \<open>None\<close>
  outside the buffer, so an access that the source would make out of bounds makes the whole
  operation \<open>None\<close>; inside, the second option is the source's \<open>std::optional\<close>. \<open>size_t\<close> arithmetic that
  could wrap is written with \<open>sz_sub\<close> and \<open>sz_add\<close>.
\<close>

section \<open>Buffer accesses\<close>

definition rd_bytes :: "byte list \<Rightarrow> nat \<Rightarrow> nat \<Rightarrow> byte list option" where
  "rd_bytes buf off n = (if off + n \<le> length buf then Some (take n (drop off buf)) else None)"

definition rd_u8 :: "byte list \<Rightarrow> nat \<Rightarrow> byte option" where
  "rd_u8 buf off = (if off < length buf then Some (buf ! off) else None)"

definition ReadU16 :: "byte list \<Rightarrow> nat \<Rightarrow> u16 option" where
  "ReadU16 buf off = map_option get_le (rd_bytes buf off 2)"

definition ReadU32 :: "byte list \<Rightarrow> nat \<Rightarrow> u32 option" where
  "ReadU32 buf off = map_option get_le (rd_bytes buf off 4)"

definition ReadU64 :: "byte list \<Rightarrow> nat \<Rightarrow> u64 option" where
  "ReadU64 buf off = map_option get_le (rd_bytes buf off 8)"

definition wr_bytes :: "byte list \<Rightarrow> nat \<Rightarrow> byte list \<Rightarrow> byte list option" where
  "wr_bytes buf off bs =
     (if off + length bs \<le> length buf then Some (take off buf @ bs @ drop (off + length bs) buf) else None)"

definition sz_sub :: "nat \<Rightarrow> nat \<Rightarrow> nat" where
  "sz_sub a b = (if b \<le> a then a - b else 2 ^ 64 + a - b)"

definition sz_add :: "nat \<Rightarrow> nat \<Rightarrow> nat" where
  "sz_add a b = (a + b) mod 2 ^ 64"

text \<open>The modulus is evaluated on binary integers.\<close>

lemma sz_arith_code [code]:
  "sz_sub a b = (if b \<le> a then a - b else nat (2 ^ 64 + int a - int b))" "sz_add a b = nat ((int a + int b) mod 2 ^ 64)"
  by (simp_all add: sz_sub_def sz_add_def nat_mod_distrib nat_add_distrib nat_diff_distrib')

section \<open>Fixups of file records\<close>

datatype FixupResult = FixupOk | NotAFileRecord | NotInUse | Malformed

definition kFileRecordInUseFlag :: u16 where "kFileRecordInUseFlag = 1"
definition kFileRecordDirectoryFlag :: u16 where "kFileRecordDirectoryFlag = 2"
definition kFileAttributeDirectory :: u32 where "kFileAttributeDirectory = 16"
definition kAttributeTypeStandardInformation :: u32 where "kAttributeTypeStandardInformation = 0x10"
definition kAttributeTypeFileName :: u32 where "kAttributeTypeFileName = 0x30"
definition kAttributeTypeEnd :: u32 where "kAttributeTypeEnd = 0xFFFFFFFF"
definition kFileNameNamespaceDos :: byte where "kFileNameNamespaceDos = 2"

definition tail_offset :: "nat \<Rightarrow> nat \<Rightarrow> nat" where
  "tail_offset bytesPerSector sector = sz_sub ((sector + 1) * bytesPerSector) 2"

text \<open>The scan over the sectors: the two flags, or \<open>None\<close> for the malformed exit inside the loop.\<close>

fun fixup_scan :: "byte list \<Rightarrow> nat \<Rightarrow> nat \<Rightarrow> u16 \<Rightarrow> nat list \<Rightarrow> bool \<Rightarrow> bool \<Rightarrow> (bool \<times> bool) option option" where
  "fixup_scan rec bps usa usn [] protectedOnDisk alreadyRestored = Some (Some (protectedOnDisk, alreadyRestored))"
| "fixup_scan rec bps usa usn (sector # sectors) protectedOnDisk alreadyRestored =
     (if sz_add (tail_offset bps sector) 2 > length rec then Some None
      else do {
        tail \<leftarrow> ReadU16 rec (tail_offset bps sector);
        trueValue \<leftarrow> ReadU16 rec (usa + (sector + 1) * 2);
        fixup_scan rec bps usa usn sectors (protectedOnDisk \<and> tail = usn) (alreadyRestored \<and> tail = trueValue)
      })"

fun fixup_restore :: "byte list \<Rightarrow> nat \<Rightarrow> nat \<Rightarrow> nat list \<Rightarrow> byte list option" where
  "fixup_restore rec bps usa [] = Some rec"
| "fixup_restore rec bps usa (sector # sectors) =
     do {
       bs \<leftarrow> rd_bytes rec (usa + (sector + 1) * 2) 2;
       rec' \<leftarrow> wr_bytes rec (tail_offset bps sector) bs;
       fixup_restore rec' bps usa sectors
     }"

text \<open>From the read of the update sequence number on.\<close>

definition fixup_sectors :: "byte list \<Rightarrow> nat \<Rightarrow> nat \<Rightarrow> nat \<Rightarrow> (FixupResult \<times> byte list) option" where
  "fixup_sectors rec bps usa sectorCount =
     do {
       usn \<leftarrow> ReadU16 rec usa;
       scan \<leftarrow> fixup_scan rec bps usa usn [0..<sectorCount] True True;
       case scan of
         None \<Rightarrow> Some (Malformed, rec)
       | Some flags \<Rightarrow>
           let protectedOnDisk = fst flags; alreadyRestored = snd flags in
           if \<not> protectedOnDisk \<and> \<not> alreadyRestored then Some (Malformed, rec)
           else if protectedOnDisk
           then do {
             rec' \<leftarrow> fixup_restore rec bps usa [0..<sectorCount];
             Some (FixupOk, rec')
           }
           else Some (FixupOk, rec)
     }"

definition ApplyFixupAndValidate :: "byte list \<Rightarrow> u32 \<Rightarrow> (FixupResult \<times> byte list) option" where
  "ApplyFixupAndValidate rec bytesPerSector =
     (if bytesPerSector = 0 \<or> length rec < 24 + 4 then Some (Malformed, rec)
      else do {
        sig \<leftarrow> rd_bytes rec 0 4;
        if sig \<noteq> [70, 73, 76, 69] then Some (NotAFileRecord, rec)
        else do {
          flags \<leftarrow> ReadU16 rec 22;
          if flags AND kFileRecordInUseFlag = 0 then Some (NotInUse, rec)
          else do {
            usaOffset \<leftarrow> ReadU16 rec 4;
            usaSize \<leftarrow> ReadU16 rec 6;
            if usaSize = 0 \<or> unat usaOffset + unat usaSize * 2 > length rec then Some (Malformed, rec)
            else
              let sectorCount = length rec div unat bytesPerSector in
              if sectorCount + 1 \<noteq> unat usaSize then Some (Malformed, rec)
              else fixup_sectors rec (unat bytesPerSector) (unat usaOffset) sectorCount
          }
        }
      })"

section \<open>Attributes of file records\<close>

record ParsedMftRecord =
  pm_fileReferenceNumber :: u64
  pm_parentFileReferenceNumber :: u64
  pm_creationTime :: u64
  pm_lastModifiedTime :: u64
  pm_lastAccessTime :: u64
  pm_sizeBytes :: u64
  pm_allocatedSizeBytes :: u64
  pm_fileAttributes :: u32
  pm_fileName :: u16string

text \<open>The local variables of the attribute walk.\<close>

record MftWalk =
  mw_haveStandardInformation :: bool
  mw_creationTime :: u64
  mw_lastModifiedTime :: u64
  mw_lastAccessTime :: u64
  mw_standardInfoAttributes :: u32
  mw_haveName :: bool
  mw_parentRef :: u64
  mw_realSize :: u64
  mw_allocatedSize :: u64
  mw_bestNamespace :: byte
  mw_bestName :: u16string

definition walk_start :: MftWalk where
  "walk_start =
     \<lparr>mw_haveStandardInformation = False, mw_creationTime = 0, mw_lastModifiedTime = 0, mw_lastAccessTime = 0,
      mw_standardInfoAttributes = 0, mw_haveName = False, mw_parentRef = 0, mw_realSize = 0,
      mw_allocatedSize = 0, mw_bestNamespace = 0xFF, mw_bestName = []\<rparr>"

definition read_standard_information :: "byte list \<Rightarrow> nat \<Rightarrow> nat \<Rightarrow> MftWalk \<Rightarrow> MftWalk option option" where
  "read_standard_information rec val valueLength w =
     (if valueLength < 36 then Some None
      else do {
        creation \<leftarrow> ReadU64 rec (val + 0);
        modified \<leftarrow> ReadU64 rec (val + 8);
        accessed \<leftarrow> ReadU64 rec (val + 24);
        attrs \<leftarrow> ReadU32 rec (val + 32);
        Some (Some (w\<lparr>mw_creationTime := creation, mw_lastModifiedTime := modified, mw_lastAccessTime := accessed,
                      mw_standardInfoAttributes := attrs, mw_haveStandardInformation := True\<rparr>))
      })"

definition read_file_name :: "byte list \<Rightarrow> nat \<Rightarrow> nat \<Rightarrow> MftWalk \<Rightarrow> MftWalk option option" where
  "read_file_name rec val valueLength w =
     (if valueLength < 66 then Some (Some w)
      else do {
        nameLengthChars \<leftarrow> rd_u8 rec (val + 64);
        nsType \<leftarrow> rd_u8 rec (val + 65);
        let nameBytes = unat nameLengthChars * 2 in
        if nameLengthChars > 0 \<and> 66 + nameBytes \<le> valueLength
           \<and> (\<not> mw_haveName w \<or> (mw_bestNamespace w = kFileNameNamespaceDos \<and> nsType \<noteq> kFileNameNamespaceDos))
        then do {
          parent \<leftarrow> ReadU64 rec (val + 0);
          realSize \<leftarrow> ReadU64 rec (val + 48);
          allocated \<leftarrow> ReadU64 rec (val + 40);
          name \<leftarrow> rd_bytes rec (val + 66) nameBytes;
          Some (Some (w\<lparr>mw_parentRef := parent, mw_realSize := realSize, mw_allocatedSize := allocated,
                        mw_bestNamespace := nsType, mw_bestName := get_u16s (unat nameLengthChars) name,
                        mw_haveName := True\<rparr>))
        }
        else Some (Some w)
      })"

text \<open>One attribute of length \<open>recordLength\<close> at \<open>off\<close>.\<close>

definition read_attribute :: "byte list \<Rightarrow> nat \<Rightarrow> u32 \<Rightarrow> nat \<Rightarrow> MftWalk \<Rightarrow> MftWalk option option" where
  "read_attribute rec off typeCode recordLength w =
     do {
       formCode \<leftarrow> rd_u8 rec (off + 8);
       if formCode = 0 \<and> (typeCode = kAttributeTypeStandardInformation \<or> typeCode = kAttributeTypeFileName)
       then do {
         valueLength \<leftarrow> ReadU32 rec (off + 16);
         valueOffset \<leftarrow> ReadU16 rec (off + 20);
         if unat valueOffset + unat valueLength > recordLength then Some None
         else if typeCode = kAttributeTypeStandardInformation
           then read_standard_information rec (off + unat valueOffset) (unat valueLength) w
         else read_file_name rec (off + unat valueOffset) (unat valueLength) w
       }
       else Some (Some w)
     }"

function attr_loop :: "byte list \<Rightarrow> nat \<Rightarrow> nat \<Rightarrow> MftWalk \<Rightarrow> MftWalk option option" where
  "attr_loop rec recordExtent off w =
     (if off + 8 \<le> recordExtent
      then do {
        typeCode \<leftarrow> ReadU32 rec off;
        if typeCode = kAttributeTypeEnd then Some (Some w)
        else if off + 24 > recordExtent then Some None
        else do {
          recordLength \<leftarrow> ReadU32 rec (off + 4);
          if unat recordLength < 24 \<or> off + unat recordLength > recordExtent then Some None
          else do {
            r \<leftarrow> read_attribute rec off typeCode (unat recordLength) w;
            case r of None \<Rightarrow> Some None | Some w' \<Rightarrow> attr_loop rec recordExtent (off + unat recordLength) w'
          }
        }
      }
      else Some (Some w))"
  by pat_completeness auto
termination
  by (relation "measure (\<lambda>(rec, recordExtent, off, w). recordExtent - off)") auto

declare attr_loop.simps [simp del]

definition ParseMftAttributes :: "byte list \<Rightarrow> ParsedMftRecord option option" where
  "ParseMftAttributes rec =
     (if length rec < 24 + 4 then Some None
      else do {
        firstAttributeOffset \<leftarrow> ReadU16 rec 20;
        bytesInUse \<leftarrow> ReadU32 rec 24;
        headerFlags \<leftarrow> ReadU16 rec 22;
        let recordExtent = (if unat bytesInUse < length rec then unat bytesInUse else length rec) in
        if unat firstAttributeOffset \<ge> recordExtent then Some None
        else do {
          r \<leftarrow> attr_loop rec recordExtent (unat firstAttributeOffset) walk_start;
          case r of None \<Rightarrow> Some None
          | Some w \<Rightarrow>
              if \<not> mw_haveStandardInformation w \<or> \<not> mw_haveName w then Some None
              else Some (Some
                \<lparr>pm_fileReferenceNumber = 0, pm_parentFileReferenceNumber = mw_parentRef w,
                 pm_creationTime = mw_creationTime w, pm_lastModifiedTime = mw_lastModifiedTime w,
                 pm_lastAccessTime = mw_lastAccessTime w, pm_sizeBytes = mw_realSize w,
                 pm_allocatedSizeBytes = mw_allocatedSize w,
                 pm_fileAttributes = mw_standardInfoAttributes w
                   OR (if headerFlags AND kFileRecordDirectoryFlag \<noteq> 0 then kFileAttributeDirectory else 0),
                 pm_fileName = mw_bestName w\<rparr>)
        }
      })"

section \<open>Change journal records\<close>

record DecodedUsnRecord =
  du_usn :: u64
  du_fileReferenceNumber :: u64
  du_parentFileReferenceNumber :: u64
  du_reason :: u32
  du_timestamp :: u64
  du_fileAttributes :: u32
  du_fileNameLength :: u16
  du_fileNameOffset :: u16

text \<open>The low half of a 128-bit file identity, unless the high half is not zero.\<close>

definition DecodeNtfsFileId :: "byte list \<Rightarrow> u64 option" where
  "DecodeNtfsFileId bs =
     (if (get_le (take 8 (drop 8 bs)) :: u64) = 0 then Some (get_le (take 8 bs)) else None)"

definition ValidateFilenameRange :: "u16 \<Rightarrow> u16 \<Rightarrow> nat \<Rightarrow> nat \<Rightarrow> bool" where
  "ValidateFilenameRange filenameOffset filenameLength recordLength minimumFilenameOffset =
     (if unat filenameOffset < minimumFilenameOffset \<or> unat filenameLength mod 2 \<noteq> 0 then False
      else unat filenameOffset + unat filenameLength \<le> recordLength)"

text \<open>
  The fixed prefixes of \<open>USN_RECORD_V2\<close> (60 bytes) and \<open>USN_RECORD_V3\<close> (76 bytes), whose fields are
  read from the copy that \<open>memcpy\<close> made of the prefix.
\<close>

definition decode_v2 :: "byte list \<Rightarrow> DecodedUsnRecord" where
  "decode_v2 pre =
     \<lparr>du_usn = get_le (take 8 (drop 24 pre)), du_fileReferenceNumber = get_le (take 8 (drop 8 pre)),
      du_parentFileReferenceNumber = get_le (take 8 (drop 16 pre)), du_reason = get_le (take 4 (drop 40 pre)),
      du_timestamp = get_le (take 8 (drop 32 pre)), du_fileAttributes = get_le (take 4 (drop 52 pre)),
      du_fileNameLength = get_le (take 2 (drop 56 pre)), du_fileNameOffset = get_le (take 2 (drop 58 pre))\<rparr>"

definition decode_v3 :: "byte list \<Rightarrow> DecodedUsnRecord option" where
  "decode_v3 pre =
     (case (DecodeNtfsFileId (take 16 (drop 8 pre)), DecodeNtfsFileId (take 16 (drop 24 pre))) of
        (Some frn, Some parent) \<Rightarrow>
          Some \<lparr>du_usn = get_le (take 8 (drop 40 pre)), du_fileReferenceNumber = frn,
                du_parentFileReferenceNumber = parent, du_reason = get_le (take 4 (drop 56 pre)),
                du_timestamp = get_le (take 8 (drop 48 pre)), du_fileAttributes = get_le (take 4 (drop 68 pre)),
                du_fileNameLength = get_le (take 2 (drop 72 pre)), du_fileNameOffset = get_le (take 2 (drop 74 pre))\<rparr>
      | _ \<Rightarrow> None)"

definition DecodeUsnRecord :: "byte list \<Rightarrow> DecodedUsnRecord option option" where
  "DecodeUsnRecord buf =
     (if length buf < 8 then Some None
      else do {
        common \<leftarrow> rd_bytes buf 0 8;
        let declared = unat (get_le (take 4 common) :: u32); major = (get_le (take 2 (drop 4 common)) :: u16) in
        if declared < 8 \<or> declared > length buf then Some None
        else if major = 2 then
          (if declared < 60 then Some None
           else do {
             pre \<leftarrow> rd_bytes buf 0 60;
             let d = decode_v2 pre in
             if \<not> ValidateFilenameRange (du_fileNameOffset d) (du_fileNameLength d) declared 60 then Some None
             else Some (Some d)
           })
        else if major = 3 then
          (if declared < 76 then Some None
           else do {
             pre \<leftarrow> rd_bytes buf 0 76;
             case decode_v3 pre of None \<Rightarrow> Some None
             | Some d \<Rightarrow>
                 if \<not> ValidateFilenameRange (du_fileNameOffset d) (du_fileNameLength d) declared 76 then Some None
                 else Some (Some d)
           })
        else Some None
      })"

section \<open>No access leaves the buffer\<close>

lemma rd_some [simp]:
  "rd_bytes buf off n \<noteq> None \<longleftrightarrow> off + n \<le> length buf" "rd_u8 buf off \<noteq> None \<longleftrightarrow> off < length buf"
  "ReadU16 buf off \<noteq> None \<longleftrightarrow> off + 2 \<le> length buf" "ReadU32 buf off \<noteq> None \<longleftrightarrow> off + 4 \<le> length buf"
  "ReadU64 buf off \<noteq> None \<longleftrightarrow> off + 8 \<le> length buf" "wr_bytes buf off bs \<noteq> None \<longleftrightarrow> off + length bs \<le> length buf"
  by (simp_all add: rd_bytes_def rd_u8_def ReadU16_def ReadU32_def ReadU64_def wr_bytes_def)

lemma bind_not_None: "r \<noteq> None \<Longrightarrow> (\<And>a. r = Some a \<Longrightarrow> f a \<noteq> None) \<Longrightarrow> Option.bind r f \<noteq> None"
  by (cases r) auto

lemma if_not_None: "(b \<Longrightarrow> x \<noteq> None) \<Longrightarrow> (\<not> b \<Longrightarrow> y \<noteq> None) \<Longrightarrow> (if b then x else y) \<noteq> None"
  by simp

lemma case_not_None: "(r = None \<Longrightarrow> x \<noteq> None) \<Longrightarrow> (\<And>a. r = Some a \<Longrightarrow> f a \<noteq> None) \<Longrightarrow> case_option x f r \<noteq> None"
  by (cases r) auto

lemmas in_bounds = bind_not_None if_not_None case_not_None option.distinct(2)

lemma read_standard_information_safe:
  "val + valueLength \<le> length rec \<Longrightarrow> read_standard_information rec val valueLength w \<noteq> None"
  unfolding read_standard_information_def by (intro in_bounds rd_some [THEN iffD2]) auto

lemma read_file_name_safe: "val + valueLength \<le> length rec \<Longrightarrow> read_file_name rec val valueLength w \<noteq> None"
  unfolding read_file_name_def Let_def by (intro in_bounds rd_some [THEN iffD2]) auto

lemma read_attribute_safe:
  "off + recordLength \<le> length rec \<Longrightarrow> 24 \<le> recordLength \<Longrightarrow> read_attribute rec off typeCode recordLength w \<noteq> None"
  unfolding read_attribute_def
  by (intro in_bounds rd_some [THEN iffD2] read_standard_information_safe read_file_name_safe) auto

lemma attr_loop_safe: "recordExtent \<le> length rec \<Longrightarrow> attr_loop rec recordExtent off w \<noteq> None"
proof (induction rec recordExtent off w rule: attr_loop.induct)
  case (1 rec recordExtent off w)
  show ?case
    by (subst attr_loop.simps) (intro in_bounds rd_some [THEN iffD2] read_attribute_safe; use 1 in \<open>auto\<close>)
qed

lemma ParseMftAttributes_safe: "ParseMftAttributes rec \<noteq> None"
  unfolding ParseMftAttributes_def Let_def by (intro in_bounds rd_some [THEN iffD2] attr_loop_safe) auto

lemma DecodeUsnRecord_safe: "DecodeUsnRecord buf \<noteq> None"
  unfolding DecodeUsnRecord_def Let_def by (intro in_bounds rd_some [THEN iffD2]) auto

text \<open>
  The sector size 1 would make the tail of the first sector wrap below zero; the length test on the
  update sequence array has then already failed.
\<close>

lemma tail_offset_eq: "2 \<le> bps \<Longrightarrow> tail_offset bps sector = (sector + 1) * bps - 2"
  by (simp add: tail_offset_def sz_sub_def)

lemma tail_offset_end: "2 \<le> bps \<Longrightarrow> tail_offset bps sector + 2 = (sector + 1) * bps"
  unfolding tail_offset_eq by simp

lemma sector_fits: "0 < bps \<Longrightarrow> sector < n div bps \<Longrightarrow> (sector + 1) * bps \<le> (n :: nat)"
  by (metis Suc_eq_plus1 Suc_leI div_times_less_eq_dividend le_trans mult_le_mono1)

lemma fixup_scan_safe:
  "2 \<le> bps \<Longrightarrow> (\<And>s. s \<in> set sectors \<Longrightarrow> (s + 1) * bps \<le> length rec \<and> usa + (s + 1) * 2 + 2 \<le> length rec) \<Longrightarrow>
   fixup_scan rec bps usa usn sectors p r \<noteq> None"
proof (induction sectors arbitrary: p r)
  case (Cons s ss)
  have "tail_offset bps s + 2 \<le> length rec" "usa + (s + 1) * 2 + 2 \<le> length rec"
    using Cons.prems(2) [of s] by (simp_all only: tail_offset_end [OF Cons.prems(1)] list.set_intros)
  then show ?case
    unfolding fixup_scan.simps by (intro in_bounds rd_some [THEN iffD2] Cons.IH) (use Cons.prems in auto)
qed simp

lemma wr_bytes_nth:
  assumes "wr_bytes buf off bs = Some r"
  shows "length r = length buf" "off + length bs \<le> length buf"
    "i < length buf \<Longrightarrow> r ! i = (if off \<le> i \<and> i < off + length bs then bs ! (i - off) else buf ! i)"
  using assms by (auto simp: wr_bytes_def nth_append min_def split: if_splits)

lemma fixup_restore_safe:
  "2 \<le> bps \<Longrightarrow> (\<And>s. s \<in> set sectors \<Longrightarrow> (s + 1) * bps \<le> length rec \<and> usa + (s + 1) * 2 + 2 \<le> length rec) \<Longrightarrow>
   fixup_restore rec bps usa sectors \<noteq> None"
proof (induction sectors arbitrary: rec)
  case (Cons s ss)
  have ok: "tail_offset bps s + 2 \<le> length rec" "usa + (s + 1) * 2 + 2 \<le> length rec"
    using Cons.prems(2) [of s] by (simp_all only: tail_offset_end [OF Cons.prems(1)] list.set_intros)
  show ?case
    unfolding fixup_restore.simps
  proof (intro in_bounds Cons.IH)
    show "rd_bytes rec (usa + (s + 1) * 2) 2 \<noteq> None" using ok(2) by (simp only: rd_some)
    show "wr_bytes rec (tail_offset bps s) bs \<noteq> None" if "rd_bytes rec (usa + (s + 1) * 2) 2 = Some bs" for bs
      using that ok by (auto simp: rd_bytes_def wr_bytes_def split: if_splits)
  qed (use Cons.prems wr_bytes_nth(1) in auto)
qed simp

lemma fixup_room:
  assumes "0 < bps" "usa + n * 2 \<le> len" "len div bps + 1 = n"
  shows "2 \<le> bps" "s \<in> set [0..<len div bps] \<Longrightarrow> (s + 1) * bps \<le> len \<and> usa + (s + 1) * 2 + 2 \<le> len"
proof -
  show "2 \<le> bps"
  proof (rule ccontr)
    assume "\<not> 2 \<le> bps"
    then have "bps = 1" using assms(1) by simp
    then show False using assms(2,3) by simp
  qed
  show "s \<in> set [0..<len div bps] \<Longrightarrow> (s + 1) * bps \<le> len \<and> usa + (s + 1) * 2 + 2 \<le> len"
    using assms sector_fits [OF assms(1), of s len] by auto
qed

lemma fixup_sectors_safe:
  assumes "0 < bps" "usa + n * 2 \<le> length rec" "length rec div bps + 1 = n"
  shows "fixup_sectors rec bps usa (length rec div bps) \<noteq> None"
  unfolding fixup_sectors_def Let_def
proof (intro in_bounds fixup_scan_safe fixup_restore_safe)
  show "ReadU16 rec usa \<noteq> None" unfolding rd_some using assms by simp
qed (use fixup_room [OF assms] in blast)+

lemma ApplyFixupAndValidate_safe: "ApplyFixupAndValidate rec bytesPerSector \<noteq> None"
  unfolding ApplyFixupAndValidate_def Let_def
proof (intro in_bounds)
  fix sig flags usaOffset usaSize
  assume z: "\<not> (bytesPerSector = 0 \<or> length rec < 24 + 4)"
    and u: "\<not> (usaSize = 0 \<or> length rec < unat usaOffset + unat usaSize * 2)"
    and c: "\<not> length rec div unat bytesPerSector + 1 \<noteq> unat usaSize"
  have "0 < unat bytesPerSector" using z unat_gt_0 [of bytesPerSector] by simp
  moreover have "unat usaOffset + unat usaSize * 2 \<le> length rec" using u by simp
  ultimately show "fixup_sectors rec (unat bytesPerSector) (unat usaOffset) (length rec div unat bytesPerSector) \<noteq> None"
    using c by (intro fixup_sectors_safe) auto
qed (simp_all only: rd_some, auto)

section \<open>What the fixup computes\<close>

text \<open>
  The record with the last two bytes of every whole sector taken from the update sequence array,
  index by index.
\<close>

definition fixed_up :: "byte list \<Rightarrow> nat \<Rightarrow> nat \<Rightarrow> byte list" where
  "fixed_up rec bps usa =
     map (\<lambda>i. if i div bps < length rec div bps \<and> bps - 2 \<le> i mod bps
              then rec ! (usa + (i div bps + 1) * 2 + (i mod bps - (bps - 2))) else rec ! i) [0..<length rec]"

lemma length_fixed_up [simp]: "length (fixed_up rec bps usa) = length rec"
  by (simp add: fixed_up_def)

lemma nth_fixed_up:
  "i < length rec \<Longrightarrow> fixed_up rec bps usa ! i =
     (if i div bps < length rec div bps \<and> bps - 2 \<le> i mod bps
      then rec ! (usa + (i div bps + 1) * 2 + (i mod bps - (bps - 2))) else rec ! i)"
  by (simp add: fixed_up_def)

lemma tail_index:
  assumes "2 \<le> bps"
  shows "tail_offset bps s \<le> i \<and> i < tail_offset bps s + 2 \<longleftrightarrow> i div bps = s \<and> bps - 2 \<le> i mod bps" (is ?iff)
    and "i div bps = s \<Longrightarrow> bps - 2 \<le> i mod bps \<Longrightarrow> i - tail_offset bps s = i mod bps - (bps - 2)"
proof -
  have t: "tail_offset bps s = s * bps + (bps - 2)"
    using assms by (simp add: tail_offset_eq algebra_simps)
  have i: "i = (i div bps) * bps + i mod bps" by simp
  show ?iff
  proof
    assume a: "tail_offset bps s \<le> i \<and> i < tail_offset bps s + 2"
    then have "s * bps \<le> i" "i < s * bps + bps" using assms unfolding t by auto
    then have d: "i div bps = s" using assms by (simp add: div_nat_eqI algebra_simps)
    then show "i div bps = s \<and> bps - 2 \<le> i mod bps" using a i unfolding t by (metis add_le_cancel_left)
  next
    assume a: "i div bps = s \<and> bps - 2 \<le> i mod bps"
    have "i mod bps < bps" using assms by simp
    then show "tail_offset bps s \<le> i \<and> i < tail_offset bps s + 2"
      using a i unfolding t by (metis add.assoc add_le_cancel_left assms le_add_diff_inverse2 nat_add_left_cancel_less)
  qed
  show "i - tail_offset bps s = i mod bps - (bps - 2)" if "i div bps = s" "bps - 2 \<le> i mod bps"
    using that i unfolding t by (metis diff_add_inverse diff_diff_left)
qed

lemma fixup_restore_nth:
  assumes "2 \<le> bps"
    and "\<And>s. s \<in> set sectors \<Longrightarrow> (s + 1) * bps \<le> length rec \<and> usa + (s + 1) * 2 + 2 \<le> bps - 2"
    and "fixup_restore rec bps usa sectors = Some r"
  shows "length r = length rec \<and> (\<forall>i < length rec. r ! i =
     (if i div bps \<in> set sectors \<and> bps - 2 \<le> i mod bps
      then rec ! (usa + (i div bps + 1) * 2 + (i mod bps - (bps - 2))) else rec ! i))"
  using assms(2,3)
proof (induction sectors arbitrary: rec)
  case (Cons s ss)
  obtain bs rec1 where rd: "rd_bytes rec (usa + (s + 1) * 2) 2 = Some bs"
    and wr: "wr_bytes rec (tail_offset bps s) bs = Some rec1" and rest: "fixup_restore rec1 bps usa ss = Some r"
    using Cons.prems(2) by (auto split: bind_splits)
  have bs: "length bs = 2" "\<And>j. j < 2 \<Longrightarrow> bs ! j = rec ! (usa + (s + 1) * 2 + j)"
    using rd by (auto simp: rd_bytes_def split: if_splits)
  have w1: "length rec1 = length rec" by (rule wr_bytes_nth(1) [OF wr])
  have w2: "rec1 ! i = (if i div bps = s \<and> bps - 2 \<le> i mod bps then bs ! (i mod bps - (bps - 2)) else rec ! i)"
    if "i < length rec" for i
    unfolding wr_bytes_nth(3) [OF wr that] bs(1) tail_index(1) [OF assms(1)]
    by (simp add: tail_index(2) [OF assms(1)])
  note w = w1 w2
  have low: "rec1 ! j = rec ! j" if "j < bps - 2" "j < length rec" for j
    using w(2) [OF that(2)] that(1) by simp
  have ih: "length r = length rec1 \<and> (\<forall>i < length rec1. r ! i =
     (if i div bps \<in> set ss \<and> bps - 2 \<le> i mod bps
      then rec1 ! (usa + (i div bps + 1) * 2 + (i mod bps - (bps - 2))) else rec1 ! i))"
    using Cons.IH [OF _ rest] Cons.prems(1) w(1) by simp
  have lt: "i mod bps - (bps - 2) < 2" for i
    using assms(1) mod_less_divisor [of bps i] by linarith
  show ?case
  proof (intro conjI allI impI)
    fix i assume i: "i < length rec"
    let ?j = "usa + (i div bps + 1) * 2 + (i mod bps - (bps - 2))"
    have "?j < bps - 2 \<and> ?j < length rec" if "i div bps \<in> set (s # ss)"
      using Cons.prems(1) [OF that] lt [of i] assms(1) by (simp only: mult_Suc Suc_eq_plus1 [symmetric]) linarith
    then have j: "rec1 ! ?j = rec ! ?j" if "i div bps \<in> set (s # ss)" using low that by blast
    show "r ! i = (if i div bps \<in> set (s # ss) \<and> bps - 2 \<le> i mod bps then rec ! ?j else rec ! i)"
      using ih w i j bs(2) [OF lt [of i]] by auto
  qed (use ih w in simp)
qed simp

lemma ReadU16_Some: "off + 2 \<le> length buf \<Longrightarrow> ReadU16 buf off = Some (get_le [buf ! off, buf ! (off + 1)])"
  by (simp add: ReadU16_def rd_bytes_def take_Suc_conv_app_nth numeral_2_eq_2)

lemma get_le_pair: "(get_le [a, b] :: u16) = get_le [c, d] \<longleftrightarrow> a = c \<and> b = d"
  using put_get_words(1) [of "[a, b]"] put_get_words(1) [of "[c, d]"] by (metis length_Cons list.inject list.size(3) One_nat_def Suc_1)

lemma fixup_scan_eq:
  assumes "2 \<le> bps" "length rec < 2 ^ 64"
    and "\<And>s. s \<in> set sectors \<Longrightarrow> (s + 1) * bps \<le> length rec \<and> usa + (s + 1) * 2 + 2 \<le> length rec"
  shows "fixup_scan rec bps usa usn sectors p r = Some (Some
     (p \<and> (\<forall>s \<in> set sectors. ReadU16 rec (tail_offset bps s) = Some usn),
      r \<and> (\<forall>s \<in> set sectors. ReadU16 rec (tail_offset bps s) = ReadU16 rec (usa + (s + 1) * 2))))"
  using assms(3)
proof (induction sectors arbitrary: p r)
  case (Cons s ss)
  have ok: "tail_offset bps s + 2 \<le> length rec" "usa + (s + 1) * 2 + 2 \<le> length rec"
    using Cons.prems [of s] by (simp_all only: tail_offset_end [OF assms(1)] list.set_intros)
  have "sz_add (tail_offset bps s) 2 \<le> length rec" using ok(1) assms(2) by (simp add: sz_add_def)
  moreover obtain t v where "ReadU16 rec (tail_offset bps s) = Some t" "ReadU16 rec (usa + (s + 1) * 2) = Some v"
    using ReadU16_Some [OF ok(1)] ReadU16_Some [OF ok(2)] by blast
  ultimately show ?case using Cons by auto
qed simp

definition usa_in_first_sector :: "byte list \<Rightarrow> nat \<Rightarrow> nat \<Rightarrow> bool" where
  "usa_in_first_sector rec bps usa \<longleftrightarrow>
     26 \<le> bps \<and> length rec < 2 ^ 64 \<and> usa + (length rec div bps + 1) * 2 \<le> bps - 2 \<and> bps \<le> length rec"

lemma layout_room:
  assumes "usa_in_first_sector rec bps usa" "s \<in> set [0..<length rec div bps]"
  shows "(s + 1) * bps \<le> length rec \<and> usa + (s + 1) * 2 + 2 \<le> bps - 2"
    "(s + 1) * bps \<le> length rec \<and> usa + (s + 1) * 2 + 2 \<le> length rec"
  using assms sector_fits [of bps s "length rec"] by (auto simp: usa_in_first_sector_def)

lemma fixed_up_low: "usa_in_first_sector rec bps usa \<Longrightarrow> j < bps - 2 \<Longrightarrow> fixed_up rec bps usa ! j = rec ! j"
  by (subst nth_fixed_up) (auto simp: usa_in_first_sector_def)

lemma fixed_up_tails:
  assumes "usa_in_first_sector rec bps usa" "s < length rec div bps"
  shows "ReadU16 (fixed_up rec bps usa) (tail_offset bps s) = ReadU16 rec (usa + (s + 1) * 2)"
    "ReadU16 (fixed_up rec bps usa) (usa + (s + 1) * 2) = ReadU16 rec (usa + (s + 1) * 2)"
proof -
  have b: "2 \<le> bps" using assms by (simp add: usa_in_first_sector_def)
  note room = layout_room [OF assms(1), of s]
  have ends: "tail_offset bps s + 2 \<le> length rec" "usa + (s + 1) * 2 + 2 \<le> length rec"
    using room assms(2) by (simp_all only: tail_offset_end [OF b] atLeastLessThan_iff set_upt le0 simp_thms)
  have at: "fixed_up rec bps usa ! (tail_offset bps s + j) = rec ! (usa + (s + 1) * 2 + j)" if "j < 2" for j
  proof -
    have i: "tail_offset bps s + j < length rec" using ends that by simp
    have d: "(tail_offset bps s + j) div bps = s \<and> bps - 2 \<le> (tail_offset bps s + j) mod bps"
      using tail_index(1) [OF b, of s "tail_offset bps s + j"] that by simp
    then have "(tail_offset bps s + j) mod bps - (bps - 2) = j"
      using tail_index(2) [OF b, of "tail_offset bps s + j" s] by simp
    then show ?thesis using d assms(2) by (simp add: nth_fixed_up [OF i])
  qed
  show "ReadU16 (fixed_up rec bps usa) (tail_offset bps s) = ReadU16 rec (usa + (s + 1) * 2)"
    using ends at [of 0] at [of 1] by (simp add: ReadU16_Some)
  show "ReadU16 (fixed_up rec bps usa) (usa + (s + 1) * 2) = ReadU16 rec (usa + (s + 1) * 2)"
    using ends room(1) assms(2) by (simp add: ReadU16_Some fixed_up_low [OF assms(1)])
qed

lemma fixed_up_id:
  assumes "usa_in_first_sector rec bps usa"
    and "\<forall>s < length rec div bps. ReadU16 rec (tail_offset bps s) = ReadU16 rec (usa + (s + 1) * 2)"
  shows "fixed_up rec bps usa = rec"
proof (rule nth_equalityI)
  fix i assume "i < length (fixed_up rec bps usa)"
  then have i: "i < length rec" by simp
  have b: "2 \<le> bps" using assms by (simp add: usa_in_first_sector_def)
  show "fixed_up rec bps usa ! i = rec ! i"
  proof (cases "i div bps < length rec div bps \<and> bps - 2 \<le> i mod bps")
    case True
    let ?s = "i div bps"
    have ends: "tail_offset bps ?s + 2 \<le> length rec" "usa + (?s + 1) * 2 + 2 \<le> length rec"
      using layout_room [OF assms(1), of ?s] True
      by (simp_all only: tail_offset_end [OF b] atLeastLessThan_iff set_upt le0 simp_thms)
    have eq: "rec ! (tail_offset bps ?s + j) = rec ! (usa + (?s + 1) * 2 + j)" if "j < 2" for j
    proof -
      have "ReadU16 rec (tail_offset bps ?s) = ReadU16 rec (usa + (?s + 1) * 2)" using assms(2) True by blast
      then show ?thesis
        unfolding ReadU16_Some [OF ends(1)] ReadU16_Some [OF ends(2)] option.inject get_le_pair
        using that by (auto simp: less_2_cases_iff)
    qed
    have "tail_offset bps ?s \<le> i" "i < tail_offset bps ?s + 2" using tail_index(1) [OF b, of ?s i] True by auto
    then have "i - tail_offset bps ?s < 2" "tail_offset bps ?s + (i - tail_offset bps ?s) = i" by auto
    then show ?thesis
      using eq [of "i - tail_offset bps ?s"] tail_index(2) [OF b, of i ?s] True by (simp add: nth_fixed_up [OF i])
  qed (auto simp: nth_fixed_up [OF i])
qed simp

lemma fixup_scan_all:
  assumes "usa_in_first_sector rec bps usa"
  shows "fixup_scan rec bps usa u [0..<length rec div bps] True True = Some (Some
      (\<forall>s < length rec div bps. ReadU16 rec (tail_offset bps s) = Some u,
       \<forall>s < length rec div bps. ReadU16 rec (tail_offset bps s) = ReadU16 rec (usa + (s + 1) * 2)))"
proof -
  have "2 \<le> bps" "length rec < 2 ^ 64" using assms by (simp_all add: usa_in_first_sector_def)
  from fixup_scan_eq [OF this layout_room(2) [OF assms], of "[0..<length rec div bps]" u True True]
  show ?thesis by (simp only: simp_thms set_upt Ball_def atLeastLessThan_iff le0)
qed

lemma fixup_sectors_fixed:
  assumes "usa_in_first_sector rec bps usa"
    and "fixup_sectors rec bps usa (length rec div bps) = Some (FixupOk, rec')"
  shows "rec' = fixed_up rec bps usa"
proof -
  have b: "2 \<le> bps" using assms by (simp add: usa_in_first_sector_def)
  let ?ss = "[0..<length rec div bps]"
  have "r = fixed_up rec bps usa" if "fixup_restore rec bps usa ?ss = Some r" for r
    using fixup_restore_nth [OF b layout_room(1) [OF assms(1)] that]
    by (intro nth_equalityI) (auto simp: nth_fixed_up)
  moreover obtain u where "ReadU16 rec usa = Some u" using assms(2) by (auto simp: fixup_sectors_def split: bind_splits)
  ultimately show ?thesis
    using assms(2) fixed_up_id [OF assms(1)] fixup_scan_all [OF assms(1), of u]
    by (auto simp only: fixup_sectors_def Let_def fst_conv snd_conv Option.bind.simps
        option.case option.inject prod.inject FixupResult.distinct split: bind_splits if_splits)
qed

lemma usa_layout_fixed_up: "usa_in_first_sector (fixed_up rec bps usa) bps u \<longleftrightarrow> usa_in_first_sector rec bps u"
  by (simp add: usa_in_first_sector_def)

lemma fixup_sectors_again:
  assumes "usa_in_first_sector rec bps usa"
  defines "rec' \<equiv> fixed_up rec bps usa"
  shows "fixup_sectors rec' bps usa (length rec div bps) = Some (FixupOk, rec')"
proof -
  have lay: "usa_in_first_sector rec' bps usa" using assms by (simp add: usa_layout_fixed_up)
  have len: "length rec' = length rec" by (simp add: rec'_def)
  have same: "\<forall>s < length rec div bps. ReadU16 rec' (tail_offset bps s) = ReadU16 rec' (usa + (s + 1) * 2)"
    unfolding rec'_def by (intro allI impI) (simp only: fixed_up_tails [OF assms(1)])
  have scan: "fixup_scan rec' bps usa u [0..<length rec div bps] True True =
      Some (Some (\<forall>s < length rec div bps. ReadU16 rec' (tail_offset bps s) = Some u, True))" for u
    using fixup_scan_all [OF lay, of u] by (simp only: len eqTrueI [OF same])
  obtain u where u: "ReadU16 rec' usa = Some u"
    using lay ReadU16_Some [of usa rec'] by (auto simp: usa_in_first_sector_def)
  have "fixup_sectors rec' bps usa (length rec' div bps) \<noteq> None"
    using lay by (intro fixup_sectors_safe) (auto simp: usa_in_first_sector_def)
  then obtain r where r: "fixup_sectors rec' bps usa (length rec' div bps) = Some (FixupOk, r)"
    by (auto simp: fixup_sectors_def len scan u split: bind_splits if_splits)
  then have "r = rec'" using fixup_sectors_fixed [OF lay] fixed_up_id [OF lay] same len by simp
  then show ?thesis using r len by simp
qed

lemma ApplyFixupAndValidate_Ok_iff:
  "ApplyFixupAndValidate rec b = Some (FixupOk, r) \<longleftrightarrow>
     b \<noteq> 0 \<and> 28 \<le> length rec \<and> rd_bytes rec 0 4 = Some [70, 73, 76, 69]
     \<and> (\<exists>flags usa n. ReadU16 rec 22 = Some flags \<and> flags AND kFileRecordInUseFlag \<noteq> 0
          \<and> ReadU16 rec 4 = Some usa \<and> ReadU16 rec 6 = Some n
          \<and> n \<noteq> 0 \<and> unat usa + unat n * 2 \<le> length rec \<and> length rec div unat b + 1 = unat n
          \<and> fixup_sectors rec (unat b) (unat usa) (length rec div unat b) = Some (FixupOk, r))"
  by (auto simp: ApplyFixupAndValidate_def Let_def split: bind_splits if_splits)

lemma rd_bytes_low:
  assumes "usa_in_first_sector rec bps usa" "off + n \<le> bps - 2"
  shows "rd_bytes (fixed_up rec bps usa) off n = rd_bytes rec off n"
proof -
  have "take n (drop off (fixed_up rec bps usa)) = take n (drop off rec)" (is "?a = ?b")
    by (rule nth_equalityI) (use assms fixed_up_low in \<open>auto simp: usa_in_first_sector_def\<close>)
  then show ?thesis by (simp add: rd_bytes_def)
qed

text \<open>
  C28. The fixup is total and exact. For a record whose update sequence array lies in the body of its first sector, behind the
  24 bytes of header that the routine reads, an accepted record comes out with exactly the last two bytes of
  every whole sector replaced by their entry of the array, whether it arrived protected or already
  restored, and a second application accepts it and changes nothing.
\<close>

theorem ApplyFixupAndValidate_restores:
  assumes "ReadU16 rec 4 = Some usa"
    and "usa_in_first_sector rec (unat bytesPerSector) (unat usa)"
    and "ApplyFixupAndValidate rec bytesPerSector = Some (FixupOk, rec')"
  shows "rec' = fixed_up rec (unat bytesPerSector) (unat usa)
    \<and> ApplyFixupAndValidate rec' bytesPerSector = Some (FixupOk, rec')"
proof -
  let ?b = "unat bytesPerSector"
  have sec: "fixup_sectors rec ?b (unat usa) (length rec div ?b) = Some (FixupOk, rec')"
    using assms(1,3) by (auto simp: ApplyFixupAndValidate_Ok_iff)
  note eq = fixup_sectors_fixed [OF assms(2) sec]
  have low: "rd_bytes rec' off n = rd_bytes rec off n" if "off + n \<le> 24" for off n
    unfolding eq using assms(2) that by (intro rd_bytes_low) (auto simp: usa_in_first_sector_def)
  have reads: "rd_bytes rec' 0 4 = rd_bytes rec 0 4" "ReadU16 rec' 22 = ReadU16 rec 22"
    "ReadU16 rec' 4 = ReadU16 rec 4" "ReadU16 rec' 6 = ReadU16 rec 6" "length rec' = length rec"
    by (simp_all add: ReadU16_def low) (simp add: eq)
  have "fixup_sectors rec' ?b (unat usa) (length rec div ?b) = Some (FixupOk, rec')"
    using fixup_sectors_again [OF assms(2)] by (simp add: eq)
  then have "ApplyFixupAndValidate rec' bytesPerSector = Some (FixupOk, rec')"
    using assms(1,3) unfolding ApplyFixupAndValidate_Ok_iff reads by auto
  then show ?thesis using eq by simp
qed


text \<open>A protected record of two sectors of 32 bytes, the array of three entries at offset 24.\<close>

definition sample_record :: "byte list" where
  "sample_record =
     [70, 73, 76, 69, 24, 0, 3, 0] @ replicate 14 0 @ [1, 0] @ [7, 7, 1, 2, 3, 4] @ [7, 7] @ replicate 30 5 @ [7, 7]"

theorem ApplyFixupAndValidate_restores_witness:
  "ApplyFixupAndValidate (fixed_up sample_record 32 24) 32 = Some (FixupOk, fixed_up sample_record 32 24)
   \<and> fixed_up sample_record 32 24 = [70, 73, 76, 69, 24, 0, 3, 0] @ replicate 14 0 @ [1, 0] @ [7, 7, 1, 2, 3, 4] @ [1, 2] @ replicate 30 5 @ [3, 4]"
proof -
  have fixed: "fixed_up sample_record 32 24 =
    [70, 73, 76, 69, 24, 0, 3, 0] @ replicate 14 0 @ [1, 0] @ [7, 7, 1, 2, 3, 4] @ [1, 2] @ replicate 30 5 @ [3, 4]"
    by code_simp
  have "ReadU16 sample_record 4 = Some 24" by code_simp
  moreover have "usa_in_first_sector sample_record (unat (32 :: u32)) (unat (24 :: u16))"
    by (simp add: usa_in_first_sector_def sample_record_def)
  moreover have "ApplyFixupAndValidate sample_record 32 = Some (FixupOk, fixed_up sample_record 32 24)"
    by code_simp
  ultimately show ?thesis
    using ApplyFixupAndValidate_restores [of sample_record 24 32 "fixed_up sample_record 32 24"] fixed by simp
qed

text \<open>
  C13. Memory safety of the parsers of untrusted bytes: for every buffer and every sector size, no read and no
  write of the fixup, of the attribute walk or of the journal record decoder falls outside the buffer, and
  each of them returns.
\<close>

theorem ntfs_parsers_in_bounds:
  "ApplyFixupAndValidate rec bytesPerSector \<noteq> None \<and> ParseMftAttributes rec \<noteq> None \<and> DecodeUsnRecord buf \<noteq> None"
  using ApplyFixupAndValidate_safe ParseMftAttributes_safe DecodeUsnRecord_safe by blast

section \<open>Journal records as Windows lays them out\<close>

definition usn_v2 :: "DecodedUsnRecord \<Rightarrow> u16 \<Rightarrow> u32 \<Rightarrow> u32 \<Rightarrow> u16string \<Rightarrow> byte list" where
  "usn_v2 d minor source security name =
     put_le 4 (of_nat (60 + 2 * length name) :: u32) @ put_le 2 (2 :: u16) @ put_le 2 minor
     @ put_le 8 (du_fileReferenceNumber d) @ put_le 8 (du_parentFileReferenceNumber d) @ put_le 8 (du_usn d)
     @ put_le 8 (du_timestamp d) @ put_le 4 (du_reason d) @ put_le 4 source @ put_le 4 security
     @ put_le 4 (du_fileAttributes d) @ put_le 2 (du_fileNameLength d) @ put_le 2 (du_fileNameOffset d) @ put_u16s name"

definition usn_v3 :: "DecodedUsnRecord \<Rightarrow> u64 \<Rightarrow> u64 \<Rightarrow> u16 \<Rightarrow> u32 \<Rightarrow> u32 \<Rightarrow> u16string \<Rightarrow> byte list" where
  "usn_v3 d hi hiParent minor source security name =
     put_le 4 (of_nat (76 + 2 * length name) :: u32) @ put_le 2 (3 :: u16) @ put_le 2 minor
     @ put_le 8 (du_fileReferenceNumber d) @ put_le 8 hi @ put_le 8 (du_parentFileReferenceNumber d) @ put_le 8 hiParent
     @ put_le 8 (du_usn d) @ put_le 8 (du_timestamp d) @ put_le 4 (du_reason d) @ put_le 4 source @ put_le 4 security
     @ put_le 4 (du_fileAttributes d) @ put_le 2 (du_fileNameLength d) @ put_le 2 (du_fileNameOffset d) @ put_u16s name"

definition name_fits :: "DecodedUsnRecord \<Rightarrow> nat \<Rightarrow> u16string \<Rightarrow> bool" where
  "name_fits d off name \<longleftrightarrow> length name < 2 ^ 15 \<and> unat (du_fileNameOffset d) = off \<and> unat (du_fileNameLength d) = 2 * length name"

lemma declared_len:
  assumes "length name < 2 ^ 15" "k \<le> 76"
  shows "unat (of_nat (k + 2 * length name) :: u32) = k + 2 * length name"
  using assms by (simp only: unat_of_nat) simp

lemma decode_usn_v2:
  assumes "name_fits d 60 name"
  shows "DecodeUsnRecord (usn_v2 d minor source security name @ rest) = Some (Some d)"
  using assms declared_len [of name 60]
  by (simp add: DecodeUsnRecord_def usn_v2_def rd_bytes_def decode_v2_def ValidateFilenameRange_def name_fits_def Let_def)

lemma decode_usn_v3:
  assumes "name_fits d 76 name"
  shows "DecodeUsnRecord (usn_v3 d hi hiParent minor source security name @ rest) =
    Some (if hi = 0 \<and> hiParent = 0 then Some d else None)"
  using assms declared_len [of name 76]
  by (simp add: DecodeUsnRecord_def usn_v3_def rd_bytes_def decode_v3_def DecodeNtfsFileId_def ValidateFilenameRange_def name_fits_def Let_def)

text \<open>
  C29. Both journal record versions: a record of version 2 decodes to its fields, and a record of version 3
  with the same fields decodes to the same description, its name 16 bytes further on, exactly when the high halves of both of its
  128-bit identities are zero; bytes behind the record do not matter.
\<close>

theorem DecodeUsnRecord_versions:
  assumes "name_fits d 60 name"
  shows "DecodeUsnRecord (usn_v2 d minor source security name @ rest) = Some (Some d)
    \<and> DecodeUsnRecord (usn_v3 (d\<lparr>du_fileNameOffset := 76\<rparr>) hi hiParent minor source security name @ rest) =
        Some (if hi = 0 \<and> hiParent = 0 then Some (d\<lparr>du_fileNameOffset := 76\<rparr>) else None)"
proof -
  have "name_fits (d\<lparr>du_fileNameOffset := 76\<rparr>) 76 name" using assms by (simp add: name_fits_def)
  then show ?thesis using decode_usn_v2 [OF assms] decode_usn_v3 by blast
qed

definition sample_usn :: DecodedUsnRecord where
  "sample_usn = \<lparr>du_usn = 9, du_fileReferenceNumber = 5, du_parentFileReferenceNumber = 4, du_reason = 256,
     du_timestamp = 77, du_fileAttributes = 32, du_fileNameLength = 4, du_fileNameOffset = 60\<rparr>"

theorem DecodeUsnRecord_versions_witness:
  "name_fits sample_usn 60 [97, 98]
   \<and> DecodeUsnRecord (usn_v3 (sample_usn\<lparr>du_fileNameOffset := 76\<rparr>) 0 1 0 0 0 [97, 98] @ [1]) = Some None"
proof -
  have "name_fits sample_usn 60 [97, 98]" by (simp add: name_fits_def sample_usn_def)
  then show ?thesis using DecodeUsnRecord_versions [of sample_usn "[97, 98]" 0 0 0 "[1]" 0 1] by simp
qed

section \<open>File records as NTFS lays them out\<close>

text \<open>
  An attribute is a resident \<open>$STANDARD_INFORMATION\<close>, a resident \<open>$FILE_NAME\<close>, or any attribute of
  another type or stored outside the record. The fields that the walk does not read are byte strings.
\<close>

record FileNameValue =
  fv_parent :: u64
  fv_times :: "byte list"
  fv_allocated :: u64
  fv_real :: u64
  fv_flags :: "byte list"
  fv_namespace :: byte
  fv_name :: u16string

datatype NtfsAttr =
  StandardInformation u64 u64 u64 u64 u32 "byte list"
| FileName FileNameValue "byte list"
| OtherAttr u32 byte "byte list"

definition file_name_value :: "FileNameValue \<Rightarrow> byte list" where
  "file_name_value v = put_le 8 (fv_parent v) @ fv_times v @ put_le 8 (fv_allocated v) @ put_le 8 (fv_real v)
     @ fv_flags v @ [of_nat (length (fv_name v)), fv_namespace v] @ put_u16s (fv_name v)"

definition resident :: "u32 \<Rightarrow> byte list \<Rightarrow> byte list \<Rightarrow> byte list" where
  "resident typeCode val pad = put_le 4 typeCode @ put_le 4 (of_nat (24 + length val + length pad) :: u32)
     @ [0] @ replicate 7 0 @ put_le 4 (of_nat (length val) :: u32) @ put_le 2 (24 :: u16) @ replicate 2 0 @ val @ pad"

fun encode_attr :: "NtfsAttr \<Rightarrow> byte list" where
  "encode_attr (StandardInformation c m e a attrs pad) =
     resident kAttributeTypeStandardInformation (put_le 8 c @ put_le 8 m @ put_le 8 e @ put_le 8 a @ put_le 4 attrs) pad"
| "encode_attr (FileName v pad) = resident kAttributeTypeFileName (file_name_value v) pad"
| "encode_attr (OtherAttr typeCode form body) =
     put_le 4 typeCode @ put_le 4 (of_nat (9 + length body) :: u32) @ [form] @ body"

fun attr_ok :: "NtfsAttr \<Rightarrow> bool" where
  "attr_ok (StandardInformation c m e a attrs pad) \<longleftrightarrow> length pad < 2 ^ 16"
| "attr_ok (FileName v pad) \<longleftrightarrow> length pad < 2 ^ 16 \<and> length (fv_times v) = 32 \<and> length (fv_flags v) = 8
     \<and> 0 < length (fv_name v) \<and> length (fv_name v) < 256"
| "attr_ok (OtherAttr typeCode form body) \<longleftrightarrow> 15 \<le> length body \<and> length body < 2 ^ 16 \<and> typeCode \<noteq> kAttributeTypeEnd
     \<and> (form \<noteq> 0 \<or> typeCode \<noteq> kAttributeTypeStandardInformation \<and> typeCode \<noteq> kAttributeTypeFileName)"

text \<open>What one attribute means for the walk.\<close>

fun apply_attr :: "NtfsAttr \<Rightarrow> MftWalk \<Rightarrow> MftWalk" where
  "apply_attr (StandardInformation c m e a attrs pad) w =
     w\<lparr>mw_creationTime := c, mw_lastModifiedTime := m, mw_lastAccessTime := a,
       mw_standardInfoAttributes := attrs, mw_haveStandardInformation := True\<rparr>"
| "apply_attr (FileName v pad) w =
     (if \<not> mw_haveName w \<or> (mw_bestNamespace w = kFileNameNamespaceDos \<and> fv_namespace v \<noteq> kFileNameNamespaceDos)
      then w\<lparr>mw_parentRef := fv_parent v, mw_realSize := fv_real v, mw_allocatedSize := fv_allocated v,
             mw_bestNamespace := fv_namespace v, mw_bestName := fv_name v, mw_haveName := True\<rparr>
      else w)"
| "apply_attr (OtherAttr typeCode form body) w = w"

lemma rd_behind:
  "rd_bytes (pre @ bs) (length pre + k) n = rd_bytes bs k n" "rd_u8 (pre @ bs) (length pre + k) = rd_u8 bs k"
  "ReadU16 (pre @ bs) (length pre + k) = ReadU16 bs k" "ReadU32 (pre @ bs) (length pre + k) = ReadU32 bs k"
  "ReadU64 (pre @ bs) (length pre + k) = ReadU64 bs k"
  by (simp_all add: rd_bytes_def rd_u8_def ReadU16_def ReadU32_def ReadU64_def nth_append)

lemmas rd_front = rd_behind [where k = 0, unfolded add_0_right]

lemma read_attribute_behind:
  "read_attribute (pre @ bs) (length pre) t n w = read_attribute bs 0 t n w"
  by (simp add: read_attribute_def read_standard_information_def read_file_name_def rd_behind add.assoc cong: if_cong)

lemma unat_small: "n < 2 ^ 17 \<Longrightarrow> unat (of_nat n :: u32) = n" "n < 256 \<Longrightarrow> unat (of_nat n :: byte) = n"
  by (simp_all add: unat_of_nat)

lemma attr_bounds: "attr_ok a \<Longrightarrow> 24 \<le> length (encode_attr a) \<and> length (encode_attr a) < 2 ^ 17"
  by (cases a) (auto simp: resident_def file_name_value_def)

lemma attr_length:
  assumes "attr_ok a"
  shows "ReadU32 (encode_attr a @ post) 4 = Some (of_nat (length (encode_attr a)))"
    "unat (of_nat (length (encode_attr a)) :: u32) = length (encode_attr a)"
  using assms attr_bounds [OF assms] unat_small(1) [of "length (encode_attr a)"]
  by (cases a; simp add: ReadU32_def rd_bytes_def resident_def)+

definition attr_type :: "NtfsAttr \<Rightarrow> u32" where
  "attr_type a = (case a of StandardInformation c m e x attrs pad \<Rightarrow> kAttributeTypeStandardInformation
     | FileName v pad \<Rightarrow> kAttributeTypeFileName | OtherAttr t form body \<Rightarrow> t)"

lemma attr_type_read:
  "attr_ok a \<Longrightarrow> ReadU32 (encode_attr a @ post) 0 = Some (attr_type a)" "attr_ok a \<Longrightarrow> attr_type a \<noteq> kAttributeTypeEnd"
  by (cases a; simp add: ReadU32_def rd_bytes_def resident_def attr_type_def kAttributeTypeEnd_def
      kAttributeTypeStandardInformation_def kAttributeTypeFileName_def)+

lemma resident_reads:
  assumes "length val + length pad < 2 ^ 17 - 24"
  shows "rd_u8 (resident t val pad @ post) 8 = Some 0"
    "ReadU32 (resident t val pad @ post) 16 = Some (of_nat (length val))"
    "ReadU16 (resident t val pad @ post) 20 = Some 24" "unat (of_nat (length val) :: u32) = length val"
    "resident t val pad @ post = (take 24 (resident t val pad)) @ val @ pad @ post" "length (take 24 (resident t val pad)) = 24"
  using assms by (simp_all add: rd_u8_def ReadU32_def ReadU16_def rd_bytes_def resident_def nth_append unat_small(1))

lemma read_file_name_value:
  assumes "attr_ok (FileName v pad)"
  shows "read_file_name (file_name_value v @ post) 0 (length (file_name_value v)) w = Some (Some (apply_attr (FileName v pad) w))"
proof -
  have n: "unat (of_nat (length (fv_name v)) :: byte) = length (fv_name v)" using assms by (intro unat_small) simp
  then have nz: "(of_nat (length (fv_name v)) :: byte) \<noteq> 0" using assms by (metis attr_ok.simps(2) less_numeral_extra(3) unsigned_0)
  show ?thesis
    using assms n nz get_put_u16s [of "fv_name v" "[]"]
    by (simp add: read_file_name_def file_name_value_def rd_u8_def ReadU64_def rd_bytes_def nth_append word_gt_0 Let_def)
qed

lemma read_file_name_behind: "read_file_name (pre @ bs) (length pre) n w = read_file_name bs 0 n w"
  by (simp add: read_file_name_def rd_behind rd_front cong: if_cong)

lemma read_standard_information_behind:
  "read_standard_information (pre @ bs) (length pre) n w = read_standard_information bs 0 n w"
  by (simp add: read_standard_information_def rd_behind rd_front cong: if_cong)

lemma read_resident:
  assumes "length val + length pad < 2 ^ 17 - 24" "t = kAttributeTypeStandardInformation \<or> t = kAttributeTypeFileName"
  shows "read_attribute (resident t val pad @ post) 0 t (length (resident t val pad)) w =
    (if t = kAttributeTypeStandardInformation then read_standard_information (val @ pad @ post) 0 (length val) w
     else read_file_name (val @ pad @ post) 0 (length val) w)"
proof -
  note r = resident_reads [OF assms(1)]
  have "read_file_name (resident t val pad @ post) 24 n w = read_file_name (val @ pad @ post) 0 n w"
    "read_standard_information (resident t val pad @ post) 24 n w = read_standard_information (val @ pad @ post) 0 n w" for n
    using read_file_name_behind [of "take 24 (resident t val pad)" "val @ pad @ post" n w]
      read_standard_information_behind [of "take 24 (resident t val pad)" "val @ pad @ post" n w]
    by (simp_all only: r(5,6))
  then show ?thesis using assms(2) by (auto simp: read_attribute_def r(1-4)) (simp_all add: resident_def)
qed

lemma read_attribute_encode:
  assumes "attr_ok a"
  shows "read_attribute (encode_attr a @ post) 0 (attr_type a) (length (encode_attr a)) w = Some (Some (apply_attr a w))"
proof (cases a)
  case (StandardInformation c m e x attrs pad)
  then show ?thesis using assms
    by (simp add: attr_type_def read_resident read_standard_information_def ReadU64_def ReadU32_def rd_bytes_def)
next
  case (FileName v pad)
  then have "length (file_name_value v) + length pad < 2 ^ 17 - 24" using assms by (simp add: file_name_value_def)
  then show ?thesis using assms FileName read_file_name_value [of v pad]
    by (simp add: attr_type_def read_resident kAttributeTypeStandardInformation_def kAttributeTypeFileName_def)
next
  case (OtherAttr t form body)
  then show ?thesis using assms by (auto simp: attr_type_def read_attribute_def rd_u8_def nth_append)
qed

lemma attr_loop_encode:
  assumes "\<And>a. a \<in> set attrs \<Longrightarrow> attr_ok a"
    and "length pre + length (concat (map encode_attr attrs)) \<le> recordExtent"
    and "recordExtent \<le> length (pre @ concat (map encode_attr attrs) @ put_le 4 kAttributeTypeEnd @ post)"
  shows "attr_loop (pre @ concat (map encode_attr attrs) @ put_le 4 kAttributeTypeEnd @ post) recordExtent (length pre) w =
    Some (Some (fold apply_attr attrs w))"
  using assms
proof (induction attrs arbitrary: pre w)
  case Nil
  have "ReadU32 (pre @ put_le 4 kAttributeTypeEnd @ post) (length pre) = Some kAttributeTypeEnd"
    by (simp add: ReadU32_def rd_bytes_def)
  then show ?case by (subst attr_loop.simps) simp
next
  case (Cons a attrs)
  have ok: "attr_ok a" using Cons.prems by simp
  let ?rest = "concat (map encode_attr attrs) @ put_le 4 kAttributeTypeEnd @ post"
  have ih: "attr_loop (pre @ encode_attr a @ ?rest) recordExtent (length pre + length (encode_attr a)) w' =
      Some (Some (fold apply_attr attrs w'))" for w'
    using Cons.IH [of "pre @ encode_attr a" w'] Cons.prems by (simp add: add.assoc)
  have reads: "ReadU32 (pre @ encode_attr a @ ?rest) (length pre) = Some (attr_type a)"
    "ReadU32 (pre @ encode_attr a @ ?rest) (length pre + 4) = Some (of_nat (length (encode_attr a)))"
    by (simp_all only: rd_behind rd_front attr_length [OF ok] attr_type_read [OF ok])
  show ?case
    using Cons.prems(2) attr_bounds [OF ok] reads attr_length(2) [OF ok] attr_type_read(2) [OF ok]
      read_attribute_encode [OF ok, of ?rest w] ih
    by (subst attr_loop.simps) (simp add: read_attribute_behind add.assoc)
qed

text \<open>
  The name a record is known by: the first one outside the DOS namespace, or the first one. Of several
  \<open>$STANDARD_INFORMATION\<close> attributes the last counts.
\<close>

definition attr_names :: "NtfsAttr list \<Rightarrow> FileNameValue list" where
  "attr_names attrs = concat (map (\<lambda>a. case a of FileName v pad \<Rightarrow> [v] | _ \<Rightarrow> []) attrs)"

definition attr_standard :: "NtfsAttr list \<Rightarrow> (u64 \<times> u64 \<times> u64 \<times> u32) list" where
  "attr_standard attrs =
     concat (map (\<lambda>a. case a of StandardInformation c m e x at pad \<Rightarrow> [(c, m, x, at)] | _ \<Rightarrow> []) attrs)"

definition chosen_name :: "FileNameValue list \<Rightarrow> FileNameValue option" where
  "chosen_name vs = (case find (\<lambda>v. fv_namespace v \<noteq> kFileNameNamespaceDos) vs of
       Some v \<Rightarrow> Some v | None \<Rightarrow> (case vs of [] \<Rightarrow> None | v # _ \<Rightarrow> Some v))"

lemma chosen_name_Nil [simp]: "chosen_name [] = None"
  by (simp add: chosen_name_def)

lemma find_holds: "find P xs = Some x \<Longrightarrow> P x"
  by (induction xs) (auto split: if_splits)

lemma chosen_name_snoc:
  "chosen_name (vs @ [v]) = (case chosen_name vs of None \<Rightarrow> Some v
     | Some u \<Rightarrow> Some (if fv_namespace u = kFileNameNamespaceDos \<and> fv_namespace v \<noteq> kFileNameNamespaceDos then v else u))"
proof -
  have "find P (vs @ [v]) = (case find P vs of None \<Rightarrow> find P [v] | Some u \<Rightarrow> Some u)" for P :: "FileNameValue \<Rightarrow> bool"
    by (induction vs) auto
  moreover have "find P vs = None \<Longrightarrow> vs \<noteq> [] \<Longrightarrow> \<not> P (hd vs)" for P :: "FileNameValue \<Rightarrow> bool"
    by (cases vs) (auto split: if_splits)
  ultimately show ?thesis unfolding chosen_name_def by (auto split: option.splits list.splits dest: find_holds)
qed

definition walk_of :: "NtfsAttr list \<Rightarrow> MftWalk \<Rightarrow> bool" where
  "walk_of attrs w \<longleftrightarrow>
     (mw_haveName w \<longleftrightarrow> chosen_name (attr_names attrs) \<noteq> None)
     \<and> (\<forall>v. chosen_name (attr_names attrs) = Some v \<longrightarrow> mw_parentRef w = fv_parent v \<and> mw_realSize w = fv_real v
          \<and> mw_allocatedSize w = fv_allocated v \<and> mw_bestNamespace w = fv_namespace v \<and> mw_bestName w = fv_name v)
     \<and> (mw_haveStandardInformation w \<longleftrightarrow> attr_standard attrs \<noteq> [])
     \<and> (attr_standard attrs \<noteq> [] \<longrightarrow> last (attr_standard attrs) =
          (mw_creationTime w, mw_lastModifiedTime w, mw_lastAccessTime w, mw_standardInfoAttributes w))"

lemma walk_of_fold: "walk_of attrs (fold apply_attr attrs walk_start)"
proof (induction attrs rule: rev_induct)
  case (snoc a attrs)
  have "walk_of (attrs @ [a]) (apply_attr a w)" if "walk_of attrs w" for w
    using that
    by (cases a) (auto simp: walk_of_def attr_names_def attr_standard_def chosen_name_snoc split: option.splits if_splits)
  then show ?case using snoc by simp
qed (simp add: walk_of_def attr_names_def attr_standard_def walk_start_def)

definition mft_record :: "byte list \<Rightarrow> u16 \<Rightarrow> byte list \<Rightarrow> NtfsAttr list \<Rightarrow> byte list \<Rightarrow> byte list" where
  "mft_record lead flags gap attrs post =
     lead @ put_le 2 (of_nat (28 + length gap) :: u16) @ put_le 2 flags
     @ put_le 4 (of_nat (28 + length gap + length (concat (map encode_attr attrs)) + 8) :: u32)
     @ gap @ concat (map encode_attr attrs) @ put_le 4 kAttributeTypeEnd @ post"

definition record_ok :: "byte list \<Rightarrow> byte list \<Rightarrow> NtfsAttr list \<Rightarrow> bool" where
  "record_ok lead gap attrs \<longleftrightarrow> length lead = 20 \<and> length gap < 2 ^ 15 \<and> list_all attr_ok attrs
     \<and> length (concat (map encode_attr attrs)) < 2 ^ 31"

definition walk_result :: "u16 \<Rightarrow> MftWalk \<Rightarrow> ParsedMftRecord option" where
  "walk_result flags w =
     (if \<not> mw_haveStandardInformation w \<or> \<not> mw_haveName w then None
      else Some \<lparr>pm_fileReferenceNumber = 0, pm_parentFileReferenceNumber = mw_parentRef w,
                 pm_creationTime = mw_creationTime w, pm_lastModifiedTime = mw_lastModifiedTime w,
                 pm_lastAccessTime = mw_lastAccessTime w, pm_sizeBytes = mw_realSize w,
                 pm_allocatedSizeBytes = mw_allocatedSize w,
                 pm_fileAttributes = mw_standardInfoAttributes w
                   OR (if flags AND kFileRecordDirectoryFlag \<noteq> 0 then kFileAttributeDirectory else 0),
                 pm_fileName = mw_bestName w\<rparr>)"

lemma ParseMftAttributes_walk:
  assumes "28 \<le> length rec" "ReadU16 rec 20 = Some first" "ReadU32 rec 24 = Some inUse" "ReadU16 rec 22 = Some flags"
    and "unat first < unat inUse" "unat inUse \<le> length rec"
    and "attr_loop rec (unat inUse) (unat first) walk_start = Some (Some w)"
  shows "ParseMftAttributes rec = Some (walk_result flags w)"
proof -
  have "(if unat inUse < length rec then unat inUse else length rec) = unat inUse" using assms(6) by simp
  then show ?thesis using assms by (simp add: ParseMftAttributes_def Let_def walk_result_def)
qed

lemma walk_of_result:
  "walk_of attrs w \<Longrightarrow> walk_result flags w =
    (case chosen_name (attr_names attrs) of None \<Rightarrow> None
     | Some v \<Rightarrow>
        if attr_standard attrs = [] then None
        else let (c, m, x, at) = last (attr_standard attrs) in
          Some \<lparr>pm_fileReferenceNumber = 0, pm_parentFileReferenceNumber = fv_parent v, pm_creationTime = c,
                pm_lastModifiedTime = m, pm_lastAccessTime = x, pm_sizeBytes = fv_real v,
                pm_allocatedSizeBytes = fv_allocated v,
                pm_fileAttributes = at OR (if flags AND kFileRecordDirectoryFlag \<noteq> 0 then kFileAttributeDirectory else 0),
                pm_fileName = fv_name v\<rparr>)"
  by (cases "chosen_name (attr_names attrs)"; cases "attr_standard attrs = []") (simp_all add: walk_of_def walk_result_def)

lemma mft_record_reads:
  assumes "record_ok lead gap attrs"
  shows "ReadU16 (mft_record lead flags gap attrs post) 20 = Some (of_nat (28 + length gap))"
    "unat (of_nat (28 + length gap) :: u16) = 28 + length gap"
    "ReadU16 (mft_record lead flags gap attrs post) 22 = Some flags"
    "ReadU32 (mft_record lead flags gap attrs post) 24 =
       Some (of_nat (28 + length gap + length (concat (map encode_attr attrs)) + 8))"
    "unat (of_nat (28 + length gap + length (concat (map encode_attr attrs)) + 8) :: u32) =
       28 + length gap + length (concat (map encode_attr attrs)) + 8"
proof -
  have l: "length lead = 20" using assms by (simp add: record_ok_def)
  show "ReadU16 (mft_record lead flags gap attrs post) 20 = Some (of_nat (28 + length gap))"
    "ReadU16 (mft_record lead flags gap attrs post) 22 = Some flags"
    "ReadU32 (mft_record lead flags gap attrs post) 24 =
       Some (of_nat (28 + length gap + length (concat (map encode_attr attrs)) + 8))"
    by (simp_all add: mft_record_def ReadU16_def ReadU32_def rd_bytes_def l)
  show "unat (of_nat (28 + length gap) :: u16) = 28 + length gap"
    "unat (of_nat (28 + length gap + length (concat (map encode_attr attrs)) + 8) :: u32) =
       28 + length gap + length (concat (map encode_attr attrs)) + 8"
    using assms unfolding unat_of_nat by (simp_all add: record_ok_def)
qed

text \<open>
  C14. Parsing a laid out file record recovers exactly what it stores: the times and attribute bits of the last
  \<open>$STANDARD_INFORMATION\<close>, the directory bit from the record header, and parent, sizes and name of the first name
  outside the DOS namespace, else of the first name; a record without a name or without
  standard information is skipped. Attributes of other types and non-resident ones have no influence.
\<close>

theorem ParseMftAttributes_layout:
  assumes "record_ok lead gap attrs" "4 \<le> length post"
  shows "ParseMftAttributes (mft_record lead flags gap attrs post) = Some
    (case chosen_name (attr_names attrs) of None \<Rightarrow> None
     | Some v \<Rightarrow>
        if attr_standard attrs = [] then None
        else let (c, m, x, at) = last (attr_standard attrs) in
          Some \<lparr>pm_fileReferenceNumber = 0, pm_parentFileReferenceNumber = fv_parent v, pm_creationTime = c,
                pm_lastModifiedTime = m, pm_lastAccessTime = x, pm_sizeBytes = fv_real v,
                pm_allocatedSizeBytes = fv_allocated v,
                pm_fileAttributes = at OR (if flags AND kFileRecordDirectoryFlag \<noteq> 0 then kFileAttributeDirectory else 0),
                pm_fileName = fv_name v\<rparr>)"
proof -
  note r = mft_record_reads [OF assms(1)]
  let ?rec = "mft_record lead flags gap attrs post" and ?body = "concat (map encode_attr attrs)"
  let ?pre = "take (28 + length gap) ?rec" and ?ext = "28 + length gap + length ?body + 8"
  have l: "length lead = 20" "\<And>a. a \<in> set attrs \<Longrightarrow> attr_ok a"
    using assms(1) by (auto simp: record_ok_def list_all_iff)
  have pre: "?rec = ?pre @ ?body @ put_le 4 kAttributeTypeEnd @ post" "length ?pre = 28 + length gap"
    by (simp_all add: mft_record_def l(1))
  have len: "length ?rec = 28 + length gap + length ?body + 4 + length post"
    by (simp add: mft_record_def l(1))
  have "attr_loop (?pre @ ?body @ put_le 4 kAttributeTypeEnd @ post) ?ext (length ?pre) walk_start =
      Some (Some (fold apply_attr attrs walk_start))"
    by (rule attr_loop_encode) (use l assms(2) pre(2) in auto)
  then have "attr_loop ?rec ?ext (28 + length gap) walk_start = Some (Some (fold apply_attr attrs walk_start))"
    by (simp only: pre(2) pre(1) [symmetric])
  then have "ParseMftAttributes ?rec = Some (walk_result flags (fold apply_attr attrs walk_start))"
    by (intro ParseMftAttributes_walk [OF _ r(1,4,3)]; (unfold r(2,5) len)?) (use assms(2) in simp_all)
  then show ?thesis by (simp only: walk_of_result [OF walk_of_fold])
qed

definition sample_attrs :: "NtfsAttr list" where
  "sample_attrs =
     [FileName \<lparr>fv_parent = 5, fv_times = replicate 32 0, fv_allocated = 8, fv_real = 7, fv_flags = replicate 8 0,
                fv_namespace = 2, fv_name = [65, 126, 49]\<rparr> [],
      StandardInformation 1 2 3 4 32 [0, 0],
      FileName \<lparr>fv_parent = 5, fv_times = replicate 32 0, fv_allocated = 8, fv_real = 7, fv_flags = replicate 8 0,
                fv_namespace = 1, fv_name = [97, 98, 99, 100]\<rparr> [0]]"

theorem ParseMftAttributes_layout_witness:
  "record_ok (replicate 20 0) [] sample_attrs
   \<and> map_option (map_option pm_fileName) (ParseMftAttributes (mft_record (replicate 20 0) 3 [] sample_attrs [0, 0, 0, 0]))
       = Some (Some [97, 98, 99, 100])"
proof -
  have ok: "record_ok (replicate 20 0) [] sample_attrs"
    by (simp add: record_ok_def sample_attrs_def resident_def file_name_value_def)
  moreover have "chosen_name (attr_names sample_attrs) = Some (attr_names sample_attrs ! 1)"
    "attr_standard sample_attrs = [(1, 2, 4, 32)]" "fv_name (attr_names sample_attrs ! 1) = [97, 98, 99, 100]"
    by (simp_all add: sample_attrs_def chosen_name_def attr_names_def attr_standard_def kFileNameNamespaceDos_def)
  ultimately show ?thesis using ParseMftAttributes_layout [OF ok, of "[0, 0, 0, 0]" 3] by simp
qed

end
