(* ===== verification/Snapshot.thy ===== *)
theory Snapshot
  imports Prelude
begin

text \<open>
  The snapshot format (\<open>protocol/SnapshotFormat\<close>) in which the engine publishes directory listings through
  shared memory: the size computation, the bounded writer, the parser of the user interface side, and the
  pooled name storage from which the engine builds the bytes.

  A \<open>std::map\<close> is the list of its elements in iteration order. The writer works on a buffer of fixed
  capacity; the reader is the list of the bytes not yet consumed. Running out of memory is not modelled.
\<close>

section \<open>Data\<close>

definition kSnapshotMaximumPayloadBytes :: nat where "kSnapshotMaximumPayloadBytes = 256 * 1024 * 1024"
definition kSnapshotFormatVersion :: u32 where "kSnapshotFormatVersion = 3"

definition IsSnapshotFormatCompatible :: "u32 \<Rightarrow> bool" where
  "IsSnapshotFormatCompatible formatVersion \<longleftrightarrow> formatVersion = kSnapshotFormatVersion"

datatype DirectoryEnumerationStatus = Success | AccessDenied | NotFound | IoError

definition status_value :: "DirectoryEnumerationStatus \<Rightarrow> u32" where
  "status_value st = (case st of Success \<Rightarrow> 0 | AccessDenied \<Rightarrow> 1 | NotFound \<Rightarrow> 2 | IoError \<Rightarrow> 3)"

definition status_of :: "u32 \<Rightarrow> DirectoryEnumerationStatus" where
  "status_of v = (if v = 0 then Success else if v = 1 then AccessDenied else if v = 2 then NotFound else IoError)"

text \<open>
  The fields of an entry other than its name, which the three kinds of entry of the format share.
  \<open>int64_t\<close> row ids are kept as their 64 bit pattern, so the casts to and from \<open>uint64_t\<close> are the identity.
\<close>

record EntryFields =
  se_isDirectory :: bool
  se_sizeBytes :: u64
  se_allocatedSizeBytes :: u64
  se_allocatedSizeKnown :: bool
  se_attributes :: u32
  se_creationTime :: u64
  se_lastModifiedTime :: u64
  se_volumeRowId :: u64
  se_fileIdLow :: u64
  se_fileIdHigh :: u64
  se_parentIdLow :: u64
  se_parentIdHigh :: u64

record SnapshotDirectoryEntry = EntryFields +
  se_name :: u16string

record SnapshotDirectory =
  sd_status :: DirectoryEnumerationStatus
  sd_entries :: "SnapshotDirectoryEntry list"
  sd_volumeRowId :: u64
  sd_directoryIdLow :: u64
  sd_directoryIdHigh :: u64
  sd_parentIdLow :: u64
  sd_parentIdHigh :: u64

type_synonym SnapshotMap = "(u16string \<times> SnapshotDirectory) list"

section \<open>The size pass\<close>

text \<open>\<open>size_t\<close> sums: \<open>None\<close> where the addition would exceed 64 bits.\<close>

definition AddBytes :: "nat \<Rightarrow> nat \<Rightarrow> nat option" where
  "AddBytes current additional = (if additional > (2 ^ 64 - 1) - current then None else Some (current + additional))"

definition AddWideStringBytes :: "nat \<Rightarrow> u16string \<Rightarrow> nat option" where
  "AddWideStringBytes current txt =
     (if length txt > 2 ^ 32 - 1 then None
      else if length txt > (2 ^ 64 - 1) div 2 then None
      else Option.bind (AddBytes current 4) (\<lambda>r. AddBytes r (length txt * 2)))"

fun size_entries :: "nat \<Rightarrow> SnapshotDirectoryEntry list \<Rightarrow> nat option" where
  "size_entries acc [] = Some acc"
| "size_entries acc (entry # entries) =
     Option.bind (AddBytes acc (1 + 4 + 2 * 8 + 1 + 7 * 8)) (\<lambda>t1.
     Option.bind (AddWideStringBytes t1 (se_name entry)) (\<lambda>t2. size_entries t2 entries))"

fun size_directories :: "nat \<Rightarrow> SnapshotMap \<Rightarrow> nat option" where
  "size_directories acc [] = Some acc"
| "size_directories acc ((path, directory) # rest) =
     Option.bind (AddWideStringBytes acc path) (\<lambda>t1.
     Option.bind (AddBytes t1 4) (\<lambda>t2.
     Option.bind (AddBytes t2 (5 * 8)) (\<lambda>t3.
     if length (sd_entries directory) > 2 ^ 32 - 1 then None
     else Option.bind (AddBytes t3 4) (\<lambda>t4.
     Option.bind (size_entries t4 (sd_entries directory)) (\<lambda>t5. size_directories t5 rest)))))"

definition SerializedSnapshotSize :: "SnapshotMap \<Rightarrow> nat" where
  "SerializedSnapshotSize directories =
     (if length directories > 2 ^ 32 - 1 then 0
      else case size_directories 4 directories of None \<Rightarrow> 0 | Some acc \<Rightarrow> acc)"

section \<open>The write pass\<close>

record Writer =
  w_destination :: "byte list"
  w_offset :: nat
  w_valid :: bool

type_synonym writing = "Writer \<Rightarrow> bool \<times> Writer"

text \<open>\<open>a || b\<close> on negated writes: the second runs only after the first succeeded.\<close>

definition and_then :: "writing \<Rightarrow> writing \<Rightarrow> writing" where
  "and_then f g w = (case f w of (ok, w') \<Rightarrow> if ok then g w' else (False, w'))"

definition skip :: writing where "skip w = (True, w)"

definition WriteRaw :: "byte list \<Rightarrow> writing" where
  "WriteRaw source w =
     (if \<not> w_valid w \<or> length source > length (w_destination w) - w_offset w
      then (False, w\<lparr>w_valid := False\<rparr>)
      else (True, w\<lparr>w_destination := take (w_offset w) (w_destination w) @ source
                       @ drop (w_offset w + length source) (w_destination w),
                     w_offset := w_offset w + length source\<rparr>))"

definition WriteU32 :: "u32 \<Rightarrow> writing" where "WriteU32 val = WriteRaw (put_le 4 val)"
definition WriteU64 :: "u64 \<Rightarrow> writing" where "WriteU64 val = WriteRaw (put_le 8 val)"
definition WriteByte :: "byte \<Rightarrow> writing" where "WriteByte val = WriteRaw [val]"

definition WriteWideString :: "u16string \<Rightarrow> writing" where
  "WriteWideString txt w =
     (if length txt > 2 ^ 32 - 1 \<or> length txt > (2 ^ 64 - 1) div 2 then (False, w\<lparr>w_valid := False\<rparr>)
      else and_then (WriteU32 (of_nat (length txt))) (WriteRaw (put_u16s txt)) w)"

definition bool_byte :: "bool \<Rightarrow> byte" where "bool_byte b = (if b then 1 else 0)"

definition write_entry :: "SnapshotDirectoryEntry \<Rightarrow> writing" where
  "write_entry entry =
     and_then (WriteByte (bool_byte (se_isDirectory entry)))
    (and_then (WriteU64 (se_sizeBytes entry))
    (and_then (WriteU64 (se_allocatedSizeBytes entry))
    (and_then (WriteByte (bool_byte (se_allocatedSizeKnown entry)))
    (and_then (WriteU32 (se_attributes entry))
    (and_then (WriteU64 (se_creationTime entry))
    (and_then (WriteU64 (se_lastModifiedTime entry))
    (and_then (WriteU64 (se_volumeRowId entry))
    (and_then (WriteU64 (se_fileIdLow entry))
    (and_then (WriteU64 (se_fileIdHigh entry))
    (and_then (WriteU64 (se_parentIdLow entry))
    (and_then (WriteU64 (se_parentIdHigh entry))
              (WriteWideString (se_name entry)))))))))))))"

definition write_directory :: "u16string \<times> SnapshotDirectory \<Rightarrow> writing" where
  "write_directory pd = (case pd of (path, directory) \<Rightarrow>
     and_then (WriteWideString path)
    (and_then (WriteU32 (status_value (sd_status directory)))
    (and_then (WriteU64 (sd_volumeRowId directory))
    (and_then (WriteU64 (sd_directoryIdLow directory))
    (and_then (WriteU64 (sd_directoryIdHigh directory))
    (and_then (WriteU64 (sd_parentIdLow directory))
    (and_then (WriteU64 (sd_parentIdHigh directory))
    (and_then (WriteU32 (of_nat (length (sd_entries directory))))
              (foldr (\<lambda>e. and_then (write_entry e)) (sd_entries directory) skip)))))))))"

text \<open>The destination is \<open>None\<close> for a null pointer, otherwise the storage, whose length is the capacity.\<close>

definition SerializeSnapshotTo :: "SnapshotMap \<Rightarrow> byte list option \<Rightarrow> bool \<times> byte list option" where
  "SerializeSnapshotTo directories destination =
     (case destination of
        None \<Rightarrow> (False, None)
      | Some storage \<Rightarrow>
          if length directories > 2 ^ 32 - 1 then (False, Some storage)
          else
            let (ok, w) = and_then (WriteU32 (of_nat (length directories)))
                            (foldr (\<lambda>d. and_then (write_directory d)) directories skip)
                            \<lparr>w_destination = storage, w_offset = 0, w_valid = True\<rparr>
            in (ok \<and> w_valid w, Some (w_destination w)))"

definition SerializeSnapshot :: "SnapshotMap \<Rightarrow> byte list" where
  "SerializeSnapshot directories =
     (let sz = SerializedSnapshotSize directories in
      if sz = 0 then []
      else case SerializeSnapshotTo directories (Some (replicate sz 0)) of
        (True, Some buffer) \<Rightarrow> buffer
      | _ \<Rightarrow> [])"

section \<open>The parser\<close>

type_synonym 'a reader = "byte list \<Rightarrow> ('a \<times> byte list) option"

definition rd_then :: "'a reader \<Rightarrow> ('a \<Rightarrow> 'b reader) \<Rightarrow> 'b reader" where
  "rd_then r f bs = (case r bs of None \<Rightarrow> None | Some (x, rest) \<Rightarrow> f x rest)"

definition rd_return :: "'a \<Rightarrow> 'a reader" where
  "rd_return x bs = Some (x, bs)"

definition Reader_ReadU32 :: "u32 reader" where
  "Reader_ReadU32 bs = (if length bs < 4 then None else Some (get_le (take 4 bs), drop 4 bs))"

definition Reader_ReadU64 :: "u64 reader" where
  "Reader_ReadU64 bs = (if length bs < 8 then None else Some (get_le (take 8 bs), drop 8 bs))"

definition Reader_ReadByte :: "byte reader" where
  "Reader_ReadByte bs = (case bs of [] \<Rightarrow> None | b # rest \<Rightarrow> Some (b, rest))"

definition take_wide :: "u32 \<Rightarrow> u16string reader" where
  "take_wide lengthChars bs =
     (if unat lengthChars > length bs div 2 then None
      else Some (get_u16s (unat lengthChars) bs, drop (unat lengthChars * 2) bs))"

definition ReadWString :: "u16string reader" where
  "ReadWString = rd_then Reader_ReadU32 take_wide"

definition read_entry :: "SnapshotDirectoryEntry reader" where
  "read_entry =
     rd_then Reader_ReadByte (\<lambda>isDirectoryByte.
     rd_then Reader_ReadU64 (\<lambda>sizeBytes.
     rd_then Reader_ReadU64 (\<lambda>allocatedSizeBytes.
     rd_then Reader_ReadByte (\<lambda>allocatedSizeKnownByte.
     rd_then Reader_ReadU32 (\<lambda>attributes.
     rd_then Reader_ReadU64 (\<lambda>creationTime.
     rd_then Reader_ReadU64 (\<lambda>lastModifiedTime.
     rd_then Reader_ReadU64 (\<lambda>entryVolumeRowId.
     rd_then Reader_ReadU64 (\<lambda>fileIdLow.
     rd_then Reader_ReadU64 (\<lambda>fileIdHigh.
     rd_then Reader_ReadU64 (\<lambda>entryParentIdLow.
     rd_then Reader_ReadU64 (\<lambda>entryParentIdHigh.
     rd_then ReadWString (\<lambda>name.
     rd_return
       \<lparr>se_isDirectory = (isDirectoryByte \<noteq> 0), se_sizeBytes = sizeBytes,
        se_allocatedSizeBytes = allocatedSizeBytes, se_allocatedSizeKnown = (allocatedSizeKnownByte \<noteq> 0),
        se_attributes = attributes, se_creationTime = creationTime, se_lastModifiedTime = lastModifiedTime,
        se_volumeRowId = entryVolumeRowId, se_fileIdLow = fileIdLow, se_fileIdHigh = fileIdHigh,
        se_parentIdLow = entryParentIdLow, se_parentIdHigh = entryParentIdHigh, se_name = name\<rparr>)))))))))))))"

text \<open>A counted loop of reads.\<close>

fun read_times :: "'a reader \<Rightarrow> nat \<Rightarrow> 'a list reader" where
  "read_times r 0 = rd_return []"
| "read_times r (Suc n) = rd_then r (\<lambda>x. rd_then (read_times r n) (\<lambda>xs. rd_return (x # xs)))"

definition kMinBytesPerEntry :: nat where "kMinBytesPerEntry = 1 + 2 * 8 + 1 + 4 + 7 * 8"

definition read_directory :: "(u16string \<times> SnapshotDirectory) reader" where
  "read_directory =
     rd_then ReadWString (\<lambda>path.
     rd_then Reader_ReadU32 (\<lambda>statusRaw.
     rd_then Reader_ReadU64 (\<lambda>volumeRowId.
     rd_then Reader_ReadU64 (\<lambda>directoryIdLow.
     rd_then Reader_ReadU64 (\<lambda>directoryIdHigh.
     rd_then Reader_ReadU64 (\<lambda>parentIdLow.
     rd_then Reader_ReadU64 (\<lambda>parentIdHigh.
     rd_then Reader_ReadU32 (\<lambda>entryCount bs.
       if statusRaw > status_value IoError then None
       else if unat entryCount * kMinBytesPerEntry > length bs then None
       else rd_then (read_times read_entry (unat entryCount)) (\<lambda>entries. rd_return
         (path, \<lparr>sd_status = status_of statusRaw, sd_entries = entries, sd_volumeRowId = volumeRowId,
                 sd_directoryIdLow = directoryIdLow, sd_directoryIdHigh = directoryIdHigh,
                 sd_parentIdLow = parentIdLow, sd_parentIdHigh = parentIdHigh\<rparr>)) bs))))))))"

text \<open>The order of \<open>std::less<std::wstring>\<close>, and insertion that keeps an element already present.\<close>

fun path_less :: "u16string \<Rightarrow> u16string \<Rightarrow> bool" where
  "path_less xs [] \<longleftrightarrow> False"
| "path_less [] (y # ys) \<longleftrightarrow> True"
| "path_less (x # xs) (y # ys) \<longleftrightarrow> x < y \<or> (x = y \<and> path_less xs ys)"

fun map_emplace :: "u16string \<Rightarrow> 'v \<Rightarrow> (u16string \<times> 'v) list \<Rightarrow> (u16string \<times> 'v) list" where
  "map_emplace k v [] = [(k, v)]"
| "map_emplace k v ((k', v') # m) =
     (if path_less k k' then (k, v) # (k', v') # m
      else if path_less k' k then (k', v') # map_emplace k v m
      else (k', v') # m)"

definition ParseSnapshot :: "byte list \<Rightarrow> SnapshotMap option" where
  "ParseSnapshot data =
     (case rd_then Reader_ReadU32 (\<lambda>directoryCount. read_times read_directory (unat directoryCount)) data of
        None \<Rightarrow> None
      | Some (directories, rest) \<Rightarrow>
          if rest \<noteq> [] then None
          else Some (fold (\<lambda>(path, directory). map_emplace path directory) directories []))"

section \<open>Pooled names\<close>

text \<open>
  The engine keeps the name text of a directory in one buffer, and the entries hold views into it. Buffers live at addresses of a
  store; a view is an address with an offset and a length, or null. Moving a directory keeps its buffer where it is.
\<close>

type_synonym store = "nat \<Rightarrow> u16string"

record NameView =
  nv_buffer :: "nat option"
  nv_offset :: nat
  nv_length :: nat

definition view_text :: "store \<Rightarrow> NameView \<Rightarrow> u16string" where
  "view_text store v = (case nv_buffer v of None \<Rightarrow> [] | Some a \<Rightarrow> take (nv_length v) (drop (nv_offset v) (store a)))"

record PooledSnapshotEntry = EntryFields +
  pe_name :: NameView

record PooledSnapshotDirectory =
  pd_status :: DirectoryEnumerationStatus
  pd_nameChars :: nat
  pd_entries :: "PooledSnapshotEntry list"
  pd_volumeRowId :: u64
  pd_directoryIdLow :: u64
  pd_directoryIdHigh :: u64
  pd_parentIdLow :: u64
  pd_parentIdHigh :: u64

record PendingEntry = EntryFields +
  pn_nameOffsetChars :: u32
  pn_nameLengthChars :: u32

record PooledSnapshotDirectoryBuilder =
  pb_status :: DirectoryEnumerationStatus
  pb_nameChars :: u16string
  pb_pending :: "PendingEntry list"
  pb_volumeRowId :: u64
  pb_directoryIdLow :: u64
  pb_directoryIdHigh :: u64
  pb_parentIdLow :: u64
  pb_parentIdHigh :: u64

definition new_builder :: PooledSnapshotDirectoryBuilder where
  "new_builder = \<lparr>pb_status = NotFound, pb_nameChars = [], pb_pending = [], pb_volumeRowId = 0, pb_directoryIdLow = 0,
     pb_directoryIdHigh = 0, pb_parentIdLow = 0, pb_parentIdHigh = 0\<rparr>"

definition SetStatus :: "DirectoryEnumerationStatus \<Rightarrow> PooledSnapshotDirectoryBuilder \<Rightarrow> PooledSnapshotDirectoryBuilder" where
  "SetStatus st b = b\<lparr>pb_status := st\<rparr>"

definition SetIdentity :: "u64 \<Rightarrow> u64 \<Rightarrow> u64 \<Rightarrow> u64 \<Rightarrow> u64 \<Rightarrow> PooledSnapshotDirectoryBuilder \<Rightarrow> PooledSnapshotDirectoryBuilder" where
  "SetIdentity volumeRowId directoryIdLow directoryIdHigh parentIdLow parentIdHigh b =
     b\<lparr>pb_volumeRowId := volumeRowId, pb_directoryIdLow := directoryIdLow, pb_directoryIdHigh := directoryIdHigh,
       pb_parentIdLow := parentIdLow, pb_parentIdHigh := parentIdHigh\<rparr>"

text \<open>The fields of the new entry are the arguments behind the name; offset and length are cut to 32 bits.\<close>

definition AddEntryText :: "u16string \<Rightarrow> EntryFields \<Rightarrow> PooledSnapshotDirectoryBuilder \<Rightarrow> PooledSnapshotDirectoryBuilder" where
  "AddEntryText name f b =
     (let offsetChars = length (pb_nameChars b) in
      b\<lparr>pb_nameChars := pb_nameChars b @ name,
        pb_pending := pb_pending b @
          [EntryFields.extend f (PendingEntry.fields (of_nat offsetChars) (of_nat (length name)))]\<rparr>)"

text \<open>\<open>Build\<close> moves the text into the directory: the buffer ends up at the address \<open>a\<close>.\<close>

definition Build :: "nat \<Rightarrow> store \<Rightarrow> PooledSnapshotDirectoryBuilder \<Rightarrow> store \<times> PooledSnapshotDirectory" where
  "Build a store b =
     (store(a := pb_nameChars b),
      \<lparr>pd_status = pb_status b, pd_nameChars = a,
       pd_entries = map (\<lambda>pending. EntryFields.extend (EntryFields.truncate pending)
          (PooledSnapshotEntry.fields
            \<lparr>nv_buffer = Some a, nv_offset = unat (pn_nameOffsetChars pending), nv_length = unat (pn_nameLengthChars pending)\<rparr>))
          (pb_pending b),
       pd_volumeRowId = pb_volumeRowId b, pd_directoryIdLow = pb_directoryIdLow b, pd_directoryIdHigh = pb_directoryIdHigh b,
       pd_parentIdLow = pb_parentIdLow b, pd_parentIdHigh = pb_parentIdHigh b\<rparr>)"

definition RemapEntryNames :: "store \<Rightarrow> PooledSnapshotDirectory \<Rightarrow> PooledSnapshotDirectory \<Rightarrow> PooledSnapshotDirectory" where
  "RemapEntryNames store other d =
     (if length (pd_entries other) < length (pd_entries d) then d
      else d\<lparr>pd_entries := map (\<lambda>(entry, source).
             let oldName = pe_name source;
                 offsetChars = (if store (pd_nameChars other) = [] \<or> nv_buffer oldName = None then 0 else nv_offset oldName)
             in entry\<lparr>pe_name := (if store (pd_nameChars d) = []
                                  then \<lparr>nv_buffer = None, nv_offset = 0, nv_length = 0\<rparr>
                                  else \<lparr>nv_buffer = Some (pd_nameChars d), nv_offset = offsetChars,
                                        nv_length = nv_length oldName\<rparr>)\<rparr>)
           (zip (pd_entries d) (pd_entries other))\<rparr>)"

text \<open>The copy constructor allocates its buffer at \<open>a\<close>; assignment copies and moves unless it assigns an object to itself.\<close>

definition copy_directory :: "nat \<Rightarrow> store \<Rightarrow> PooledSnapshotDirectory \<Rightarrow> store \<times> PooledSnapshotDirectory" where
  "copy_directory a store other =
     (let store' = store(a := store (pd_nameChars other))
      in (store', RemapEntryNames store' other (other\<lparr>pd_nameChars := a\<rparr>)))"

definition assign_directory ::
    "bool \<Rightarrow> nat \<Rightarrow> store \<Rightarrow> PooledSnapshotDirectory \<Rightarrow> PooledSnapshotDirectory \<Rightarrow> store \<times> PooledSnapshotDirectory" where
  "assign_directory self a store this other = (if self then (store, this) else copy_directory a store other)"

text \<open>What the serializer reads through the views.\<close>

definition deref_entry :: "store \<Rightarrow> PooledSnapshotEntry \<Rightarrow> SnapshotDirectoryEntry" where
  "deref_entry store e = EntryFields.extend (EntryFields.truncate e) (SnapshotDirectoryEntry.fields (view_text store (pe_name e)))"

definition deref_directory :: "store \<Rightarrow> PooledSnapshotDirectory \<Rightarrow> SnapshotDirectory" where
  "deref_directory store d =
     \<lparr>sd_status = pd_status d, sd_entries = map (deref_entry store) (pd_entries d), sd_volumeRowId = pd_volumeRowId d,
      sd_directoryIdLow = pd_directoryIdLow d, sd_directoryIdHigh = pd_directoryIdHigh d,
      sd_parentIdLow = pd_parentIdLow d, sd_parentIdHigh = pd_parentIdHigh d\<rparr>"

definition SerializeSnapshot_pooled :: "store \<Rightarrow> (u16string \<times> PooledSnapshotDirectory) list \<Rightarrow> byte list" where
  "SerializeSnapshot_pooled store ds = SerializeSnapshot (map (\<lambda>(p, d). (p, deref_directory store d)) ds)"

section \<open>The layout\<close>

text \<open>The bytes of every part, and what the format can represent.\<close>

definition wide_bytes :: "u16string \<Rightarrow> byte list" where
  "wide_bytes txt = put_le 4 (of_nat (length txt) :: u32) @ put_u16s txt"

definition entry_bytes :: "SnapshotDirectoryEntry \<Rightarrow> byte list" where
  "entry_bytes e =
     [bool_byte (se_isDirectory e)] @ put_le 8 (se_sizeBytes e) @ put_le 8 (se_allocatedSizeBytes e)
     @ [bool_byte (se_allocatedSizeKnown e)] @ put_le 4 (se_attributes e) @ put_le 8 (se_creationTime e)
     @ put_le 8 (se_lastModifiedTime e) @ put_le 8 (se_volumeRowId e) @ put_le 8 (se_fileIdLow e)
     @ put_le 8 (se_fileIdHigh e) @ put_le 8 (se_parentIdLow e) @ put_le 8 (se_parentIdHigh e) @ wide_bytes (se_name e)"

definition directory_bytes :: "u16string \<times> SnapshotDirectory \<Rightarrow> byte list" where
  "directory_bytes pd =
     wide_bytes (fst pd) @ put_le 4 (status_value (sd_status (snd pd))) @ put_le 8 (sd_volumeRowId (snd pd))
     @ put_le 8 (sd_directoryIdLow (snd pd)) @ put_le 8 (sd_directoryIdHigh (snd pd))
     @ put_le 8 (sd_parentIdLow (snd pd)) @ put_le 8 (sd_parentIdHigh (snd pd))
     @ put_le 4 (of_nat (length (sd_entries (snd pd))) :: u32) @ concat (map entry_bytes (sd_entries (snd pd)))"

definition snapshot_bytes :: "SnapshotMap \<Rightarrow> byte list" where
  "snapshot_bytes ds = put_le 4 (of_nat (length ds) :: u32) @ concat (map directory_bytes ds)"

definition wide_ok :: "u16string \<Rightarrow> bool" where "wide_ok txt \<longleftrightarrow> length txt < 2 ^ 32"

definition entry_ok :: "SnapshotDirectoryEntry \<Rightarrow> bool" where "entry_ok e \<longleftrightarrow> wide_ok (se_name e)"

definition directory_ok :: "u16string \<times> SnapshotDirectory \<Rightarrow> bool" where
  "directory_ok pd \<longleftrightarrow> wide_ok (fst pd) \<and> length (sd_entries (snd pd)) < 2 ^ 32 \<and> list_all entry_ok (sd_entries (snd pd))"

lemma length_wide_bytes: "length (wide_bytes txt) = 4 + 2 * length txt"
  by (simp add: wide_bytes_def)

lemma length_entry_bytes: "length (entry_bytes e) = kMinBytesPerEntry + 4 + 2 * length (se_name e)"
  by (simp add: entry_bytes_def length_wide_bytes kMinBytesPerEntry_def)

lemma unat_count: "n < 2 ^ 32 \<Longrightarrow> unat (of_nat n :: u32) = n"
  by (simp add: unat_of_nat)

subsection \<open>The size pass computes the length\<close>

lemma AddBytes_Some: "AddBytes c a = Some t \<Longrightarrow> t = c + a"
  by (auto simp: AddBytes_def split: if_splits)

lemma AddWideStringBytes_Some: "AddWideStringBytes c txt = Some t \<Longrightarrow> t = c + length (wide_bytes txt) \<and> wide_ok txt"
  by (auto simp: AddWideStringBytes_def length_wide_bytes wide_ok_def bind_eq_Some_conv dest!: AddBytes_Some split: if_splits)

lemma size_entries_Some:
  "size_entries c es = Some t \<Longrightarrow> t = c + length (concat (map entry_bytes es)) \<and> list_all entry_ok es"
  by (induction es arbitrary: c)
    (fastforce simp: bind_eq_Some_conv length_wide_bytes length_entry_bytes kMinBytesPerEntry_def entry_ok_def
      dest!: AddBytes_Some AddWideStringBytes_Some)+

lemma size_directories_Some:
  "size_directories c ds = Some t \<Longrightarrow> t = c + length (concat (map directory_bytes ds)) \<and> list_all directory_ok ds"
proof (induction ds arbitrary: c)
  case (Cons pd ds)
  obtain path d where pd: "pd = (path, d)" by (cases pd)
  obtain t1 t2 t3 t4 t5 where t: "AddWideStringBytes c path = Some t1" "AddBytes t1 4 = Some t2" "AddBytes t2 (5 * 8) = Some t3"
    "AddBytes t3 4 = Some t4" "size_entries t4 (sd_entries d) = Some t5" "size_directories t5 ds = Some t"
    and n: "length (sd_entries d) \<le> 2 ^ 32 - 1"
    using Cons.prems by (auto simp: pd bind_eq_Some_conv split: if_splits)
  show ?case
    using t(2-4) [THEN AddBytes_Some] AddWideStringBytes_Some [OF t(1)] size_entries_Some [OF t(5)] Cons.IH [OF t(6)] n
    by (simp add: pd directory_bytes_def directory_ok_def)
qed simp

lemma SerializedSnapshotSize_length:
  "SerializedSnapshotSize ds \<noteq> 0 \<Longrightarrow>
   SerializedSnapshotSize ds = length (snapshot_bytes ds) \<and> length ds < 2 ^ 32 \<and> list_all directory_ok ds"
  by (auto simp: SerializedSnapshotSize_def snapshot_bytes_def dest!: size_directories_Some split: if_splits option.splits)

subsection \<open>The write pass emits it\<close>

text \<open>A write that puts \<open>bs\<close> at the offset when they fit into the capacity, and fails when they do not.\<close>

definition overwrite :: "byte list \<Rightarrow> Writer \<Rightarrow> Writer" where
  "overwrite bs w = w\<lparr>w_destination := take (w_offset w) (w_destination w) @ bs @ drop (w_offset w + length bs) (w_destination w),
                      w_offset := w_offset w + length bs\<rparr>"

definition emits :: "writing \<Rightarrow> byte list \<Rightarrow> bool" where
  "emits f bs \<longleftrightarrow> (\<forall>w. w_valid w \<longrightarrow> w_offset w \<le> length (w_destination w) \<longrightarrow>
     (if w_offset w + length bs \<le> length (w_destination w) then f w = (True, overwrite bs w) else \<not> fst (f w)))"

lemma overwrite_fields:
  "w_offset w + length bs \<le> length (w_destination w) \<Longrightarrow> length (w_destination (overwrite bs w)) = length (w_destination w)"
  "w_offset (overwrite bs w) = w_offset w + length bs" "w_valid (overwrite bs w) = w_valid w"
  by (simp_all add: overwrite_def)

lemma overwrite_append:
  "w_offset w + length a \<le> length (w_destination w) \<Longrightarrow> overwrite b (overwrite a w) = overwrite (a @ b) w"
  by (cases a) (auto simp: overwrite_def min_def add.commute add.left_commute)

lemma emits_and_then:
  assumes "emits f a" "emits g b"
  shows "emits (and_then f g) (a @ b)"
  unfolding emits_def
proof (intro allI impI)
  fix w :: Writer assume w: "w_valid w" "w_offset w \<le> length (w_destination w)"
  show "if w_offset w + length (a @ b) \<le> length (w_destination w) then and_then f g w = (True, overwrite (a @ b) w)
    else \<not> fst (and_then f g w)"
  proof (cases "w_offset w + length a \<le> length (w_destination w)")
    case True
    then have f: "f w = (True, overwrite a w)" using assms(1) w by (simp add: emits_def)
    have "if w_offset (overwrite a w) + length b \<le> length (w_destination (overwrite a w))
        then g (overwrite a w) = (True, overwrite b (overwrite a w)) else \<not> fst (g (overwrite a w))"
      using assms(2) w True by (simp add: emits_def overwrite_fields)
    then show ?thesis using f True by (simp add: and_then_def overwrite_fields overwrite_append add.assoc split: if_splits)
  next
    case False
    then have "\<not> fst (f w)" using assms(1) w by (simp add: emits_def)
    then show ?thesis using False by (auto simp: and_then_def split: prod.split)
  qed
qed

lemma emits_raw: "emits (WriteRaw bs) bs"
  by (auto simp: emits_def WriteRaw_def overwrite_def)

lemma emits_skip: "emits skip []"
  by (simp add: emits_def skip_def overwrite_def)

lemma emits_words: "emits (WriteU32 a) (put_le 4 a)" "emits (WriteU64 b) (put_le 8 b)" "emits (WriteByte c) [c]"
  by (simp_all add: WriteU32_def WriteU64_def WriteByte_def emits_raw)

lemma emits_wide: "wide_ok txt \<Longrightarrow> emits (WriteWideString txt) (wide_bytes txt)"
proof -
  assume "wide_ok txt"
  then have "WriteWideString txt = and_then (WriteU32 (of_nat (length txt))) (WriteRaw (put_u16s txt))"
    by (auto simp: WriteWideString_def wide_ok_def)
  then show ?thesis unfolding wide_bytes_def by (simp add: emits_and_then emits_words emits_raw)
qed

lemma emits_all: "(\<And>x. x \<in> set xs \<Longrightarrow> emits (f x) (g x)) \<Longrightarrow> emits (foldr (\<lambda>x. and_then (f x)) xs skip) (concat (map g xs))"
  by (induction xs) (simp_all add: emits_skip emits_and_then)

lemmas emits_intros = emits_and_then emits_words emits_wide emits_all

lemma emits_entry: "entry_ok e \<Longrightarrow> emits (write_entry e) (entry_bytes e)"
  unfolding write_entry_def entry_bytes_def entry_ok_def by (intro emits_intros)

lemma emits_directory: "directory_ok pd \<Longrightarrow> emits (write_directory pd) (directory_bytes pd)"
  unfolding write_directory_def directory_bytes_def directory_ok_def
  by (cases pd) (auto simp: list_all_iff intro!: emits_intros emits_entry)

lemma SerializeSnapshotTo_exact:
  assumes "length ds < 2 ^ 32" "list_all directory_ok ds"
  shows "if length (snapshot_bytes ds) \<le> length storage
    then SerializeSnapshotTo ds (Some storage) = (True, Some (snapshot_bytes ds @ drop (length (snapshot_bytes ds)) storage))
    else \<not> fst (SerializeSnapshotTo ds (Some storage))"
proof -
  let ?f = "and_then (WriteU32 (of_nat (length ds))) (foldr (\<lambda>d. and_then (write_directory d)) ds skip)"
  let ?w = "\<lparr>w_destination = storage, w_offset = 0, w_valid = True\<rparr>"
  have "emits ?f (snapshot_bytes ds)"
    unfolding snapshot_bytes_def using assms(2) by (auto simp: list_all_iff intro!: emits_intros emits_directory)
  then have "if length (snapshot_bytes ds) \<le> length storage then ?f ?w = (True, overwrite (snapshot_bytes ds) ?w) else \<not> fst (?f ?w)"
    unfolding emits_def by (drule_tac x = ?w in spec) simp
  then show ?thesis
    using assms(1) by (cases "?f ?w") (auto simp: SerializeSnapshotTo_def overwrite_def Let_def)
qed

lemma SerializeSnapshot_bytes: "SerializedSnapshotSize ds \<noteq> 0 \<Longrightarrow> SerializeSnapshot ds = snapshot_bytes ds"
  using SerializedSnapshotSize_length [of ds] SerializeSnapshotTo_exact [of ds "replicate (SerializedSnapshotSize ds) 0"]
  by (simp add: SerializeSnapshot_def Let_def)

section \<open>Reading back\<close>

text \<open>
  What a reader of one part promises: it reads back what was written and leaves the rest, and more bytes behind
  never change a successful read. From these two laws follow the loop over counted parts and that every strict
  prefix of an encoding is refused.
\<close>

locale part_codec =
  fixes put :: "'a \<Rightarrow> byte list" and rd :: "'a reader" and ok :: "'a \<Rightarrow> bool"
  assumes read_back: "ok x \<Longrightarrow> rd (put x @ rest) = Some (x, rest)"
    and more_bytes: "rd bs = Some (x, rest) \<Longrightarrow> rd (bs @ bs') = Some (x, rest @ bs')"
begin

lemma truncated:
  assumes "ok x" "n < length (put x)"
  shows "rd (take n (put x)) = None"
proof (rule ccontr)
  assume "rd (take n (put x)) \<noteq> None"
  then obtain y rest where "rd (take n (put x)) = Some (y, rest)" by auto
  from more_bytes [OF this, of "drop n (put x)"] have "rd (put x) = Some (y, rest @ drop n (put x))" by simp
  moreover have "rd (put x) = Some (x, [])" using read_back [OF assms(1), of "[]"] by simp
  ultimately show False using assms(2) by simp
qed

lemma times_read_back:
  "list_all ok xs \<Longrightarrow> read_times rd (length xs) (concat (map put xs) @ rest) = Some (xs, rest)"
  by (induction xs arbitrary: rest) (simp_all add: rd_then_def rd_return_def read_back)

lemma times_more_bytes: "read_times rd n bs = Some (xs, rest) \<Longrightarrow> read_times rd n (bs @ bs') = Some (xs, rest @ bs')"
proof (induction n arbitrary: bs xs)
  case (Suc n)
  then obtain y ys mid where "rd bs = Some (y, mid)" "read_times rd n mid = Some (ys, rest)" "xs = y # ys"
    by (auto simp: rd_then_def rd_return_def split: option.splits)
  then show ?case using more_bytes Suc.IH by (simp add: rd_then_def rd_return_def)
qed (simp add: rd_return_def)

end

definition monotone_reader :: "'a reader \<Rightarrow> bool" where
  "monotone_reader r \<longleftrightarrow> (\<forall>bs x rest bs'. r bs = Some (x, rest) \<longrightarrow> r (bs @ bs') = Some (x, rest @ bs'))"

lemma monotone_then: "monotone_reader r \<Longrightarrow> (\<And>x. monotone_reader (f x)) \<Longrightarrow> monotone_reader (rd_then r f)"
  unfolding monotone_reader_def rd_then_def by (fastforce split: option.splits)

lemma monotone_basic:
  "monotone_reader Reader_ReadU32" "monotone_reader Reader_ReadU64" "monotone_reader Reader_ReadByte"
  "monotone_reader (rd_return y)"
  by (auto simp: monotone_reader_def Reader_ReadU32_def Reader_ReadU64_def Reader_ReadByte_def rd_return_def
      split: if_splits list.splits)

lemma get_u16s_append: "2 * n \<le> length bs \<Longrightarrow> get_u16s n (bs @ bs') = get_u16s n bs"
  using get_u16s_take [of n "length bs" "bs @ bs'"] by simp

lemma monotone_take_wide: "monotone_reader (take_wide n)"
  by (auto simp: monotone_reader_def take_wide_def get_u16s_append split: if_splits)

lemma monotone_wide: "monotone_reader ReadWString"
  unfolding ReadWString_def by (intro monotone_then monotone_basic monotone_take_wide)

lemma monotone_entry: "monotone_reader read_entry"
  unfolding read_entry_def by (intro monotone_then monotone_basic monotone_wide)

lemma monotone_guard:
  "monotone_reader r \<Longrightarrow> monotone_reader (\<lambda>bs. if b then None else if n > length bs then None else r bs)"
  unfolding monotone_reader_def by auto

text \<open>Reading back the basic parts.\<close>

named_theorems read_simps

lemma read_words [read_simps]:
  "rd_then Reader_ReadU32 f (put_le 4 a @ rest) = f a rest" "rd_then Reader_ReadU64 g (put_le 8 b @ rest) = g b rest"
  "rd_then Reader_ReadByte h (c # rest) = h c rest"
  by (simp_all add: rd_then_def Reader_ReadU32_def Reader_ReadU64_def Reader_ReadByte_def)

lemma read_wide [read_simps]: "wide_ok txt \<Longrightarrow> rd_then ReadWString f (wide_bytes txt @ rest) = f txt rest"
  using unat_count [of "length txt"]
  by (simp add: ReadWString_def wide_bytes_def wide_ok_def rd_then_def Reader_ReadU32_def take_wide_def)

lemma bool_byte_iff [simp]: "bool_byte b \<noteq> 0 \<longleftrightarrow> b"
  by (simp add: bool_byte_def)

lemma read_entry_bytes: "entry_ok e \<Longrightarrow> read_entry (entry_bytes e @ rest) = Some (e, rest)"
  by (simp add: read_entry_def entry_bytes_def entry_ok_def read_simps rd_return_def)

interpretation entry_codec: part_codec entry_bytes read_entry entry_ok
  using read_entry_bytes monotone_entry by unfold_locales (auto simp: monotone_reader_def)

lemma monotone_times_entry: "monotone_reader (read_times read_entry n)"
  using entry_codec.times_more_bytes by (auto simp: monotone_reader_def)

lemma status_round [simp]: "status_of (status_value st) = st" "\<not> status_value st > status_value IoError"
  by (cases st; simp add: status_of_def status_value_def)+

lemma entries_plausible: "length es * kMinBytesPerEntry \<le> length (concat (map entry_bytes es) @ rest)"
  by (induction es) (simp_all add: length_entry_bytes)

lemma read_directory_bytes:
  assumes "directory_ok pd"
  shows "read_directory (directory_bytes pd @ rest) = Some (pd, rest)"
proof -
  obtain path d where pd: "pd = (path, d)" by (cases pd)
  have ok: "wide_ok path" "list_all entry_ok (sd_entries d)" "unat (of_nat (length (sd_entries d)) :: u32) = length (sd_entries d)"
    using assms unat_count by (auto simp: pd directory_ok_def)
  show ?thesis
    using entries_plausible [of "sd_entries d" rest] entry_codec.times_read_back [OF ok(2), of rest]
    by (simp add: pd read_directory_def directory_bytes_def read_simps ok rd_then_def [of "read_times _ _"] rd_return_def)
qed

lemma monotone_directory: "monotone_reader read_directory"
  unfolding read_directory_def
  by (intro monotone_then monotone_basic monotone_wide monotone_guard monotone_times_entry)

interpretation directory_codec: part_codec directory_bytes read_directory directory_ok
  using read_directory_bytes monotone_directory by unfold_locales (auto simp: monotone_reader_def)

definition read_directories :: "(u16string \<times> SnapshotDirectory) list reader" where
  "read_directories = rd_then Reader_ReadU32 (\<lambda>directoryCount. read_times read_directory (unat directoryCount))"

interpretation snapshot_codec: part_codec snapshot_bytes read_directories "\<lambda>ds. length ds < 2 ^ 32 \<and> list_all directory_ok ds"
proof unfold_locales
  fix ds :: SnapshotMap and rest assume "length ds < 2 ^ 32 \<and> list_all directory_ok ds"
  then show "read_directories (snapshot_bytes ds @ rest) = Some (ds, rest)"
    using directory_codec.times_read_back [of ds rest] unat_count [of "length ds"]
    by (simp add: read_directories_def snapshot_bytes_def read_simps)
next
  have "monotone_reader (read_times read_directory n)" for n
    using directory_codec.times_more_bytes by (auto simp: monotone_reader_def)
  then have "monotone_reader read_directories" unfolding read_directories_def by (intro monotone_then monotone_basic)
  then show "read_directories bs = Some (x, rest) \<Longrightarrow> read_directories (bs @ bs') = Some (x, rest @ bs')" for bs x rest bs'
    by (simp add: monotone_reader_def)
qed

lemma ParseSnapshot_alt:
  "ParseSnapshot data = (case read_directories data of Some (ds, []) \<Rightarrow> Some (fold (\<lambda>(p, d). map_emplace p d) ds []) | _ \<Rightarrow> None)"
  by (auto simp: ParseSnapshot_def read_directories_def split: option.splits list.splits)

section \<open>The format as a whole\<close>

lemma path_less_asym: "path_less a b \<Longrightarrow> \<not> path_less b a"
  by (induction a b rule: path_less.induct) auto

definition map_sorted :: "(u16string \<times> 'v) list \<Rightarrow> bool" where
  "map_sorted m \<longleftrightarrow> sorted_wrt (\<lambda>a b. path_less (fst a) (fst b)) m"

lemma emplace_last: "\<forall>e \<in> set m. path_less (fst e) k \<Longrightarrow> map_emplace k v m = m @ [(k, v)]"
  by (induction m) (auto dest: path_less_asym)

lemma emplace_sorted: "map_sorted (m @ ds) \<Longrightarrow> fold (\<lambda>(p, d). map_emplace p d) ds m = m @ ds"
proof (induction ds arbitrary: m)
  case (Cons e ds)
  then have "map_emplace (fst e) (snd e) m = m @ [e]"
    by (intro trans [OF emplace_last]) (auto simp: map_sorted_def sorted_wrt_append)
  then show ?case using Cons by (auto simp: case_prod_unfold)
qed simp

text \<open>
  C15. The published bytes read back. For every map whose size the size pass computes without overflow, the write pass fills
  exactly that many bytes, it succeeds exactly when the storage holds them, and the parser
  returns the same map.
\<close>

theorem Snapshot_roundtrip:
  assumes "SerializedSnapshotSize ds \<noteq> 0" "map_sorted ds"
  shows "length (SerializeSnapshot ds) = SerializedSnapshotSize ds
    \<and> (fst (SerializeSnapshotTo ds (Some storage)) \<longleftrightarrow> SerializedSnapshotSize ds \<le> length storage)
    \<and> ParseSnapshot (SerializeSnapshot ds) = Some ds"
proof -
  note z = SerializedSnapshotSize_length [OF assms(1)] and b = SerializeSnapshot_bytes [OF assms(1)]
  have "read_directories (SerializeSnapshot ds) = Some (ds, [])"
    using snapshot_codec.read_back [of ds "[]"] z b by simp
  then have "ParseSnapshot (SerializeSnapshot ds) = Some ds"
    using emplace_sorted [of "[]" ds] assms(2) by (simp add: ParseSnapshot_alt)
  then show ?thesis using z b SerializeSnapshotTo_exact [of ds storage] by (auto split: if_splits)
qed

text \<open>
  C16. A damaged snapshot is never read in part: every strict prefix of the published bytes is refused, and so are the
  bytes with anything behind them.
\<close>

theorem Snapshot_all_or_nothing:
  assumes "SerializedSnapshotSize ds \<noteq> 0"
  shows "(n < length (SerializeSnapshot ds) \<longrightarrow> ParseSnapshot (take n (SerializeSnapshot ds)) = None)
    \<and> (extra \<noteq> [] \<longrightarrow> ParseSnapshot (SerializeSnapshot ds @ extra) = None)"
proof -
  note z = SerializedSnapshotSize_length [OF assms] and b = SerializeSnapshot_bytes [OF assms]
  have "read_directories (SerializeSnapshot ds @ extra) = Some (ds, extra)"
    using snapshot_codec.read_back [of ds extra] z b by simp
  moreover have "n < length (SerializeSnapshot ds) \<Longrightarrow> read_directories (take n (SerializeSnapshot ds)) = None"
    using snapshot_codec.truncated [of ds n] z b by simp
  ultimately show ?thesis by (auto simp: ParseSnapshot_alt split: list.splits)
qed

section \<open>Pooled names stand for owned names\<close>

definition owned_entry :: "u16string \<times> EntryFields \<Rightarrow> SnapshotDirectoryEntry" where
  "owned_entry nf = EntryFields.extend (snd nf) (SnapshotDirectoryEntry.fields (fst nf))"

definition add_entries :: "(u16string \<times> EntryFields) list \<Rightarrow> PooledSnapshotDirectoryBuilder \<Rightarrow> PooledSnapshotDirectoryBuilder" where
  "add_entries es b = fold (\<lambda>(name, f). AddEntryText name f) es b"

lemma truncate_extend [simp]: "EntryFields.truncate (EntryFields.extend f x) = f"
  by (cases f) (simp add: EntryFields.defs)

lemma extend_fields [simp]:
  "pn_nameOffsetChars (EntryFields.extend f (PendingEntry.fields off n)) = off"
  "pn_nameLengthChars (EntryFields.extend f (PendingEntry.fields off n)) = n"
  "pe_name (EntryFields.extend f (PooledSnapshotEntry.fields v)) = v"
  by (simp_all add: EntryFields.defs PendingEntry.defs PooledSnapshotEntry.defs)

lemma truncate_name_update [simp]: "EntryFields.truncate (pe_name_update g e) = EntryFields.truncate e"
  by (cases e) (simp add: EntryFields.defs)

text \<open>Every pending entry names a slice of the text collected so far.\<close>

definition pending_ok :: "u16string \<Rightarrow> PendingEntry \<Rightarrow> u16string \<times> EntryFields \<Rightarrow> bool" where
  "pending_ok txt p nf \<longleftrightarrow> EntryFields.truncate p = snd nf
     \<and> unat (pn_nameOffsetChars p) + unat (pn_nameLengthChars p) \<le> length txt
     \<and> take (unat (pn_nameLengthChars p)) (drop (unat (pn_nameOffsetChars p)) txt) = fst nf"

lemma pending_ok_append: "pending_ok txt p nf \<Longrightarrow> pending_ok (txt @ name) p nf"
  by (simp add: pending_ok_def)

lemma add_entries_inv:
  assumes "length (concat (map fst es)) < 2 ^ 32" "pb_nameChars b = []" "pb_pending b = []"
  shows "pb_nameChars (add_entries es b) = concat (map fst es)
    \<and> list_all2 (pending_ok (concat (map fst es))) (pb_pending (add_entries es b)) es
    \<and> pb_status (add_entries es b) = pb_status b \<and> pb_volumeRowId (add_entries es b) = pb_volumeRowId b
    \<and> pb_directoryIdLow (add_entries es b) = pb_directoryIdLow b \<and> pb_directoryIdHigh (add_entries es b) = pb_directoryIdHigh b
    \<and> pb_parentIdLow (add_entries es b) = pb_parentIdLow b \<and> pb_parentIdHigh (add_entries es b) = pb_parentIdHigh b"
  using assms(1)
proof (induction es rule: rev_induct)
  case (snoc e es)
  let ?b = "add_entries es b" and ?txt = "concat (map fst es)"
  have ih: "pb_nameChars ?b = ?txt" "list_all2 (pending_ok ?txt) (pb_pending ?b) es" using snoc by simp_all
  have lens: "length ?txt < 2 ^ 32" "length (fst e) < 2 ^ 32" using snoc.prems by simp_all
  have step: "add_entries (es @ [e]) b = AddEntryText (fst e) (snd e) ?b" by (simp add: add_entries_def case_prod_unfold)
  have old: "list_all2 (pending_ok (?txt @ fst e)) (pb_pending ?b) es"
    using ih(2) by (rule list_all2_mono) (rule pending_ok_append)
  have new: "pending_ok (?txt @ fst e)
      (EntryFields.extend (snd e) (PendingEntry.fields (of_nat (length ?txt)) (of_nat (length (fst e))))) e"
    using lens by (simp add: pending_ok_def unat_count)
  show ?case using snoc ih(1) old new by (simp add: step AddEntryText_def Let_def list_all2_appendI)
qed (simp add: add_entries_def assms)

lemma Build_entries:
  assumes "list_all2 (pending_ok (pb_nameChars b)) (pb_pending b) es"
  shows "map (deref_entry (fst (Build a store b))) (pd_entries (snd (Build a store b))) = map owned_entry es"
  using assms
  by (intro nth_equalityI) (auto simp: Build_def deref_entry_def owned_entry_def view_text_def pending_ok_def list_all2_conv_all_nth)

text \<open>The views of a directory point into its own buffer.\<close>

definition views_own :: "PooledSnapshotDirectory \<Rightarrow> bool" where
  "views_own d \<longleftrightarrow> (\<forall>e \<in> set (pd_entries d). nv_buffer (pe_name e) = Some (pd_nameChars d) \<or> nv_buffer (pe_name e) = None \<and> nv_length (pe_name e) = 0)"

lemma copy_directory_text:
  fixes store :: store
  assumes "views_own d" "a' \<noteq> pd_nameChars d"
  defines "copied \<equiv> copy_directory a' store d"
  shows "views_own (snd copied)" "deref_directory ((fst copied)(pd_nameChars d := junk)) (snd copied) = deref_directory store d"
proof -
  let ?new = "\<lambda>e. if store (pd_nameChars d) = [] then \<lparr>nv_buffer = None, nv_offset = 0, nv_length = 0\<rparr>
    else \<lparr>nv_buffer = Some a', nv_offset = (if nv_buffer (pe_name e) = None then 0 else nv_offset (pe_name e)),
          nv_length = nv_length (pe_name e)\<rparr>"
  have zip: "zip xs xs = map (\<lambda>e. (e, e)) xs" for xs :: "PooledSnapshotEntry list" by (induction xs) auto
  have c: "copied = (store(a' := store (pd_nameChars d)),
      d\<lparr>pd_nameChars := a', pd_entries := map (\<lambda>e. e\<lparr>pe_name := ?new e\<rparr>) (pd_entries d)\<rparr>)"
    using assms(2) by (simp add: copied_def copy_directory_def RemapEntryNames_def zip o_def Let_def cong: if_cong)
  show "views_own (snd copied)" using assms(1) by (auto simp: c views_own_def)
  have "deref_entry ((fst copied)(pd_nameChars d := junk)) (e\<lparr>pe_name := ?new e\<rparr>) = deref_entry store e"
    if "e \<in> set (pd_entries d)" for e
    using assms(1,2) that by (auto simp: c deref_entry_def view_text_def views_own_def)
  then show "deref_directory ((fst copied)(pd_nameChars d := junk)) (snd copied) = deref_directory store d"
    by (simp add: c deref_directory_def)
qed

definition filled_builder ::
    "DirectoryEnumerationStatus \<Rightarrow> u64 \<Rightarrow> u64 \<Rightarrow> u64 \<Rightarrow> u64 \<Rightarrow> u64 \<Rightarrow> (u16string \<times> EntryFields) list \<Rightarrow> PooledSnapshotDirectoryBuilder" where
  "filled_builder st vol idLow idHigh parentLow parentHigh es =
     add_entries es (SetIdentity vol idLow idHigh parentLow parentHigh (SetStatus st new_builder))"

definition owned_directory ::
    "DirectoryEnumerationStatus \<Rightarrow> u64 \<Rightarrow> u64 \<Rightarrow> u64 \<Rightarrow> u64 \<Rightarrow> u64 \<Rightarrow> (u16string \<times> EntryFields) list \<Rightarrow> SnapshotDirectory" where
  "owned_directory st vol idLow idHigh parentLow parentHigh es =
     \<lparr>sd_status = st, sd_entries = map owned_entry es, sd_volumeRowId = vol, sd_directoryIdLow = idLow,
      sd_directoryIdHigh = idHigh, sd_parentIdLow = parentLow, sd_parentIdHigh = parentHigh\<rparr>"

text \<open>
  C19. Pooled names are owned names. A directory built from a list of entries, whose names together have fewer than
  \<open>2\<^sup>3\<^sup>2\<close> units, is serialized like the directory that owns its names, and so is a copy of it, whatever becomes of the
  buffer of the original: no view is left pointing into it.
\<close>

theorem Pooled_directory_exact:
  assumes "length (concat (map fst es)) < 2 ^ 32" "a' \<noteq> a"
  shows "case Build a store (filled_builder st vol idLow idHigh parentLow parentHigh es) of (store1, d) \<Rightarrow>
    SerializeSnapshot_pooled store1 [(path, d)] =
      SerializeSnapshot [(path, owned_directory st vol idLow idHigh parentLow parentHigh es)] \<and>
    (case copy_directory a' store1 d of (store2, c) \<Rightarrow>
       SerializeSnapshot_pooled (store2(a := junk)) [(path, c)] =
         SerializeSnapshot [(path, owned_directory st vol idLow idHigh parentLow parentHigh es)])"
proof -
  let ?b0 = "SetIdentity vol idLow idHigh parentLow parentHigh (SetStatus st new_builder)"
  let ?owned = "owned_directory st vol idLow idHigh parentLow parentHigh es"
  define b where "b = filled_builder st vol idLow idHigh parentLow parentHigh es"
  have inv: "list_all2 (pending_ok (pb_nameChars b)) (pb_pending b) es" "pb_status b = st" "pb_volumeRowId b = vol"
    "pb_directoryIdLow b = idLow" "pb_directoryIdHigh b = idHigh" "pb_parentIdLow b = parentLow" "pb_parentIdHigh b = parentHigh"
    using add_entries_inv [OF assms(1), of ?b0] unfolding b_def filled_builder_def
    by (auto simp: SetIdentity_def SetStatus_def new_builder_def)
  obtain store1 d where bd: "Build a store b = (store1, d)" by force
  have d: "deref_directory store1 d = ?owned" "views_own d" "pd_nameChars d = a"
    using Build_entries [OF inv(1), of a store] bd inv(2-)
    by (auto simp: deref_directory_def owned_directory_def Build_def views_own_def EntryFields.defs PooledSnapshotEntry.defs)
  then show ?thesis
    using copy_directory_text(2) [of d a' store1 junk] assms(2) bd unfolding b_def
    by (auto simp: SerializeSnapshot_pooled_def split: prod.splits)
qed

definition sample_fields :: EntryFields where
  "sample_fields = \<lparr>se_isDirectory = False, se_sizeBytes = 10, se_allocatedSizeBytes = 4096, se_allocatedSizeKnown = True,
     se_attributes = 32, se_creationTime = 1, se_lastModifiedTime = 2, se_volumeRowId = - 1, se_fileIdLow = 7,
     se_fileIdHigh = 0, se_parentIdLow = 5, se_parentIdHigh = 0\<rparr>"

definition sample_map :: SnapshotMap where
  "sample_map =
     [([67, 58], owned_directory Success 1 5 0 5 0 [([97, 98], sample_fields), ([], sample_fields)]),
      ([67, 58, 92, 97], owned_directory AccessDenied 1 7 0 5 0 [])]"

lemma sample_map_ok: "SerializedSnapshotSize sample_map = 288" "map_sorted sample_map"
  by (simp_all add: SerializedSnapshotSize_def sample_map_def owned_directory_def owned_entry_def AddBytes_def
      AddWideStringBytes_def map_sorted_def SnapshotDirectoryEntry.defs EntryFields.defs)

theorem Snapshot_roundtrip_witness:
  "SerializedSnapshotSize sample_map = 288 \<and> ParseSnapshot (SerializeSnapshot sample_map) = Some sample_map
   \<and> \<not> fst (SerializeSnapshotTo sample_map (Some (replicate 200 0)))"
  using Snapshot_roundtrip [of sample_map "replicate 200 0"] sample_map_ok by simp

theorem Snapshot_all_or_nothing_witness:
  "ParseSnapshot (take 100 (SerializeSnapshot sample_map)) = None \<and> ParseSnapshot (SerializeSnapshot sample_map @ [0]) = None"
proof -
  have "length (SerializeSnapshot sample_map) = 288"
    using sample_map_ok SerializeSnapshot_bytes [of sample_map] SerializedSnapshotSize_length [of sample_map] by simp
  then show ?thesis using Snapshot_all_or_nothing [of sample_map 100 "[0]"] sample_map_ok by simp
qed

theorem Pooled_directory_exact_witness:
  "case Build 1 (\<lambda>_. []) (filled_builder Success 1 5 0 5 0 [([97, 98], sample_fields), ([99], sample_fields)]) of (store1, d) \<Rightarrow>
    case copy_directory 2 store1 d of (store2, c) \<Rightarrow>
      SerializeSnapshot_pooled (store2(1 := [])) [([67], c)] =
        SerializeSnapshot [([67], owned_directory Success 1 5 0 5 0 [([97, 98], sample_fields), ([99], sample_fields)])]"
  using Pooled_directory_exact [where es = "[([97, 98], sample_fields), ([99], sample_fields)]" and a' = 2 and a = 1
    and store = "\<lambda>_. []" and st = Success and vol = 1 and idLow = 5 and idHigh = 0 and parentLow = 5 and parentHigh = 0
    and path = "[67]" and junk = "[]"]
  by (simp add: case_prod_unfold)

end
