(* ===== verification/Entries.thy ===== *)
theory Entries
  imports Prelude
begin

text \<open>
  Identities and entry records of the index (\<open>indexstore/include/ffindexstore/Identity.h\<close>,
  \<open>EntryRecord.h\<close>) and the classification of names that need conservative candidate inclusion
  (\<open>indexstore/src/FoldClassification.h\<close>). \<open>CompareStringOrdinal\<close> is a Win32 function: it is the
  parameter \<open>cso\<close> here, on the two single units the classification compares, returning 0 for
  failure and 2 for \<open>CSTR_EQUAL\<close>.
\<close>

section \<open>Identities\<close>

record FileId =
  fid_low :: u64
  fid_high :: u64

definition FileId_less :: "FileId \<Rightarrow> FileId \<Rightarrow> bool" where
  "FileId_less a b = (if fid_high a \<noteq> fid_high b then fid_high a < fid_high b else fid_low a < fid_low b)"

text \<open>\<open>VolumeRowId\<close> is \<open>int64_t\<close>, kept as its 64 bit pattern.\<close>

record EntryKey =
  ek_volumeRowId :: u64
  ek_frn :: FileId

definition EntryKeyHash :: "EntryKey \<Rightarrow> u64" where
  "EntryKeyHash key =
     (let h = ek_volumeRowId key;
          h = h XOR (fid_low (ek_frn key) + 0x9e3779b97f4a7c15 + push_bit 6 h + drop_bit 2 h);
          h = h XOR (fid_high (ek_frn key) + 0x9e3779b97f4a7c15 + push_bit 6 h + drop_bit 2 h);
          h = h XOR drop_bit 30 h;
          h = h * 0xbf58476d1ce4e5b9;
          h = h XOR drop_bit 27 h;
          h = h * 0x94d049bb133111eb;
          h = h XOR drop_bit 31 h
      in h)"

text \<open>The order of identities is a strict total order: lexicographic on the high and low halves.\<close>

lemma FileId_less_irrefl [simp]: "\<not> FileId_less a a"
  by (simp add: FileId_less_def)

lemma FileId_less_trans: "FileId_less a b \<Longrightarrow> FileId_less b c \<Longrightarrow> FileId_less a c"
  by (auto simp: FileId_less_def split: if_splits)

lemma FileId_less_total: "FileId_less a b \<or> a = b \<or> FileId_less b a"
  by (auto simp: FileId_less_def intro: FileId.equality)

section \<open>Entry records\<close>

record EntryRecord =
  er_id :: FileId
  er_parentId :: FileId
  er_name :: u16string
  er_sizeBytes :: u64
  er_allocatedSizeBytes :: u64
  er_allocatedSizeKnown :: bool
  er_creationTime :: u64
  er_lastModifiedTime :: u64
  er_lastAccessTime :: u64
  er_attributes :: u32

type_synonym EntryFieldMask = u32

definition kEntryFieldParentId :: EntryFieldMask where "kEntryFieldParentId = push_bit 0 1"
definition kEntryFieldName :: EntryFieldMask where "kEntryFieldName = push_bit 1 1"
definition kEntryFieldSizeBytes :: EntryFieldMask where "kEntryFieldSizeBytes = push_bit 2 1"
definition kEntryFieldCreationTime :: EntryFieldMask where "kEntryFieldCreationTime = push_bit 3 1"
definition kEntryFieldLastModifiedTime :: EntryFieldMask where "kEntryFieldLastModifiedTime = push_bit 4 1"
definition kEntryFieldLastAccessTime :: EntryFieldMask where "kEntryFieldLastAccessTime = push_bit 5 1"
definition kEntryFieldAttributes :: EntryFieldMask where "kEntryFieldAttributes = push_bit 6 1"
definition kEntryFieldAllocatedSizeBytes :: EntryFieldMask where "kEntryFieldAllocatedSizeBytes = push_bit 7 1"

definition kEntryFieldMaskAll :: EntryFieldMask where
  "kEntryFieldMaskAll =
     kEntryFieldParentId OR kEntryFieldName OR kEntryFieldSizeBytes OR kEntryFieldCreationTime OR
     kEntryFieldLastModifiedTime OR kEntryFieldLastAccessTime OR kEntryFieldAttributes OR
     kEntryFieldAllocatedSizeBytes"

lemmas kEntryField_defs = kEntryFieldParentId_def kEntryFieldName_def kEntryFieldSizeBytes_def
  kEntryFieldCreationTime_def kEntryFieldLastModifiedTime_def kEntryFieldLastAccessTime_def
  kEntryFieldAttributes_def kEntryFieldAllocatedSizeBytes_def

definition HasEntryField :: "EntryFieldMask \<Rightarrow> EntryFieldMask \<Rightarrow> bool" where
  "HasEntryField present field = (present AND field \<noteq> 0)"

datatype EntryChangeKind = ChangeUpsert | ChangeRemove

record EntryChange =
  ec_kind :: EntryChangeKind
  ec_record :: EntryRecord
  ec_fields :: EntryFieldMask

lemma HasEntryField_All [simp]:
  "HasEntryField kEntryFieldMaskAll kEntryFieldParentId"
  "HasEntryField kEntryFieldMaskAll kEntryFieldName"
  "HasEntryField kEntryFieldMaskAll kEntryFieldSizeBytes"
  "HasEntryField kEntryFieldMaskAll kEntryFieldCreationTime"
  "HasEntryField kEntryFieldMaskAll kEntryFieldLastModifiedTime"
  "HasEntryField kEntryFieldMaskAll kEntryFieldLastAccessTime"
  "HasEntryField kEntryFieldMaskAll kEntryFieldAttributes"
  "HasEntryField kEntryFieldMaskAll kEntryFieldAllocatedSizeBytes"
  by (simp_all add: HasEntryField_def kEntryFieldMaskAll_def kEntryField_defs)

section \<open>Fold classification\<close>

text \<open>
  The probe cache is an array of one verdict per unit: 0 unprobed, 1 not exceptional, 2
  exceptional. \<open>fold_probe\<close> is the loop over the ASCII units from \<open>a\<close> upwards.
\<close>

type_synonym ordinal_compare = "u16 \<Rightarrow> u16 \<Rightarrow> nat"

fun fold_probe :: "ordinal_compare \<Rightarrow> u16 \<Rightarrow> nat list \<Rightarrow> bool" where
  "fold_probe cso unit [] = False"
| "fold_probe cso unit (a # as) =
     (if cso unit (of_nat a) = 0 then True
      else if cso unit (of_nat a) = 2 then True
      else fold_probe cso unit as)"

definition UnitMayFoldToAscii :: "ordinal_compare \<Rightarrow> (u16 \<Rightarrow> byte) \<Rightarrow> u16 \<Rightarrow> bool \<times> (u16 \<Rightarrow> byte)" where
  "UnitMayFoldToAscii cso cache unit =
     (if unit \<le> 0x7F then (False, cache)
      else if unit \<ge> 0xD800 \<and> unit \<le> 0xDFFF then (True, cache)
      else if cache unit \<noteq> 0 then (cache unit = 2, cache)
      else let exceptional = fold_probe cso unit [0..<128]
           in (exceptional, cache(unit := if exceptional then 2 else 1)))"

fun NameRequiresCandidateSideSet ::
  "ordinal_compare \<Rightarrow> (u16 \<Rightarrow> byte) \<Rightarrow> u16string \<Rightarrow> bool \<times> (u16 \<Rightarrow> byte)" where
  "NameRequiresCandidateSideSet cso cache [] = (False, cache)"
| "NameRequiresCandidateSideSet cso cache (c # cs) =
     (case UnitMayFoldToAscii cso cache c of
        (True, cache') \<Rightarrow> (True, cache')
      | (False, cache') \<Rightarrow> NameRequiresCandidateSideSet cso cache' cs)"

text \<open>The classification without the cache, and caches that hold only its verdicts.\<close>

definition exceptional_unit :: "ordinal_compare \<Rightarrow> u16 \<Rightarrow> bool" where
  "exceptional_unit cso unit \<longleftrightarrow> unit > 0x7F \<and>
     (unit \<ge> 0xD800 \<and> unit \<le> 0xDFFF \<or> (\<exists>a<128. cso unit (of_nat a) \<in> {0, 2}))"

definition cache_ok :: "ordinal_compare \<Rightarrow> (u16 \<Rightarrow> byte) \<Rightarrow> bool" where
  "cache_ok cso cache \<longleftrightarrow> (\<forall>u. u > 0x7F \<longrightarrow> \<not> (u \<ge> 0xD800 \<and> u \<le> 0xDFFF) \<longrightarrow> cache u \<noteq> 0 \<longrightarrow>
     (cache u = 2 \<longleftrightarrow> exceptional_unit cso u))"

lemma fold_probe_iff: "fold_probe cso unit as \<longleftrightarrow> (\<exists>a\<in>set as. cso unit (of_nat a) \<in> {0, 2})"
  by (induction as) auto

lemma UnitMayFoldToAscii_spec:
  assumes "cache_ok cso cache"
  shows "fst (UnitMayFoldToAscii cso cache unit) = exceptional_unit cso unit"
    "cache_ok cso (snd (UnitMayFoldToAscii cso cache unit))"
  using assms
  by (auto simp: UnitMayFoldToAscii_def cache_ok_def exceptional_unit_def fold_probe_iff Let_def not_le
      dest: leD)

lemma NameRequiresCandidateSideSet_spec:
  assumes "cache_ok cso cache"
  shows "fst (NameRequiresCandidateSideSet cso cache cs) = list_ex (exceptional_unit cso) cs
    \<and> cache_ok cso (snd (NameRequiresCandidateSideSet cso cache cs))"
  using assms
proof (induction cs arbitrary: cache)
  case (Cons c cs)
  obtain b cache' where u: "UnitMayFoldToAscii cso cache c = (b, cache')" by fastforce
  with UnitMayFoldToAscii_spec [OF Cons.prems, of c]
  have "b = exceptional_unit cso c" "cache_ok cso cache'" by simp_all
  then show ?case using Cons.IH [of cache'] u by (cases b) auto
qed simp

end
