(* ===== verification/Trigrams.thy ===== *)
theory Trigrams
  imports Matcher Entries
begin

text \<open>
  The filename accelerator of the in-memory projection (\<open>indexstore/src/Projection.cpp\<close>): every name is
  entered under the trigrams of its ASCII fold, names that the platform's comparison could match to
  an ASCII needle through another unit are kept apart, and a literal search first intersects the posting
  lists of the trigrams of its needle.

  The probe table \<open>gFoldProbe\<close> memoizes a verdict that does not change; \<open>Entries.UnitMayFoldToAscii_spec\<close>
  shows for the same routine that the memo is transparent, so the probe stands here without it. Running out of memory,
  which makes the code drop the accelerator, is not modelled.
\<close>

section \<open>Trigrams and sorted vectors\<close>

definition IsAsciiLower :: "u16string \<Rightarrow> bool" where
  "IsAsciiLower name = list_all (\<lambda>ch. \<not> (ch > 0x7f \<or> (ch \<ge> 65 \<and> ch \<le> 90))) name"

definition FoldAscii :: "u16string \<Rightarrow> u16string" where
  "FoldAscii name = map (\<lambda>ch. if ch \<ge> 65 \<and> ch \<le> 90 then ch + (97 - 65) else ch) name"

definition probe_unit :: "ordinal \<Rightarrow> u16 \<Rightarrow> bool" where
  "probe_unit cso unit =
     (if unit \<le> 0x7f then False
      else if unit \<ge> 0xd800 \<and> unit \<le> 0xdfff then True
      else list_ex (\<lambda>a. cso [unit] [of_nat a] = 2 \<or> cso [unit] [of_nat a] = 0) [0..<128])"

definition NameNeedsExceptionalFallback :: "ordinal \<Rightarrow> u16string \<Rightarrow> bool" where
  "NameNeedsExceptionalFallback cso name = list_ex (\<lambda>ch. ch > 0x7f \<and> probe_unit cso ch) name"

definition PackTrigram :: "u16string \<Rightarrow> nat \<Rightarrow> u64" where
  "PackTrigram val off =
     (ucast (val ! off) OR push_bit 16 (ucast (val ! (off + 1)))) OR push_bit 32 (ucast (val ! (off + 2)))"

definition UniqueTrigrams :: "u16string \<Rightarrow> u64 list" where
  "UniqueTrigrams val =
     (if length val < 3 then [] else remdups_adj (sort (map (PackTrigram val) [0..<length val - 2])))"

text \<open>\<open>std::lower_bound\<close> on a sorted vector splits it behind the smaller elements.\<close>

definition InsertSorted :: "u32 \<Rightarrow> u32 list \<Rightarrow> u32 list" where
  "InsertSorted val vs =
     (let front = takeWhile (\<lambda>x. x < val) vs; it = dropWhile (\<lambda>x. x < val) vs
      in if it = [] \<or> hd it \<noteq> val then front @ val # it else vs)"

definition EraseSorted :: "u32 \<Rightarrow> u32 list \<Rightarrow> u32 list" where
  "EraseSorted val vs =
     (let front = takeWhile (\<lambda>x. x < val) vs; it = dropWhile (\<lambda>x. x < val) vs
      in if it \<noteq> [] \<and> hd it = val then front @ tl it else vs)"

definition kPerEntryFilenameRemovalThreshold :: nat where "kPerEntryFilenameRemovalThreshold = 256"

section \<open>The accelerator\<close>

record FilenameIndex =
  fx_trigramPostings :: "u64 \<rightharpoonup> u32 list"
  fx_exceptionalEntries :: "u32 list"
  fx_valid :: bool
  fx_building :: bool

definition InvalidateFilenameIndex :: "FilenameIndex \<Rightarrow> FilenameIndex" where
  "InvalidateFilenameIndex fx = fx\<lparr>fx_valid := False, fx_trigramPostings := Map.empty, fx_exceptionalEntries := []\<rparr>"

definition posting :: "FilenameIndex \<Rightarrow> u64 \<Rightarrow> u32 list" where
  "posting fx t = (case fx_trigramPostings fx t of None \<Rightarrow> [] | Some is \<Rightarrow> is)"

definition put_index :: "bool \<Rightarrow> u32 \<Rightarrow> u32 list \<Rightarrow> u32 list" where
  "put_index building i vs = (if building then vs @ [i] else InsertSorted i vs)"

definition AddFilenameIndexEntry :: "ordinal \<Rightarrow> u32 \<Rightarrow> u16string \<Rightarrow> FilenameIndex \<Rightarrow> FilenameIndex" where
  "AddFilenameIndexEntry cso i name fx =
     (if \<not> fx_valid fx then fx
      else
        let fx1 = (if NameNeedsExceptionalFallback cso name
                   then fx\<lparr>fx_exceptionalEntries := put_index (fx_building fx) i (fx_exceptionalEntries fx)\<rparr> else fx)
        in fold (\<lambda>t fx. fx\<lparr>fx_trigramPostings := (fx_trigramPostings fx)(t \<mapsto> put_index (fx_building fx) i (posting fx t))\<rparr>)
             (UniqueTrigrams (FoldAscii name)) fx1)"

definition erase_posting :: "u32 \<Rightarrow> u64 \<Rightarrow> FilenameIndex \<Rightarrow> FilenameIndex" where
  "erase_posting i t fx =
     (case fx_trigramPostings fx t of
        None \<Rightarrow> fx
      | Some vs \<Rightarrow> fx\<lparr>fx_trigramPostings := (fx_trigramPostings fx)
                     (t := if EraseSorted i vs = [] then None else Some (EraseSorted i vs))\<rparr>)"

definition RemoveFilenameIndexEntry :: "ordinal \<Rightarrow> u32 \<Rightarrow> u16string \<Rightarrow> FilenameIndex \<Rightarrow> FilenameIndex" where
  "RemoveFilenameIndexEntry cso i name fx =
     (if \<not> fx_valid fx then fx
      else
        let fx1 = (if NameNeedsExceptionalFallback cso name
                   then fx\<lparr>fx_exceptionalEntries := EraseSorted i (fx_exceptionalEntries fx)\<rparr> else fx)
        in fold (erase_posting i) (UniqueTrigrams (FoldAscii name)) fx1)"

text \<open>The rebuild visits the live slots in table order; \<open>rows\<close> lists them with their names.\<close>

definition RebuildFilenameIndex :: "ordinal \<Rightarrow> (u32 \<times> u16string) list \<Rightarrow> FilenameIndex \<Rightarrow> FilenameIndex" where
  "RebuildFilenameIndex cso rows fx =
     (let fx1 = fx\<lparr>fx_trigramPostings := Map.empty, fx_exceptionalEntries := [], fx_valid := True, fx_building := True\<rparr>;
          fx2 = fold (\<lambda>(i, name). AddFilenameIndexEntry cso i name) rows fx1
      in fx2\<lparr>fx_trigramPostings := (\<lambda>t. map_option (\<lambda>vs. remdups_adj (sort vs)) (fx_trigramPostings fx2 t)),
             fx_exceptionalEntries := remdups_adj (sort (fx_exceptionalEntries fx2)), fx_building := False\<rparr>)"

section \<open>Candidates\<close>

text \<open>\<open>std::set_intersection\<close> and \<open>std::set_union\<close>.\<close>

fun set_intersection :: "u32 list \<Rightarrow> u32 list \<Rightarrow> u32 list" where
  "set_intersection [] ys = []"
| "set_intersection xs [] = []"
| "set_intersection (x # xs) (y # ys) =
     (if x < y then set_intersection xs (y # ys)
      else if y < x then set_intersection (x # xs) ys
      else x # set_intersection xs ys)"

fun set_union :: "u32 list \<Rightarrow> u32 list \<Rightarrow> u32 list" where
  "set_union [] ys = ys"
| "set_union xs [] = xs"
| "set_union (x # xs) (y # ys) =
     (if x < y then x # set_union xs (y # ys)
      else if y < x then y # set_union (x # xs) ys
      else x # set_union xs ys)"

definition too_many :: "nat \<Rightarrow> u32 list \<Rightarrow> bool" where
  "too_many maximumCandidates vs \<longleftrightarrow> maximumCandidates \<noteq> 0 \<and> length vs > maximumCandidates"

text \<open>The loop over the further postings; \<open>None\<close> for the exit with too many candidates.\<close>

fun intersect_postings :: "nat \<Rightarrow> u32 list list \<Rightarrow> u32 list \<Rightarrow> u32 list option" where
  "intersect_postings maximumCandidates [] result = Some result"
| "intersect_postings maximumCandidates (p # ps) result =
     (if result = [] then Some result
      else let scratch = set_intersection result p in
        if too_many maximumCandidates scratch then None else intersect_postings maximumCandidates ps scratch)"

definition FilenameCandidateIndices :: "FilenameIndex \<Rightarrow> u16string \<Rightarrow> nat \<Rightarrow> u32 list option" where
  "FilenameCandidateIndices fx foldedNeedle maximumCandidates =
     (if \<not> fx_valid fx \<or> length foldedNeedle < 3 \<or> \<not> IsAscii foldedNeedle then None
      else
        let trigrams = UniqueTrigrams foldedNeedle;
            anyTrigramMissing = list_ex (\<lambda>t. fx_trigramPostings fx t = None) trigrams;
            postings = sort_key length (map (posting fx) trigrams)
        in Option.bind
             (if \<not> anyTrigramMissing \<and> postings \<noteq> []
              then if too_many maximumCandidates (hd postings) then None
                   else intersect_postings maximumCandidates (tl postings) (hd postings)
              else Some [])
             (\<lambda>result.
                if too_many maximumCandidates result then None
                else if fx_exceptionalEntries fx \<noteq> []
                then let merged = set_union result (fx_exceptionalEntries fx)
                     in if too_many maximumCandidates merged then None else Some merged
                else Some result))"

section \<open>Sorted vectors as sets\<close>

lemma split_sorted:
  assumes "sorted_wrt (<) (vs :: u32 list)" "a = takeWhile (\<lambda>x. x < v) vs" "b = dropWhile (\<lambda>x. x < v) vs"
  shows "vs = a @ b" "\<forall>x \<in> set a. x < v" "sorted_wrt (<) a" "sorted_wrt (<) b"
    "b = [] \<or> v \<le> hd b \<and> (\<forall>z \<in> set (tl b). v < z)"
proof -
  have split: "vs = a @ b" by (simp add: assms)
  have "sorted_wrt (<) (a @ b)" using assms(1) split by simp
  then have sorted: "sorted_wrt (<) a" "sorted_wrt (<) b" unfolding sorted_wrt_append by blast+
  have "\<forall>x \<in> set a. x < v" by (auto simp: assms dest: set_takeWhileD)
  moreover have "b = [] \<or> v \<le> hd b \<and> (\<forall>z \<in> set (tl b). v < z)"
  proof (cases b)
    case (Cons y ys)
    then have "v \<le> y" using hd_dropWhile [of "\<lambda>x. x < v" vs] by (simp add: assms(3) not_less)
    then show ?thesis using sorted(2) Cons by fastforce
  qed simp
  ultimately show "vs = a @ b" "\<forall>x \<in> set a. x < v" "sorted_wrt (<) a" "sorted_wrt (<) b"
    "b = [] \<or> v \<le> hd b \<and> (\<forall>z \<in> set (tl b). v < z)"
    using split sorted by blast+
qed

lemma InsertSorted_set:
  assumes "sorted_wrt (<) vs"
  shows "set (InsertSorted v vs) = insert v (set vs) \<and> sorted_wrt (<) (InsertSorted v vs)"
proof -
  obtain a b where ab: "a = takeWhile (\<lambda>x. x < v) vs" "b = dropWhile (\<lambda>x. x < v) vs" by simp
  note sp = split_sorted [OF assms ab]
  have ins: "InsertSorted v vs = (if b = [] \<or> hd b \<noteq> v then a @ v # b else vs)" by (simp add: InsertSorted_def ab)
  show ?thesis
  proof (cases "b = [] \<or> hd b \<noteq> v")
    case True
    then have "\<forall>z \<in> set b. v < z" using sp(5) by (cases b) auto
    moreover have "\<forall>x \<in> set a. \<forall>z \<in> set b. x < z" using calculation sp(2) by (meson less_trans)
    moreover have "set vs = set a \<union> set b" using sp(1) by (metis set_append)
    ultimately show ?thesis using True sp(2-4) by (auto simp: ins sorted_wrt_append)
  next
    case False
    then have "v \<in> set b" using hd_in_set [of b] by auto
    then have "v \<in> set vs" by (simp add: sp(1))
    then show ?thesis using False assms by (auto simp: ins)
  qed
qed

lemma EraseSorted_set:
  assumes "sorted_wrt (<) vs"
  shows "set (EraseSorted v vs) = set vs - {v} \<and> sorted_wrt (<) (EraseSorted v vs)"
proof -
  obtain a b where ab: "a = takeWhile (\<lambda>x. x < v) vs" "b = dropWhile (\<lambda>x. x < v) vs" by simp
  note sp = split_sorted [OF assms ab]
  have er: "EraseSorted v vs = (if b \<noteq> [] \<and> hd b = v then a @ tl b else vs)" by (simp add: EraseSorted_def ab)
  have all: "set vs = set a \<union> set b" using sp(1) by (metis set_append)
  show ?thesis
  proof (cases "b \<noteq> [] \<and> hd b = v")
    case True
    then obtain ys where ys: "b = v # ys" by (cases b) auto
    moreover have "\<forall>x \<in> set a. \<forall>z \<in> set ys. x < z" using ys sp(2,5) by (auto intro: less_trans)
    ultimately show ?thesis using sp(2-5) all by (auto simp: er sorted_wrt_append)
  next
    case False
    then have "v \<notin> set vs" using sp(2,5) by (cases b) (auto simp: all)
    then show ?thesis using False assms by (auto simp: er)
  qed
qed

lemma set_intersection_set:
  "sorted_wrt (<) xs \<Longrightarrow> sorted_wrt (<) ys \<Longrightarrow>
   set (set_intersection xs ys) = set xs \<inter> set ys \<and> sorted_wrt (<) (set_intersection xs ys)"
  by (induction xs ys rule: set_intersection.induct) auto

lemma set_union_elems: "set (set_union xs ys) = set xs \<union> set ys"
  by (induction xs ys rule: set_union.induct) auto

lemma set_union_sorted: "sorted_wrt (<) xs \<Longrightarrow> sorted_wrt (<) ys \<Longrightarrow> sorted_wrt (<) (set_union xs ys)"
proof (induction xs ys rule: set_union.induct)
  case (3 x xs y ys)
  have later: "\<forall>w \<in> set ws. z < w" if "z < v" "\<forall>w \<in> set ws. v < w" for z v :: u32 and ws
    using that less_trans by blast
  consider "x < y" | "y < x" | "x = y" by (rule linorder_cases)
  then show ?case
  proof cases
    case 1
    then show ?thesis using "3.IH"(1) "3.prems" later [of x y ys] by (simp add: set_union_elems ball_Un)
  next
    case 2
    then have "\<not> x < y" by simp
    then show ?thesis using 2 "3.IH"(2) "3.prems" later [of y x xs] by (simp add: set_union_elems ball_Un)
  next
    case 3
    then show ?thesis using "3.IH"(3) "3.prems" by (simp add: set_union_elems ball_Un)
  qed
qed auto

lemma unique_sorted: "sorted (vs :: 'a::linorder list) \<Longrightarrow> sorted_wrt (<) (remdups_adj vs)"
  by (induction vs rule: remdups_adj.induct) auto

lemma unique_sort: "sorted_wrt (<) (remdups_adj (sort (vs :: 'a::linorder list)))" "set (remdups_adj (sort vs)) = set vs"
  by (simp_all add: unique_sorted)

lemma UniqueTrigrams_set:
  "set (UniqueTrigrams val) = PackTrigram val ` {i. i + 2 < length val}" "distinct (UniqueTrigrams val)"
  using unique_sort(1) [of "map (PackTrigram val) [0..<length val - 2]"]
  by (auto simp: UniqueTrigrams_def image_iff less_diff_conv strict_sorted_iff)

section \<open>The accelerator describes the live names\<close>

text \<open>\<open>names\<close> maps the live slots to their names.\<close>

definition trigram_rows :: "(u32 \<rightharpoonup> u16string) \<Rightarrow> u64 \<Rightarrow> u32 set" where
  "trigram_rows names t = {i. \<exists>n. names i = Some n \<and> t \<in> set (UniqueTrigrams (FoldAscii n))}"

definition exceptional_rows :: "ordinal \<Rightarrow> (u32 \<rightharpoonup> u16string) \<Rightarrow> u32 set" where
  "exceptional_rows cso names = {i. \<exists>n. names i = Some n \<and> NameNeedsExceptionalFallback cso n}"

definition index_ok :: "ordinal \<Rightarrow> (u32 \<rightharpoonup> u16string) \<Rightarrow> FilenameIndex \<Rightarrow> bool" where
  "index_ok cso names fx \<longleftrightarrow> \<not> fx_building fx \<and> (fx_valid fx \<longrightarrow>
     (\<forall>t. fx_trigramPostings fx t \<noteq> Some []) \<and> (\<forall>t. sorted_wrt (<) (posting fx t) \<and> set (posting fx t) = trigram_rows names t)
     \<and> sorted_wrt (<) (fx_exceptionalEntries fx) \<and> set (fx_exceptionalEntries fx) = exceptional_rows cso names)"

lemma index_ok_invalid: "\<not> fx_building fx \<Longrightarrow> \<not> fx_valid fx \<Longrightarrow> index_ok cso names fx"
  by (simp add: index_ok_def)

lemma index_okD:
  assumes "index_ok cso names fx" "fx_valid fx"
  shows "fx_trigramPostings fx t \<noteq> Some []" "sorted_wrt (<) (posting fx t)" "set (posting fx t) = trigram_rows names t"
    "sorted_wrt (<) (fx_exceptionalEntries fx)" "set (fx_exceptionalEntries fx) = exceptional_rows cso names" "\<not> fx_building fx"
  using assms by (simp_all add: index_ok_def)

text \<open>Entering an index into the postings of a list of trigrams.\<close>

definition add_posting :: "u32 \<Rightarrow> u64 \<Rightarrow> FilenameIndex \<Rightarrow> FilenameIndex" where
  "add_posting i t fx = fx\<lparr>fx_trigramPostings := (fx_trigramPostings fx)(t \<mapsto> put_index (fx_building fx) i (posting fx t))\<rparr>"

lemma Add_eq:
  "fx_valid fx \<Longrightarrow> AddFilenameIndexEntry cso i name fx = fold (add_posting i) (UniqueTrigrams (FoldAscii name))
     (if NameNeedsExceptionalFallback cso name
      then fx\<lparr>fx_exceptionalEntries := put_index (fx_building fx) i (fx_exceptionalEntries fx)\<rparr> else fx)"
  by (simp add: AddFilenameIndexEntry_def add_posting_def [abs_def])

lemma add_postings:
  assumes "distinct ts"
  shows "fx_exceptionalEntries (fold (add_posting i) ts fx) = fx_exceptionalEntries fx"
    "fx_valid (fold (add_posting i) ts fx) = fx_valid fx" "fx_building (fold (add_posting i) ts fx) = fx_building fx"
    "fx_trigramPostings (fold (add_posting i) ts fx) t =
       (if t \<in> set ts then Some (put_index (fx_building fx) i (posting fx t)) else fx_trigramPostings fx t)"
    "posting (fold (add_posting i) ts fx) t = (if t \<in> set ts then put_index (fx_building fx) i (posting fx t) else posting fx t)"
proof -
  show *: "fx_trigramPostings (fold (add_posting i) ts fx) t =
       (if t \<in> set ts then Some (put_index (fx_building fx) i (posting fx t)) else fx_trigramPostings fx t)"
    using assms by (induction ts arbitrary: fx) (auto simp: add_posting_def posting_def)
  show "posting (fold (add_posting i) ts fx) t = (if t \<in> set ts then put_index (fx_building fx) i (posting fx t) else posting fx t)"
    using * by (simp add: posting_def)
  show "fx_exceptionalEntries (fold (add_posting i) ts fx) = fx_exceptionalEntries fx"
    "fx_valid (fold (add_posting i) ts fx) = fx_valid fx" "fx_building (fold (add_posting i) ts fx) = fx_building fx"
    by (induction ts arbitrary: fx) (auto simp: add_posting_def)
qed

lemma erase_postings:
  assumes "distinct ts"
  shows "fx_exceptionalEntries (fold (erase_posting i) ts fx) = fx_exceptionalEntries fx"
    "fx_valid (fold (erase_posting i) ts fx) = fx_valid fx" "fx_building (fold (erase_posting i) ts fx) = fx_building fx"
    "fx_trigramPostings (fold (erase_posting i) ts fx) t =
       (if t \<in> set ts then case fx_trigramPostings fx t of None \<Rightarrow> None
          | Some vs \<Rightarrow> if EraseSorted i vs = [] then None else Some (EraseSorted i vs)
        else fx_trigramPostings fx t)"
    "posting (fold (erase_posting i) ts fx) t = (if t \<in> set ts then EraseSorted i (posting fx t) else posting fx t)"
proof -
  show *: "fx_trigramPostings (fold (erase_posting i) ts fx) t =
       (if t \<in> set ts then case fx_trigramPostings fx t of None \<Rightarrow> None
          | Some vs \<Rightarrow> if EraseSorted i vs = [] then None else Some (EraseSorted i vs)
        else fx_trigramPostings fx t)"
    using assms by (induction ts arbitrary: fx) (auto simp: erase_posting_def split: option.splits)
  show "posting (fold (erase_posting i) ts fx) t = (if t \<in> set ts then EraseSorted i (posting fx t) else posting fx t)"
    using * by (auto simp: posting_def EraseSorted_def [of i "[]"] split: option.splits)
  show "fx_exceptionalEntries (fold (erase_posting i) ts fx) = fx_exceptionalEntries fx"
    "fx_valid (fold (erase_posting i) ts fx) = fx_valid fx" "fx_building (fold (erase_posting i) ts fx) = fx_building fx"
    by (induction ts arbitrary: fx) (auto simp: erase_posting_def split: option.splits)
qed

lemma rows_insert:
  assumes "names i = None"
  shows "trigram_rows (names(i \<mapsto> name)) t =
      (if t \<in> set (UniqueTrigrams (FoldAscii name)) then insert i (trigram_rows names t) else trigram_rows names t)"
    "exceptional_rows cso (names(i \<mapsto> name)) =
      (if NameNeedsExceptionalFallback cso name then insert i (exceptional_rows cso names) else exceptional_rows cso names)"
  using assms by (auto simp: trigram_rows_def exceptional_rows_def)

lemma rows_delete:
  assumes "names i = Some name"
  shows "trigram_rows (names(i := None)) t =
      (if t \<in> set (UniqueTrigrams (FoldAscii name)) then trigram_rows names t - {i} else trigram_rows names t)"
    "exceptional_rows cso (names(i := None)) =
      (if NameNeedsExceptionalFallback cso name then exceptional_rows cso names - {i} else exceptional_rows cso names)"
  using assms by (auto simp: trigram_rows_def exceptional_rows_def)

lemma Add_ok:
  assumes "index_ok cso names fx" "names i = None"
  shows "index_ok cso (names(i \<mapsto> name)) (AddFilenameIndexEntry cso i name fx)"
proof (cases "fx_valid fx")
  case True
  note ok = index_okD [OF assms(1) True] and add = add_postings [OF UniqueTrigrams_set(2)]
  have put: "put_index False i vs = InsertSorted i vs" for vs by (simp add: put_index_def)
  have "InsertSorted i (posting fx t) \<noteq> []" for t using InsertSorted_set [OF ok(2), of i t] by auto
  then show ?thesis
    unfolding index_ok_def Add_eq [OF True] using True ok(6) ok(1)
    by (simp add: add put rows_insert [of names i, OF assms(2)] InsertSorted_set ok posting_def [of "fx\<lparr>fx_exceptionalEntries := _\<rparr>"]
        posting_def [of fx, symmetric])
qed (use assms in \<open>simp add: index_ok_def AddFilenameIndexEntry_def\<close>)

lemma Remove_ok:
  assumes "index_ok cso names fx" "names i = Some name"
  shows "index_ok cso (names(i := None)) (RemoveFilenameIndexEntry cso i name fx)"
proof (cases "fx_valid fx")
  case True
  note ok = index_okD [OF assms(1) True] and er = erase_postings [OF UniqueTrigrams_set(2)]
  show ?thesis
    unfolding index_ok_def RemoveFilenameIndexEntry_def Let_def using True ok(6) ok(1)
    by (simp add: er rows_delete [of names i, OF assms(2)] EraseSorted_set ok posting_def [of "fx\<lparr>fx_exceptionalEntries := _\<rparr>"]
        posting_def [of fx, symmetric] split: option.split)
qed (use assms in \<open>simp add: index_ok_def RemoveFilenameIndexEntry_def\<close>)

text \<open>During a rebuild the postings collect the rows unsorted.\<close>

lemma rebuild_rows:
  fixes cso :: "u16string \<Rightarrow> u16string \<Rightarrow> nat"
  assumes "fx_valid fx" "fx_building fx" "fx_trigramPostings fx = Map.empty" "fx_exceptionalEntries fx = []" "distinct (map fst rows)"
  defines "fx' \<equiv> fold (\<lambda>(i, name). AddFilenameIndexEntry cso i name) rows fx"
  shows "fx_valid fx' \<and> fx_building fx' \<and> (\<forall>t. fx_trigramPostings fx' t \<noteq> Some [])
    \<and> (\<forall>t. set (posting fx' t) = trigram_rows (map_of rows) t)
    \<and> set (fx_exceptionalEntries fx') = exceptional_rows cso (map_of rows)"
  using assms(5) unfolding fx'_def
proof (induction rows rule: rev_induct)
  case Nil
  then show ?case using assms(1-4) by (simp add: posting_def trigram_rows_def exceptional_rows_def)
next
  case (snoc row rows)
  obtain i name where row: "row = (i, name)" by (cases row)
  let ?fx = "fold (\<lambda>(i, name). AddFilenameIndexEntry cso i name) rows fx"
  have ih: "fx_valid ?fx" "fx_building ?fx" "\<And>t. fx_trigramPostings ?fx t \<noteq> Some []"
    "\<And>t. set (posting ?fx t) = trigram_rows (map_of rows) t" "set (fx_exceptionalEntries ?fx) = exceptional_rows cso (map_of rows)"
    using snoc by simp_all
  have fresh: "map_of rows i = None" using snoc.prems row by (force simp: map_of_eq_None_iff)
  have m: "map_of (rows @ [row]) = (map_of rows)(i \<mapsto> name)"
    using fresh row by (auto simp: map_add_def fun_eq_iff split: option.splits)
  have put: "put_index True i vs = vs @ [i]" for vs by (simp add: put_index_def)
  note add = add_postings [OF UniqueTrigrams_set(2)]
  show ?case
    unfolding m rows_insert [of "map_of rows" i, OF fresh]
    using ih(1-3) by (simp add: row Add_eq [OF ih(1)] add put ih posting_def [of "?fx\<lparr>fx_exceptionalEntries := _\<rparr>"]
        posting_def [of ?fx, symmetric])
qed

lemma Rebuild_ok:
  assumes "distinct (map fst rows)"
  shows "index_ok cso (map_of rows) (RebuildFilenameIndex cso rows fx) \<and> fx_valid (RebuildFilenameIndex cso rows fx)"
proof -
  let ?fx1 = "fx\<lparr>fx_trigramPostings := Map.empty, fx_exceptionalEntries := [], fx_valid := True, fx_building := True\<rparr>"
  obtain fx2 where fx2: "fx2 = fold (\<lambda>(i, name). AddFilenameIndexEntry cso i name) rows ?fx1" by simp
  have r: "fx_valid fx2" "\<And>t. fx_trigramPostings fx2 t \<noteq> Some []" "\<And>t. set (posting fx2 t) = trigram_rows (map_of rows) t"
    "set (fx_exceptionalEntries fx2) = exceptional_rows cso (map_of rows)"
    using rebuild_rows [of ?fx1 rows cso] assms unfolding fx2 by simp_all
  have fx3: "RebuildFilenameIndex cso rows fx =
      fx2\<lparr>fx_trigramPostings := (\<lambda>t. map_option (\<lambda>vs. remdups_adj (sort vs)) (fx_trigramPostings fx2 t)),
          fx_exceptionalEntries := remdups_adj (sort (fx_exceptionalEntries fx2)), fx_building := False\<rparr>" (is "_ = ?fx3")
    unfolding RebuildFilenameIndex_def Let_def fx2 by (rule refl)
  have post: "posting ?fx3 t = remdups_adj (sort (posting fx2 t))" for t
    by (simp add: posting_def split: option.split)
  have "remdups_adj (sort vs) = [] \<longleftrightarrow> vs = []" for vs :: "u32 list" using unique_sort(2) [of vs] by (metis set_empty)
  then have "fx_trigramPostings ?fx3 t \<noteq> Some []" for t using r(2) [of t] by simp
  then show ?thesis unfolding fx3 index_ok_def post by (simp add: unique_sort r)
qed

lemma Invalidate_ok: "\<not> fx_building fx \<Longrightarrow> index_ok cso names (InvalidateFilenameIndex fx)"
  by (simp add: index_ok_def InvalidateFilenameIndex_def)

section \<open>Candidates are complete\<close>

lemma intersect_postings_set:
  assumes "intersect_postings k ps result = Some r" "sorted_wrt (<) result" "\<forall>p \<in> set ps. sorted_wrt (<) p"
  shows "set r = {i \<in> set result. \<forall>p \<in> set ps. i \<in> set p} \<and> sorted_wrt (<) r"
  using assms
proof (induction ps arbitrary: result)
  case (Cons p ps)
  show ?case
  proof (cases "result = []")
    case False
    then have "intersect_postings k ps (set_intersection result p) = Some r"
      using Cons.prems(1) by (simp add: Let_def split: if_splits)
    from Cons.IH [OF this] show ?thesis using set_intersection_set [OF Cons.prems(2), of p] Cons.prems(3) by auto
  qed (use Cons.prems in simp)
qed simp

lemma candidates_set:
  assumes "index_ok cso names fx" "FilenameCandidateIndices fx needle k = Some cs"
  shows "set cs = {i. \<forall>t \<in> set (UniqueTrigrams needle). i \<in> trigram_rows names t} \<union> exceptional_rows cso names"
    "sorted_wrt (<) cs" "k \<noteq> 0 \<Longrightarrow> length cs \<le> k"
proof -
  have v: "fx_valid fx" "3 \<le> length needle"
    using assms(2) by (auto simp: FilenameCandidateIndices_def not_less split: if_splits)
  note ok = index_okD [OF assms(1) v(1)]
  let ?ts = "UniqueTrigrams needle"
  let ?ps = "sort_key length (map (posting fx) ?ts)"
  let ?all = "{i. \<forall>t \<in> set ?ts. i \<in> trigram_rows names t}"
  have "PackTrigram needle 0 \<in> set ?ts" unfolding UniqueTrigrams_set using v(2) by (intro imageI) simp
  then have ts: "?ts \<noteq> []" by auto
  then have "set ?ps \<noteq> {}" by (simp only: set_sort) simp
  then obtain p ps where ps: "?ps = p # ps" by (cases ?ps) auto
  have sets: "set (p # ps) = posting fx ` set ?ts" by (simp flip: ps)
  have srt: "\<forall>q \<in> set (p # ps). sorted_wrt (<) q" unfolding sets using ok(2) by auto
  have all: "?all = {i. \<forall>q \<in> set (p # ps). i \<in> set q}" unfolding sets by (auto simp: ok(3))
  obtain result where res: "(if \<not> list_ex (\<lambda>t. fx_trigramPostings fx t = None) ?ts
      then if too_many k p then None else intersect_postings k ps p else Some []) = Some result"
    and fin: "(if too_many k result then None
       else if fx_exceptionalEntries fx \<noteq> [] then let merged = set_union result (fx_exceptionalEntries fx)
            in if too_many k merged then None else Some merged else Some result) = Some cs"
    using assms(2) ps by (auto simp: FilenameCandidateIndices_def Let_def bind_eq_Some_conv split: if_splits)
  have "set result = ?all \<and> sorted_wrt (<) result"
  proof (cases "list_ex (\<lambda>t. fx_trigramPostings fx t = None) ?ts")
    case True
    then obtain t where t: "t \<in> set ?ts" "fx_trigramPostings fx t = None" by (auto simp: list_ex_iff)
    then have "trigram_rows names t = {}" using ok(3) [of t] by (simp add: posting_def)
    then show ?thesis using True res t(1) by auto
  next
    case False
    then have "intersect_postings k ps p = Some result" using res by (simp split: if_splits)
    from intersect_postings_set [OF this] show ?thesis using srt unfolding all by auto
  qed
  moreover have "cs = (if fx_exceptionalEntries fx = [] then result else set_union result (fx_exceptionalEntries fx))"
    "\<not> too_many k cs"
    using fin by (auto simp: Let_def split: if_splits)
  ultimately show "set cs = ?all \<union> exceptional_rows cso names" "sorted_wrt (<) cs" "k \<noteq> 0 \<Longrightarrow> length cs \<le> k"
    using ok(4,5) by (auto simp: set_union_elems set_union_sorted too_many_def simp flip: ok(5))
qed

text \<open>
  Documented behaviour of \<open>CompareStringOrdinal\<close>: it upper-cases and compares code unit by code unit, so outside
  surrogates a string equal to an ASCII one has its length and is equal to it in every unit.
\<close>

definition unitwise_ordinal :: "ordinal \<Rightarrow> bool" where
  "unitwise_ordinal cso \<longleftrightarrow> (\<forall>l r. IsAscii r \<longrightarrow> (\<forall>u \<in> set l. \<not> (0xd800 \<le> u \<and> u \<le> 0xdfff)) \<longrightarrow> cso l r = 2 \<longrightarrow>
     length l = length r \<and> (\<forall>k < length r. cso [l ! k] [r ! k] = 2))"

lemma probe_unit_ordinary:
  assumes "u > 0x7f" "\<not> probe_unit cso u"
  shows "\<not> (0xd800 \<le> u \<and> u \<le> 0xdfff)" "a \<le> 0x7f \<Longrightarrow> cso [u] [a] \<noteq> 2"
proof -
  show "\<not> (0xd800 \<le> u \<and> u \<le> 0xdfff)" using assms by (auto simp: probe_unit_def not_le split: if_splits)
  assume "a \<le> 0x7f"
  then have "unat a < 128" by (simp add: word_le_nat_alt)
  moreover have "cso [u] [of_nat j] \<noteq> 2" if "j < 128" for j
    using assms that by (auto simp: probe_unit_def list_ex_iff not_le split: if_splits)
  ultimately have "cso [u] [of_nat (unat a)] \<noteq> 2" by blast
  then show "cso [u] [a] \<noteq> 2" by simp
qed

lemma ordinary_match:
  assumes "ascii_ordinal cso" "unitwise_ordinal cso" "IsAscii r" "cso l r = 2" "\<forall>u \<in> set l. u > 0x7f \<longrightarrow> \<not> probe_unit cso u"
  shows "FoldAscii l = FoldAscii r"
proof -
  have "\<not> (0xd800 \<le> u \<and> u \<le> 0xdfff)" if "u \<in> set l" for u
  proof (cases "u > 0x7f")
    case False
    then show ?thesis by (auto simp: word_le_nat_alt word_less_nat_alt)
  qed (use assms(5) that probe_unit_ordinary(1) in blast)
  then have eq: "length l = length r" "\<forall>k < length r. cso [l ! k] [r ! k] = 2"
    using assms(2-4) unfolding unitwise_ordinal_def by blast+
  have "l ! k \<le> 0x7f" if "k < length l" for k
    using assms(3,5) eq that probe_unit_ordinary(2) [of "l ! k" cso "r ! k"] by (force simp: IsAscii_def list_all_length simp flip: not_less)
  then have "IsAscii l" by (simp add: IsAscii_def list_all_length)
  then show ?thesis using assms(1,3,4) eq(1) by (auto simp: ascii_ordinal_def FoldAscii_def FoldAscii16Char_def [abs_def])
qed

lemma trigrams_of_part:
  assumes "j + length s \<le> length v" "s = take (length s) (drop j v)"
  shows "set (UniqueTrigrams s) \<subseteq> set (UniqueTrigrams v)"
proof
  fix t assume "t \<in> set (UniqueTrigrams s)"
  then obtain k where k: "k + 2 < length s" "t = PackTrigram s k" by (auto simp: UniqueTrigrams_set)
  have "s ! m = v ! (j + m)" if "m < length s" for m using assms that by (metis nth_drop nth_take le_add1 order_trans)
  then have "t = PackTrigram v (j + k)" using k by (simp add: PackTrigram_def add.assoc)
  then show "t \<in> set (UniqueTrigrams v)" using k(1) assms(1) by (auto simp: UniqueTrigrams_set)
qed

text \<open>
  While the accelerator is current for the live names, a candidate list for the fold of an ASCII needle has every
  live slot whose name contains the needle under the platform's comparison.
\<close>

lemma candidates_complete:
  assumes "ascii_ordinal cso" "unitwise_ordinal cso" "index_ok cso names fx" "IsAscii needle"
    "FilenameCandidateIndices fx (FoldAscii needle) maximumCandidates = Some cs"
  shows "{i. \<exists>n. names i = Some n \<and> OrdinalContains16 cso n needle} \<subseteq> set cs \<and> set cs \<subseteq> dom names
    \<and> sorted_wrt (<) cs \<and> (maximumCandidates \<noteq> 0 \<longrightarrow> length cs \<le> maximumCandidates)"
proof -
  note cs = candidates_set [OF assms(3,5)]
  have len: "3 \<le> length needle" using assms(5) by (auto simp: FilenameCandidateIndices_def FoldAscii_def split: if_splits)
  have "i \<in> set cs" if n: "names i = Some n" and c: "OrdinalContains16 cso n needle" for i n
  proof (cases "NameNeedsExceptionalFallback cso n")
    case False
    obtain j where j: "j + length needle \<le> length n" "cso (take (length needle) (drop j n)) needle = 2"
      using c len by (auto simp: OrdinalContains16_def contains_from_iff CompareOrdinal16_def split: if_splits)
    have "\<forall>u \<in> set (take (length needle) (drop j n)). u > 0x7f \<longrightarrow> \<not> probe_unit cso u"
      using False by (auto simp: NameNeedsExceptionalFallback_def list_ex_iff dest: in_set_takeD in_set_dropD)
    from ordinary_match [OF assms(1,2,4) j(2) this]
    have "FoldAscii needle = take (length (FoldAscii needle)) (drop j (FoldAscii n))" by (simp add: FoldAscii_def take_map drop_map)
    from trigrams_of_part [OF _ this] have "set (UniqueTrigrams (FoldAscii needle)) \<subseteq> set (UniqueTrigrams (FoldAscii n))"
      using j(1) by (simp add: FoldAscii_def)
    then show ?thesis unfolding cs(1) using n by (auto simp: trigram_rows_def)
  qed (use n cs(1) in \<open>auto simp: exceptional_rows_def\<close>)
  moreover have "PackTrigram (FoldAscii needle) 0 \<in> set (UniqueTrigrams (FoldAscii needle))"
    unfolding UniqueTrigrams_set using len by (intro imageI) (simp add: FoldAscii_def)
  then have "set cs \<subseteq> dom names"
    unfolding cs(1) by (auto simp: trigram_rows_def exceptional_rows_def)
  ultimately show ?thesis using cs(2,3) by blast
qed

lemma fold_ordinal_unitwise: "unitwise_ordinal fold_ordinal"
  unfolding unitwise_ordinal_def
proof (intro allI impI)
  fix l r assume "fold_ordinal l r = 2"
  then have "map FoldAscii16Char l = map FoldAscii16Char r" by (simp add: fold_ordinal_def split: if_splits)
  then show "length l = length r \<and> (\<forall>k < length r. fold_ordinal [l ! k] [r ! k] = 2)"
    by (auto simp: fold_ordinal_def list_eq_iff_nth_eq)
qed

end
