(* ===== verification/FlatMap.thy ===== *)
theory FlatMap
  imports Prelude
begin

text \<open>
  The open addressing hash table \<open>FlatHashMap\<close> (\<open>indexstore/include/ffindexstore/FlatHashMap.h\<close>):
  linear probing bounded at 64 steps over a power-of-two number of buckets, tombstones on
  erasure, growth at 75 percent occupancy and on an exhausted probe. The key hash and the two
  value-initialised objects \<open>Key{}\<close> and \<open>Value{}\<close> are the template's parameters. The C++
  exceptions are values of \<open>MapError\<close>; \<open>out_of_range\<close> stands for an access past the end of a
  vector, which C++ leaves undefined. \<open>std::vector\<close> refuses more than \<open>PTRDIFF_MAX\<close> elements
  with \<open>length_error\<close>; apart from that limit allocation is assumed to succeed. The products of
  bucket counts by small constants are written without wrap-around: keys take at least eight
  bytes, so a vector of them has fewer than \<open>2\<^sup>60\<close> elements.
\<close>

section \<open>The table and its probe loop\<close>

record ('k, 'v) FlatHashMap =
  fm_keys :: "'k list"
  fm_values :: "'v list"
  fm_states :: "byte list"
  fm_count :: nat

datatype MapError = length_error | runtime_error | out_of_range

record ProbeResult =
  pr_index :: nat
  pr_exhausted :: bool

definition kMaxProbeDistance :: nat where
  "kMaxProbeDistance = 64"

definition size_max :: nat where
  "size_max = 2 ^ 64 - 1"

definition vector_max_size :: nat where
  "vector_max_size = 2 ^ 63 - 1"

text \<open>\<open>find_slot_loop keys states msk key remaining idx\<close>: the last \<open>remaining\<close> rounds of the loop.\<close>

fun find_slot_loop :: "'k list \<Rightarrow> byte list \<Rightarrow> nat \<Rightarrow> 'k \<Rightarrow> nat \<Rightarrow> nat \<Rightarrow> ProbeResult" where
  "find_slot_loop keys states msk key 0 idx = \<lparr>pr_index = length keys, pr_exhausted = True\<rparr>"
| "find_slot_loop keys states msk key (Suc remaining) idx =
     (if states ! idx = 0 then \<lparr>pr_index = idx, pr_exhausted = False\<rparr>
      else if states ! idx = 1 \<and> keys ! idx = key then \<lparr>pr_index = idx, pr_exhausted = False\<rparr>
      else find_slot_loop keys states msk key remaining ((idx + 1) AND msk))"

definition find_slot :: "('k \<Rightarrow> u64) \<Rightarrow> 'k list \<Rightarrow> byte list \<Rightarrow> 'k \<Rightarrow> ProbeResult" where
  "find_slot hasher keys states key =
     (if keys = [] then \<lparr>pr_index = 0, pr_exhausted = False\<rparr>
      else let msk = length keys - 1; idx = unat (hasher key) AND msk
           in find_slot_loop keys states msk key kMaxProbeDistance idx)"

section \<open>Operations\<close>

definition fm_empty :: "('k, 'v) FlatHashMap" where
  "fm_empty = \<lparr>fm_keys = [], fm_values = [], fm_states = [], fm_count = 0\<rparr>"

definition fm_clear :: "('k, 'v) FlatHashMap \<Rightarrow> ('k, 'v) FlatHashMap" where
  "fm_clear m = m\<lparr>fm_keys := [], fm_values := [], fm_states := [], fm_count := 0\<rparr>"

definition fm_slot :: "('k \<Rightarrow> u64) \<Rightarrow> ('k, 'v) FlatHashMap \<Rightarrow> 'k \<Rightarrow> ProbeResult" where
  "fm_slot hasher m key = find_slot hasher (fm_keys m) (fm_states m) key"

definition fm_find :: "('k \<Rightarrow> u64) \<Rightarrow> ('k, 'v) FlatHashMap \<Rightarrow> 'k \<Rightarrow> 'v option" where
  "fm_find hasher m key =
     (let probe = fm_slot hasher m key in
      if pr_exhausted probe \<or> pr_index probe = length (fm_keys m)
         \<or> fm_states m ! pr_index probe \<noteq> 1 then None
      else Some (fm_values m ! pr_index probe))"

definition fm_contains :: "('k \<Rightarrow> u64) \<Rightarrow> ('k, 'v) FlatHashMap \<Rightarrow> 'k \<Rightarrow> bool" where
  "fm_contains hasher m key = (fm_find hasher m key \<noteq> None)"

definition PlaceWithoutGrowth ::
  "('k \<Rightarrow> u64) \<Rightarrow> ('k, 'v) FlatHashMap \<Rightarrow> 'k \<Rightarrow> 'v \<Rightarrow> MapError + bool \<times> ('k, 'v) FlatHashMap" where
  "PlaceWithoutGrowth hasher m key val =
     (let probe = fm_slot hasher m key; i = pr_index probe in
      if pr_exhausted probe then Inr (False, m)
      else if i < length (fm_keys m) \<and> fm_states m ! i = 1
        then Inr (True, m\<lparr>fm_values := (fm_values m)[i := val]\<rparr>)
      else if i < length (fm_keys m)
        then Inr (True, m\<lparr>fm_keys := (fm_keys m)[i := key], fm_values := (fm_values m)[i := val],
                          fm_states := (fm_states m)[i := 1], fm_count := fm_count m + 1\<rparr>)
      else Inl out_of_range)"

text \<open>The inner loop of \<open>grow\<close>, over the indices of the old vectors.\<close>

fun place_all ::
  "('k \<Rightarrow> u64) \<Rightarrow> ('k, 'v) FlatHashMap \<Rightarrow> nat list \<Rightarrow> ('k, 'v) FlatHashMap
     \<Rightarrow> MapError + bool \<times> ('k, 'v) FlatHashMap" where
  "place_all hasher old [] m = Inr (True, m)"
| "place_all hasher old (i # is) m =
     (if fm_states old ! i = 1 then
        bind_res (PlaceWithoutGrowth hasher m (fm_keys old ! i) (fm_values old ! i))
          (\<lambda>(placed, m'). if \<not> placed then Inr (False, m') else place_all hasher old is m')
      else place_all hasher old is m)"

definition fresh_table :: "'k \<Rightarrow> 'v \<Rightarrow> nat \<Rightarrow> ('k, 'v) FlatHashMap" where
  "fresh_table dk dv n = \<lparr>fm_keys = replicate n dk, fm_values = replicate n dv,
     fm_states = replicate n 0, fm_count = 0\<rparr>"

lemma place_all_no_buckets:
  "fm_keys m = [] \<Longrightarrow> place_all hasher old is m \<noteq> Inr (False, m')"
  by (induction "is") (auto simp: PlaceWithoutGrowth_def fm_slot_def find_slot_def Let_def)

text \<open>
  \<open>grow\<close>: the entries of the old vectors are placed into ever larger tables until every one of
  them has a bounded placement.
\<close>

function grow_loop ::
  "('k \<Rightarrow> u64) \<Rightarrow> 'k \<Rightarrow> 'v \<Rightarrow> ('k, 'v) FlatHashMap \<Rightarrow> nat \<Rightarrow> MapError + ('k, 'v) FlatHashMap" where
  "grow_loop hasher dk dv old new_buckets =
     (if new_buckets > vector_max_size then Inl length_error
      else bind_res (place_all hasher old [0..<length (fm_keys old)] (fresh_table dk dv new_buckets))
        (\<lambda>(placed, m). if placed then Inr m
           else if new_buckets > size_max div 2 then Inl length_error
           else grow_loop hasher dk dv old (new_buckets * 2)))"
  by pat_completeness auto

termination
proof (relation "measure (\<lambda>(hasher, dk, dv, old, n). Suc vector_max_size - n)")
  fix hasher :: "'k \<Rightarrow> u64" and dk :: 'k and dv :: 'v and old m :: "('k, 'v) FlatHashMap"
    and n :: nat and x placed
  assume small: "\<not> vector_max_size < n" and placed: "(placed, m) = x" "\<not> placed"
    and r: "place_all hasher old [0..<length (fm_keys old)] (fresh_table dk dv n) = Inr x"
  have "n \<noteq> 0"
  proof
    assume "n = 0"
    then have "fm_keys (fresh_table dk dv n) = []" by (simp add: fresh_table_def)
    from place_all_no_buckets [OF this] r placed show False by auto
  qed
  with small show "((hasher, dk, dv, old, n * 2), (hasher, dk, dv, old, n))
      \<in> measure (\<lambda>(hasher, dk, dv, old, n). Suc vector_max_size - n)" by simp
qed simp

declare grow_loop.simps [simp del]

definition fm_grow ::
  "('k \<Rightarrow> u64) \<Rightarrow> 'k \<Rightarrow> 'v \<Rightarrow> ('k, 'v) FlatHashMap \<Rightarrow> nat \<Rightarrow> MapError + ('k, 'v) FlatHashMap" where
  "fm_grow hasher dk dv m new_buckets = grow_loop hasher dk dv m new_buckets"

definition pow2_ceil :: "u64 \<Rightarrow> u64" where
  "pow2_ceil n =
     (if n \<le> 1 then 1
      else let n = n - 1;
               n = n OR drop_bit 1 n;
               n = n OR drop_bit 2 n;
               n = n OR drop_bit 4 n;
               n = n OR drop_bit 8 n;
               n = n OR drop_bit 16 n;
               n = n OR drop_bit 32 n
           in n + 1)"

definition fm_reserve ::
  "('k \<Rightarrow> u64) \<Rightarrow> 'k \<Rightarrow> 'v \<Rightarrow> ('k, 'v) FlatHashMap \<Rightarrow> u64 \<Rightarrow> MapError + ('k, 'v) FlatHashMap" where
  "fm_reserve hasher dk dv m n =
     (if unat n > length (fm_keys m) then fm_grow hasher dk dv m (unat (pow2_ceil (n * 2)))
      else Inr m)"

definition EnsureInsertCapacity ::
  "('k \<Rightarrow> u64) \<Rightarrow> 'k \<Rightarrow> 'v \<Rightarrow> ('k, 'v) FlatHashMap \<Rightarrow> MapError + ('k, 'v) FlatHashMap" where
  "EnsureInsertCapacity hasher dk dv m =
     (if fm_keys m = [] then fm_grow hasher dk dv m 8
      else if fm_count m \<ge> length (fm_keys m) * 3 div 4
        then fm_grow hasher dk dv m (length (fm_keys m) * 2)
      else Inr m)"

text \<open>\<open>FindInsertSlot_loop\<close> with \<open>n\<close> more rehashes allowed (the source counts up to 8).\<close>

fun FindInsertSlot_loop ::
  "('k \<Rightarrow> u64) \<Rightarrow> 'k \<Rightarrow> 'v \<Rightarrow> nat \<Rightarrow> ('k, 'v) FlatHashMap \<Rightarrow> 'k
     \<Rightarrow> MapError + ProbeResult \<times> ('k, 'v) FlatHashMap" where
  "FindInsertSlot_loop hasher dk dv n m key =
     bind_res (EnsureInsertCapacity hasher dk dv m)
       (\<lambda>m. let probe = fm_slot hasher m key in
          if \<not> pr_exhausted probe then Inr (probe, m)
          else case n of
              0 \<Rightarrow> Inl runtime_error
            | Suc n' \<Rightarrow>
                if length (fm_keys m) > size_max div 2 then Inl length_error
                else bind_res (fm_grow hasher dk dv m (length (fm_keys m) * 2))
                       (\<lambda>m. FindInsertSlot_loop hasher dk dv n' m key))"

declare FindInsertSlot_loop.simps [simp del]

definition FindInsertSlot ::
  "('k \<Rightarrow> u64) \<Rightarrow> 'k \<Rightarrow> 'v \<Rightarrow> ('k, 'v) FlatHashMap \<Rightarrow> 'k
     \<Rightarrow> MapError + ProbeResult \<times> ('k, 'v) FlatHashMap" where
  "FindInsertSlot hasher dk dv m key = FindInsertSlot_loop hasher dk dv 8 m key"

text \<open>The common tail of \<open>insert\<close> and \<open>operator[]\<close>: a new entry at the slot that was found.\<close>

definition put_new :: "nat \<Rightarrow> 'k \<Rightarrow> 'v \<Rightarrow> ('k, 'v) FlatHashMap \<Rightarrow> ('k, 'v) FlatHashMap" where
  "put_new i key val m =
     (if i = length (fm_keys m)
      then m\<lparr>fm_keys := fm_keys m @ [key], fm_values := fm_values m @ [val],
             fm_states := fm_states m @ [1], fm_count := fm_count m + 1\<rparr>
      else m\<lparr>fm_keys := (fm_keys m)[i := key], fm_values := (fm_values m)[i := val],
             fm_states := (fm_states m)[i := 1], fm_count := fm_count m + 1\<rparr>)"

definition fm_insert ::
  "('k \<Rightarrow> u64) \<Rightarrow> 'k \<Rightarrow> 'v \<Rightarrow> ('k, 'v) FlatHashMap \<Rightarrow> 'k \<Rightarrow> 'v \<Rightarrow> MapError + ('k, 'v) FlatHashMap" where
  "fm_insert hasher dk dv m key val =
     bind_res (FindInsertSlot hasher dk dv m key)
       (\<lambda>(probe, m). let i = pr_index probe in
          if i < length (fm_keys m) \<and> fm_states m ! i = 1
          then Inr (m\<lparr>fm_values := (fm_values m)[i := val]\<rparr>)
          else Inr (put_new i key val m))"

text \<open>\<open>operator[]\<close> returns a reference, here the index of the value in \<open>values_\<close>.\<close>

definition fm_subscript ::
  "('k \<Rightarrow> u64) \<Rightarrow> 'k \<Rightarrow> 'v \<Rightarrow> ('k, 'v) FlatHashMap \<Rightarrow> 'k \<Rightarrow> MapError + nat \<times> ('k, 'v) FlatHashMap" where
  "fm_subscript hasher dk dv m key =
     bind_res (FindInsertSlot hasher dk dv m key)
       (\<lambda>(probe, m). let i = pr_index probe in
          if i < length (fm_keys m) \<and> fm_states m ! i = 1 then Inr (i, m)
          else Inr (i, put_new i key dv m))"

definition fm_erase :: "('k \<Rightarrow> u64) \<Rightarrow> ('k, 'v) FlatHashMap \<Rightarrow> 'k \<Rightarrow> ('k, 'v) FlatHashMap" where
  "fm_erase hasher m key =
     (let probe = fm_slot hasher m key; i = pr_index probe in
      if pr_exhausted probe \<or> i = length (fm_keys m) \<or> fm_states m ! i \<noteq> 1 then m
      else m\<lparr>fm_states := (fm_states m)[i := 2], fm_count := fm_count m - 1\<rparr>)"

text \<open>The pairs \<open>ForEach\<close> visits, in order, and \<open>RemapValues\<close>.\<close>

definition fm_entries :: "('k, 'v) FlatHashMap \<Rightarrow> ('k \<times> 'v) list" where
  "fm_entries m = map (\<lambda>i. (fm_keys m ! i, fm_values m ! i))
     (filter (\<lambda>i. fm_states m ! i = 1) [0..<length (fm_states m)])"

definition fm_RemapValues :: "('v \<Rightarrow> 'v) \<Rightarrow> ('k, 'v) FlatHashMap \<Rightarrow> ('k, 'v) FlatHashMap" where
  "fm_RemapValues f m =
     m\<lparr>fm_values := map (\<lambda>i. if i < length (fm_states m) \<and> fm_states m ! i = 1
                             then f (fm_values m ! i) else fm_values m ! i)
                       [0..<length (fm_values m)]\<rparr>"

section \<open>The probe sequence\<close>

text \<open>
  A probe stops at an empty bucket or at the key itself. \<open>table_inv\<close> is the invariant of the
  probe arrays that both hash tables of the index share: a power-of-two number of buckets, and
  every live key is found in its own bucket.
\<close>

definition stops :: "'k list \<Rightarrow> byte list \<Rightarrow> 'k \<Rightarrow> nat \<Rightarrow> bool" where
  "stops keys states key i \<longleftrightarrow> states ! i = 0 \<or> states ! i = 1 \<and> keys ! i = key"

definition home :: "('k \<Rightarrow> u64) \<Rightarrow> 'k list \<Rightarrow> 'k \<Rightarrow> nat \<Rightarrow> nat" where
  "home hasher keys key d = (unat (hasher key) + d) mod length keys"

definition pow2_size :: "'k list \<Rightarrow> bool" where
  "pow2_size keys \<longleftrightarrow> (\<exists>k. length keys = 2 ^ k)"

definition table_inv :: "('k \<Rightarrow> u64) \<Rightarrow> 'k list \<Rightarrow> byte list \<Rightarrow> bool" where
  "table_inv hasher keys states \<longleftrightarrow>
     length states = length keys \<and> (keys = [] \<or> pow2_size keys) \<and>
     (\<forall>i < length keys. states ! i = 1 \<longrightarrow>
        find_slot hasher keys states (keys ! i) = \<lparr>pr_index = i, pr_exhausted = False\<rparr>)"

lemma pow2_size_ne: "pow2_size keys \<Longrightarrow> keys \<noteq> []"
  by (auto simp: pow2_size_def)

lemma home_less [simp]: "keys \<noteq> [] \<Longrightarrow> home hasher keys key d < length keys"
  by (simp add: home_def)

lemma find_slot_loop_found:
  assumes "length keys = 2 ^ k"
  shows "find_slot_loop keys states (2 ^ k - 1) key r (a mod 2 ^ k) = \<lparr>pr_index = j, pr_exhausted = False\<rparr>
    \<longleftrightarrow> (\<exists>d<r. j = (a + d) mod 2 ^ k \<and> stops keys states key j
          \<and> (\<forall>d'<d. \<not> stops keys states key ((a + d') mod 2 ^ k)))"
proof (induction r arbitrary: a)
  case (Suc r)
  have step: "(a mod 2 ^ k + 1) AND (2 ^ k - 1) = (a + 1) mod 2 ^ k"
    by (metis and_pow2_minus_1 mod_add_left_eq)
  show ?case
  proof (cases "stops keys states key (a mod 2 ^ k)")
    case True
    then have "find_slot_loop keys states (2 ^ k - 1) key (Suc r) (a mod 2 ^ k)
        = \<lparr>pr_index = a mod 2 ^ k, pr_exhausted = False\<rparr>"
      by (auto simp: stops_def)
    with True show ?thesis
      by (auto intro!: exI [of _ 0]) (metis add_0_right neq0_conv)
  next
    case False
    then have "find_slot_loop keys states (2 ^ k - 1) key (Suc r) (a mod 2 ^ k)
        = find_slot_loop keys states (2 ^ k - 1) key r ((a + 1) mod 2 ^ k)"
      using step by (auto simp: stops_def)
    then have "find_slot_loop keys states (2 ^ k - 1) key (Suc r) (a mod 2 ^ k) = \<lparr>pr_index = j, pr_exhausted = False\<rparr>
      \<longleftrightarrow> (\<exists>d<r. j = (a + Suc d) mod 2 ^ k \<and> stops keys states key j
            \<and> (\<forall>d'<d. \<not> stops keys states key ((a + Suc d') mod 2 ^ k)))"
      using Suc [of "a + 1"] by simp
    also have "\<dots> \<longleftrightarrow> (\<exists>d<Suc r. j = (a + d) mod 2 ^ k \<and> stops keys states key j
            \<and> (\<forall>d'<d. \<not> stops keys states key ((a + d') mod 2 ^ k)))"
      using False by (auto simp: Ex_less_Suc2 All_less_Suc2)
    finally show ?thesis .
  qed
qed simp

lemma find_slot_found_iff:
  assumes "pow2_size keys"
  shows "find_slot hasher keys states key = \<lparr>pr_index = j, pr_exhausted = False\<rparr> \<longleftrightarrow>
    (\<exists>d<64. j = home hasher keys key d \<and> stops keys states key j
        \<and> (\<forall>d'<d. \<not> stops keys states key (home hasher keys key d')))"
proof -
  from assms obtain k where k: "length keys = 2 ^ k" by (auto simp: pow2_size_def)
  have "unat (hasher key) AND (2 ^ k - 1) = unat (hasher key) mod 2 ^ k"
    by (rule and_pow2_minus_1)
  then show ?thesis
    using find_slot_loop_found [OF k, of states key 64 "unat (hasher key)" j] pow2_size_ne [OF assms] k
    by (simp add: find_slot_def kMaxProbeDistance_def home_def)
qed

lemma find_slot_loop_exhausted:
  "pr_exhausted (find_slot_loop keys states msk key r a) \<Longrightarrow>
     find_slot_loop keys states msk key r a = \<lparr>pr_index = length keys, pr_exhausted = True\<rparr>"
  by (induction r arbitrary: a) (auto split: if_splits)

lemma find_slot_cases:
  obtains (found) j where "find_slot hasher keys states key = \<lparr>pr_index = j, pr_exhausted = False\<rparr>"
  | (exhausted) "keys \<noteq> []"
      "find_slot hasher keys states key = \<lparr>pr_index = length keys, pr_exhausted = True\<rparr>"
proof (cases "pr_exhausted (find_slot hasher keys states key)")
  case True
  then show ?thesis
    using exhausted
    by (auto simp: find_slot_def Let_def split: if_splits dest: find_slot_loop_exhausted)
next
  case False
  then show ?thesis using found by (cases "find_slot hasher keys states key") auto
qed

text \<open>A probe finds the same bucket in another table that stops no earlier and stops there too.\<close>

lemma find_slot_transfer:
  assumes "pow2_size keys" "length keys' = length keys"
    and "find_slot hasher keys states key = \<lparr>pr_index = j, pr_exhausted = False\<rparr>"
    and "stops keys' states' key j"
    and "\<And>i. i < length keys \<Longrightarrow> i \<noteq> j \<Longrightarrow> stops keys' states' key i \<Longrightarrow> stops keys states key i"
  shows "find_slot hasher keys' states' key = \<lparr>pr_index = j, pr_exhausted = False\<rparr>"
proof -
  have pow': "pow2_size keys'" using assms(1,2) by (simp add: pow2_size_def)
  have home': "home hasher keys' = home hasher keys" by (intro ext) (simp add: home_def assms(2))
  obtain d where d: "d < 64" "j = home hasher keys key d"
    "\<forall>d'<d. \<not> stops keys states key (home hasher keys key d')"
    and st: "stops keys states key j"
    using assms(3) by (auto simp: find_slot_found_iff [OF assms(1)])
  have "\<not> stops keys' states' key (home hasher keys key d')" if "d' < d" for d'
  proof -
    have "home hasher keys key d' \<noteq> j" using d(3) that st by auto
    then show ?thesis using assms(5) d(3) that pow2_size_ne [OF assms(1)] by auto
  qed
  then show ?thesis
    using d assms(4) by (auto simp: find_slot_found_iff [OF pow'] home')
qed

lemma table_inv_live:
  "table_inv hasher keys states \<Longrightarrow> i < length keys \<Longrightarrow> states ! i = 1 \<Longrightarrow>
     find_slot hasher keys states (keys ! i) = \<lparr>pr_index = i, pr_exhausted = False\<rparr>"
  by (simp add: table_inv_def)

lemma table_inv_pow2: "table_inv hasher keys states \<Longrightarrow> keys \<noteq> [] \<Longrightarrow> pow2_size keys"
  by (simp add: table_inv_def)

lemma table_inv_length: "table_inv hasher keys states \<Longrightarrow> length states = length keys"
  by (simp add: table_inv_def)

lemma table_inv_Nil [simp]: "table_inv hasher [] []"
  by (simp add: table_inv_def)

lemma table_inv_fresh: "table_inv hasher (replicate (2 ^ k) dk) (replicate (2 ^ k) 0)"
  by (simp add: table_inv_def pow2_size_def)

lemma table_inv_inj:
  assumes "table_inv hasher keys states" "i < length keys" "j < length keys"
    and "states ! i = 1" "states ! j = 1" "keys ! i = keys ! j"
  shows "i = j"
proof -
  have "\<lparr>pr_index = i, pr_exhausted = False\<rparr> = \<lparr>pr_index = j, pr_exhausted = False\<rparr>"
    using table_inv_live [OF assms(1,2,4)] table_inv_live [OF assms(1,3,5)]
    unfolding assms(6) by (rule trans [OF sym])
  then show ?thesis by simp
qed

lemma find_slot_index:
  assumes "table_inv hasher keys states" "keys \<noteq> []"
    and "find_slot hasher keys states key = \<lparr>pr_index = j, pr_exhausted = False\<rparr>"
  shows "j < length keys" "states ! j = 0 \<or> states ! j = 1 \<and> keys ! j = key"
proof -
  note iff = find_slot_found_iff [OF table_inv_pow2 [OF assms(1,2)]]
  from assms(3) show "j < length keys" using assms(2) by (auto simp: iff)
  from assms(3) show "states ! j = 0 \<or> states ! j = 1 \<and> keys ! j = key"
    by (auto simp: iff stops_def)
qed

text \<open>The key is live exactly where its probe ends, or nowhere.\<close>

lemma live_iff_found:
  assumes "table_inv hasher keys states"
  shows "(j < length keys \<and> states ! j = 1 \<and> keys ! j = key) \<longleftrightarrow>
    (j < length keys \<and> states ! j = 1 \<and>
     find_slot hasher keys states key = \<lparr>pr_index = j, pr_exhausted = False\<rparr>)"
proof (cases "keys = []")
  case False
  have "keys ! j = key"
    if "states ! j = 1" "find_slot hasher keys states key = \<lparr>pr_index = j, pr_exhausted = False\<rparr>"
    using find_slot_index(2) [OF assms False that(2)] that(1) by simp
  then show ?thesis using table_inv_live [OF assms, of j] by auto
qed simp

lemma table_inv_insert:
  assumes inv: "table_inv hasher keys states" and ne: "keys \<noteq> []"
    and i: "find_slot hasher keys states key = \<lparr>pr_index = i, pr_exhausted = False\<rparr>" "states ! i = 0"
  shows "table_inv hasher (keys[i := key]) (states[i := 1])"
proof -
  note pow = table_inv_pow2 [OF inv ne] and len = table_inv_length [OF inv]
  have il: "i < length keys" using find_slot_index [OF inv ne i(1)] by simp
  have other: "keys ! j \<noteq> key" if "j < length keys" "states ! j = 1" for j
    using table_inv_live [OF inv that] i that by auto
  have "find_slot hasher (keys[i := key]) (states[i := 1]) (keys[i := key] ! j)
      = \<lparr>pr_index = j, pr_exhausted = False\<rparr>"
    if j: "j < length keys" "states[i := 1] ! j = 1" for j
  proof (cases "j = i")
    case True
    have "find_slot hasher (keys[i := key]) (states[i := 1]) key = \<lparr>pr_index = i, pr_exhausted = False\<rparr>"
      by (rule find_slot_transfer [OF pow _ i(1)])
        (auto simp: stops_def il len nth_list_update split: if_splits)
    with True il show ?thesis by simp
  next
    case False
    with j have live: "states ! j = 1" by simp
    have "find_slot hasher (keys[i := key]) (states[i := 1]) (keys ! j) = \<lparr>pr_index = j, pr_exhausted = False\<rparr>"
      by (rule find_slot_transfer [OF pow _ table_inv_live [OF inv j(1) live]])
        (use False live in \<open>auto simp: stops_def il len nth_list_update i(2) split: if_splits\<close>)
    with False show ?thesis by simp
  qed
  then show ?thesis using pow len by (auto simp: table_inv_def pow2_size_def)
qed

lemma table_inv_tombstone:
  assumes inv: "table_inv hasher keys states" and il: "i < length keys"
  shows "table_inv hasher keys (states[i := 2])"
proof (cases "keys = []")
  case False
  note pow = table_inv_pow2 [OF inv False] and len = table_inv_length [OF inv]
  have "find_slot hasher keys (states[i := 2]) (keys ! j) = \<lparr>pr_index = j, pr_exhausted = False\<rparr>"
    if j: "j < length keys" "states[i := 2] ! j = 1" for j
  proof -
    have ji: "j \<noteq> i" using j len il by auto
    with j have live: "states ! j = 1" by simp
    show ?thesis
      by (rule find_slot_transfer [OF pow _ table_inv_live [OF inv j(1) live]])
        (use ji live len il in \<open>auto simp: stops_def nth_list_update split: if_splits\<close>)
  qed
  then show ?thesis using pow len by (auto simp: table_inv_def)
qed (use inv in \<open>simp add: table_inv_def\<close>)

lemma mod_add_inj:
  assumes "(h + a) mod n = (h + b) mod n" "a < n" "b < (n::nat)"
  shows "a = b"
proof -
  have aux: "x = y" if "(h + x) mod n = (h + y) mod n" "x < n" "y < n" "x \<le> y" for x y
  proof -
    have "n dvd (h + y) - (h + x)"
      using that(1,4) by (metis add_le_cancel_left mod_eq_dvd_iff_nat)
    then have "n dvd y - x" by simp
    moreover have "y - x < n" using that by simp
    ultimately have "y - x = 0" using nat_dvd_not_less by blast
    then show ?thesis using that(4) by simp
  qed
  show ?thesis
    using aux [of a b] aux [of b a] assms by (cases "a \<le> b") auto
qed

text \<open>With fewer than 64 occupied buckets and one empty bucket no probe is exhausted.\<close>

lemma find_slot_room:
  assumes pow: "pow2_size keys"
    and room: "card {i. i < length keys \<and> states ! i \<noteq> 0} < min 64 (length keys)"
  shows "\<not> pr_exhausted (find_slot hasher keys states key)"
proof -
  let ?n = "length keys" and ?h = "home hasher keys key"
  let ?occ = "{i. i < length keys \<and> states ! i \<noteq> 0}"
  have ne: "keys \<noteq> []" by (rule pow2_size_ne [OF pow])
  have inj: "inj_on ?h {..<min 64 ?n}"
    by (auto simp: inj_on_def home_def intro: mod_add_inj)
  have "\<not> (?h ` {..<min 64 ?n} \<subseteq> ?occ)"
  proof
    assume "?h ` {..<min 64 ?n} \<subseteq> ?occ"
    then have "card (?h ` {..<min 64 ?n}) \<le> card ?occ" by (rule card_mono [rotated]) simp
    then show False using room by (simp add: card_image [OF inj])
  qed
  then obtain d0 where "d0 < min 64 ?n" "?h d0 \<notin> ?occ" by blast
  then have d0: "d0 < 64" "states ! (?h d0) = 0" using ne by auto
  let ?S = "\<lambda>d. stops keys states key (?h d)"
  define d where "d = (LEAST d. ?S d)"
  have st: "?S d0" using d0 by (simp add: stops_def)
  have "?S d" unfolding d_def by (rule LeastI [of ?S, OF st])
  moreover have "d \<le> d0" unfolding d_def by (rule Least_le [of ?S, OF st])
  moreover have "\<forall>d'<d. \<not> ?S d'" unfolding d_def using not_less_Least by blast
  ultimately have "find_slot hasher keys states key = \<lparr>pr_index = ?h d, pr_exhausted = False\<rparr>"
    using d0(1) by (auto simp: find_slot_found_iff [OF pow] intro!: exI [of _ d])
  then show ?thesis by simp
qed

section \<open>Invariant and abstraction\<close>

text \<open>
  \<open>fm_map\<close> is the finite map a table stands for: the pairs that \<open>ForEach\<close> visits. The invariant
  keeps the four members in step and counts the live buckets.
\<close>

definition live :: "('k, 'v) FlatHashMap \<Rightarrow> nat set" where
  "live m = {i. i < length (fm_keys m) \<and> fm_states m ! i = 1}"

definition fm_inv :: "('k \<Rightarrow> u64) \<Rightarrow> ('k, 'v) FlatHashMap \<Rightarrow> bool" where
  "fm_inv hasher m \<longleftrightarrow>
     table_inv hasher (fm_keys m) (fm_states m) \<and> length (fm_values m) = length (fm_keys m) \<and>
     length (fm_keys m) \<le> vector_max_size \<and> fm_count m = card (live m)"

definition fm_map :: "('k, 'v) FlatHashMap \<Rightarrow> 'k \<rightharpoonup> 'v" where
  "fm_map m = map_of (fm_entries m)"

definition no_tombs :: "('k, 'v) FlatHashMap \<Rightarrow> bool" where
  "no_tombs m \<longleftrightarrow> (\<forall>i < length (fm_keys m). fm_states m ! i = 0 \<or> fm_states m ! i = 1)"

lemma fm_invD:
  assumes "fm_inv hasher m"
  shows "table_inv hasher (fm_keys m) (fm_states m)" "length (fm_states m) = length (fm_keys m)"
    "length (fm_values m) = length (fm_keys m)" "length (fm_keys m) \<le> vector_max_size"
    "fm_count m = card (live m)"
  using assms by (auto simp: fm_inv_def dest: table_inv_length)

lemma finite_live [simp]: "finite (live m)"
  by (simp add: live_def)

lemma set_fm_entries:
  "fm_inv hasher m \<Longrightarrow>
     (k, v) \<in> set (fm_entries m) \<longleftrightarrow> (\<exists>i\<in>live m. fm_keys m ! i = k \<and> fm_values m ! i = v)"
  by (auto simp: fm_entries_def live_def fm_invD(2) image_iff)

lemma distinct_fm_entries:
  assumes "fm_inv hasher m"
  shows "distinct (map fst (fm_entries m))"
proof -
  have "inj_on (\<lambda>i. fm_keys m ! i) (live m)"
    by (rule inj_onI) (auto simp: live_def intro: table_inv_inj [OF fm_invD(1) [OF assms]])
  then show ?thesis
    by (auto simp: fm_entries_def distinct_map comp_def live_def fm_invD(2) [OF assms] inj_on_def)
qed

lemma length_fm_entries: "fm_inv hasher m \<Longrightarrow> length (fm_entries m) = fm_count m"
  by (simp add: fm_entries_def fm_invD live_def length_filter_conv_card cong: conj_cong)

lemma fm_map_Some_iff:
  assumes "fm_inv hasher m"
  shows "fm_map m k = Some v \<longleftrightarrow> (\<exists>i\<in>live m. fm_keys m ! i = k \<and> fm_values m ! i = v)"
  using set_fm_entries [OF assms] distinct_fm_entries [OF assms]
  by (simp add: fm_map_def map_of_eq_Some_iff)

lemma fm_map_eqI:
  assumes "fm_inv hasher m"
    and "\<And>k v. (\<exists>i\<in>live m. fm_keys m ! i = k \<and> fm_values m ! i = v) \<longleftrightarrow> F k = Some v"
  shows "fm_map m = F"
proof
  fix k
  have "fm_map m k = Some v \<longleftrightarrow> F k = Some v" for v
    using fm_map_Some_iff [OF assms(1)] assms(2) by simp
  then show "fm_map m k = F k" by (metis not_Some_eq)
qed

lemma fm_map_dom_count:
  assumes "fm_inv hasher m"
  shows "card (dom (fm_map m)) = fm_count m"
  using distinct_fm_entries [OF assms] length_fm_entries [OF assms]
  by (metis distinct_card dom_map_of_conv_image_fst fm_map_def length_map list.set_map)

lemma fm_map_None:
  assumes "fm_inv hasher m" and "fm_map m key = None"
  shows "i \<in> live m \<Longrightarrow> fm_keys m ! i \<noteq> key"
  using fm_map_Some_iff [OF assms(1), of key "fm_values m ! i"] assms(2) by auto

lemma fm_map_at:
  "fm_inv hasher m \<Longrightarrow> i \<in> live m \<Longrightarrow> fm_map m (fm_keys m ! i) = Some (fm_values m ! i)"
  using fm_map_Some_iff by fastforce

lemma live_unique:
  assumes "fm_inv hasher m" "i \<in> live m" "j \<in> live m" "fm_keys m ! i = fm_keys m ! j"
  shows "i = j"
  using table_inv_inj [OF fm_invD(1) [OF assms(1)], of i j] assms by (simp add: live_def)

text \<open>What a probe says about the abstract map.\<close>

lemma fm_slot_cases:
  assumes inv: "fm_inv hasher m"
  obtains (hit) i where "fm_slot hasher m key = \<lparr>pr_index = i, pr_exhausted = False\<rparr>" "i \<in> live m"
      "fm_keys m ! i = key" "fm_map m key = Some (fm_values m ! i)"
  | (free) i where "fm_slot hasher m key = \<lparr>pr_index = i, pr_exhausted = False\<rparr>"
      "i < length (fm_keys m)" "fm_states m ! i = 0" "fm_map m key = None"
  | (exhausted) "fm_keys m \<noteq> []" "fm_map m key = None"
      "fm_slot hasher m key = \<lparr>pr_index = length (fm_keys m), pr_exhausted = True\<rparr>"
  | (no_buckets) "fm_keys m = []" "fm_map m key = None"
      "fm_slot hasher m key = \<lparr>pr_index = 0, pr_exhausted = False\<rparr>"
proof -
  note tab = fm_invD(1) [OF inv]
  have miss: "fm_map m key = None" if "\<And>i. i \<in> live m \<Longrightarrow> fm_keys m ! i \<noteq> key"
    using that fm_map_Some_iff [OF inv] by (metis not_Some_eq)
  have found: "fm_slot hasher m key = \<lparr>pr_index = i, pr_exhausted = False\<rparr>"
    if "i \<in> live m" "fm_keys m ! i = key" for i
    using that table_inv_live [OF tab, of i] by (auto simp: live_def fm_slot_def)
  show ?thesis
  proof (cases "fm_keys m = []")
    case True
    then show ?thesis using miss no_buckets by (simp add: live_def fm_slot_def find_slot_def)
  next
    case ne: False
    show ?thesis
    proof (cases rule: find_slot_cases [of hasher "fm_keys m" "fm_states m" key])
      case j: (found j)
      note idx = find_slot_index [OF tab ne j]
      show ?thesis
      proof (cases "fm_states m ! j = 0")
        case True
        have "fm_map m key = None"
          using found j True by (intro miss) (auto simp: fm_slot_def live_def)
        then show ?thesis using free j True idx by (simp add: fm_slot_def)
      next
        case False
        then have "j \<in> live m" "fm_keys m ! j = key" using idx by (auto simp: live_def)
        then show ?thesis using hit j fm_map_at [OF inv] by (auto simp: fm_slot_def)
      qed
    next
      case exhausted': exhausted
      have "fm_map m key = None"
        using found exhausted'(2) by (intro miss) (auto simp: fm_slot_def)
      then show ?thesis using exhausted exhausted' by (simp add: fm_slot_def)
    qed
  qed
qed

section \<open>Operations refine the finite map\<close>

lemma fm_find_eq: "fm_inv hasher m \<Longrightarrow> fm_find hasher m key = fm_map m key"
  by (erule fm_slot_cases [of hasher m key])
    (auto simp: fm_find_def Let_def live_def)

text \<open>A new entry in the empty bucket the probe found, and a new value in a live bucket.\<close>

definition put_at :: "nat \<Rightarrow> 'k \<Rightarrow> 'v \<Rightarrow> ('k, 'v) FlatHashMap \<Rightarrow> ('k, 'v) FlatHashMap" where
  "put_at i key val m = m\<lparr>fm_keys := (fm_keys m)[i := key], fm_values := (fm_values m)[i := val],
     fm_states := (fm_states m)[i := 1], fm_count := fm_count m + 1\<rparr>"

lemma put_at_simps [simp]:
  "fm_keys (put_at i key val m) = (fm_keys m)[i := key]"
  "fm_values (put_at i key val m) = (fm_values m)[i := val]"
  "fm_states (put_at i key val m) = (fm_states m)[i := 1]"
  "fm_count (put_at i key val m) = fm_count m + 1"
  by (simp_all add: put_at_def)

lemma put_at_inv:
  assumes inv: "fm_inv hasher m"
    and slot: "fm_slot hasher m key = \<lparr>pr_index = i, pr_exhausted = False\<rparr>"
    and free: "i < length (fm_keys m)" "fm_states m ! i = 0"
  shows "fm_inv hasher (put_at i key val m)" "fm_map (put_at i key val m) = (fm_map m)(key \<mapsto> val)"
proof -
  have ne: "fm_keys m \<noteq> []" using free by auto
  have tab: "table_inv hasher ((fm_keys m)[i := key]) ((fm_states m)[i := 1])"
    using slot by (intro table_inv_insert [OF fm_invD(1) [OF inv] ne _ free(2)]) (simp add: fm_slot_def)
  have lv: "live (put_at i key val m) = insert i (live m)"
    using free fm_invD(2) [OF inv] by (auto simp: live_def nth_list_update split: if_splits)
  have "i \<notin> live m" using free by (simp add: live_def)
  then show inv': "fm_inv hasher (put_at i key val m)"
    using tab fm_invD(3,4,5) [OF inv] by (simp add: fm_inv_def lv)
  have "fm_map m key = None"
    using inv by (rule fm_slot_cases [of hasher m key]) (use slot free in \<open>auto simp: live_def\<close>)
  note none = fm_map_None [OF inv this]
  show "fm_map (put_at i key val m) = (fm_map m)(key \<mapsto> val)"
  proof (rule fm_map_eqI [OF inv'])
    fix k v
    have "(\<exists>j\<in>live (put_at i key val m). fm_keys (put_at i key val m) ! j = k
              \<and> fm_values (put_at i key val m) ! j = v) \<longleftrightarrow>
          k = key \<and> v = val \<or> (\<exists>j\<in>live m. fm_keys m ! j = k \<and> fm_values m ! j = v)"
      using \<open>i \<notin> live m\<close> free fm_invD(3) [OF inv] by (auto simp: lv nth_list_update)
    also have "\<dots> \<longleftrightarrow> ((fm_map m)(key \<mapsto> val)) k = Some v"
      using none by (auto simp: fm_map_Some_iff [OF inv])
    finally show "(\<exists>j\<in>live (put_at i key val m). fm_keys (put_at i key val m) ! j = k
        \<and> fm_values (put_at i key val m) ! j = v) = (((fm_map m)(key \<mapsto> val)) k = Some v)" .
  qed
qed

lemma set_value_inv:
  fixes val :: 'v and m :: "('k, 'v) FlatHashMap"
  assumes inv: "fm_inv hasher m" and i: "i \<in> live m" "fm_keys m ! i = key"
  defines "m' \<equiv> m\<lparr>fm_values := (fm_values m)[i := val]\<rparr>"
  shows "fm_inv hasher m'" "fm_map m' = (fm_map m)(key \<mapsto> val)"
proof -
  have lv: "live m' = live m" by (simp add: live_def m'_def)
  show inv': "fm_inv hasher m'"
    using fm_invD [OF inv] by (simp add: fm_inv_def lv) (simp add: m'_def)
  have il: "i < length (fm_values m)" using i fm_invD(3) [OF inv] by (simp add: live_def)
  have other: "fm_keys m ! j \<noteq> key" if "j \<in> live m" "j \<noteq> i" for j
    using live_unique [OF inv that(1) i(1)] that(2) i(2) by auto
  show "fm_map m' = (fm_map m)(key \<mapsto> val)"
  proof (rule fm_map_eqI [OF inv'])
    fix k v
    have "(\<exists>j\<in>live m'. fm_keys m' ! j = k \<and> fm_values m' ! j = v) \<longleftrightarrow>
        k = key \<and> v = val \<or> (\<exists>j\<in>live m - {i}. fm_keys m ! j = k \<and> fm_values m ! j = v)"
      unfolding lv using i il by (auto simp: m'_def nth_list_update)
    also have "\<dots> \<longleftrightarrow> ((fm_map m)(key \<mapsto> val)) k = Some v"
      using other i by (auto simp: fm_map_Some_iff [OF inv])
    finally show "(\<exists>j\<in>live m'. fm_keys m' ! j = k \<and> fm_values m' ! j = v)
        = (((fm_map m)(key \<mapsto> val)) k = Some v)" .
  qed
qed

lemma fm_erase_inv:
  assumes inv: "fm_inv hasher m"
  shows "fm_inv hasher (fm_erase hasher m key)"
    "fm_map (fm_erase hasher m key) = (fm_map m)(key := None)"
proof -
  have "fm_inv hasher (fm_erase hasher m key) \<and>
    fm_map (fm_erase hasher m key) = (fm_map m)(key := None)"
    using inv
  proof (cases rule: fm_slot_cases [of hasher m key])
    case (hit i)
    let ?m = "m\<lparr>fm_states := (fm_states m)[i := 2], fm_count := fm_count m - 1\<rparr>"
    have il: "i < length (fm_keys m)" "fm_states m ! i = 1" using hit(2) by (simp_all add: live_def)
    then have e: "fm_erase hasher m key = ?m" using hit by (simp add: fm_erase_def Let_def)
    have lv: "live (m\<lparr>fm_states := (fm_states m)[i := 2], fm_count := c\<rparr>) = live m - {i}" for c
      using il fm_invD(2) [OF inv] by (auto simp: live_def nth_list_update split: if_splits)
    have inv': "fm_inv hasher ?m"
      using table_inv_tombstone [OF fm_invD(1) [OF inv] il(1)] fm_invD(3-5) [OF inv] hit(2)
      by (simp add: fm_inv_def lv)
    have other: "fm_keys m ! j \<noteq> key" if "j \<in> live m" "j \<noteq> i" for j
      using live_unique [OF inv that(1) hit(2)] that(2) hit(3) by auto
    have "fm_map ?m = (fm_map m)(key := None)"
    proof (rule fm_map_eqI [OF inv'])
      fix k v
      show "(\<exists>j\<in>live ?m. fm_keys ?m ! j = k \<and> fm_values ?m ! j = v)
          = (((fm_map m)(key := None)) k = Some v)"
        unfolding lv using other hit(3) by (auto simp: fm_map_Some_iff [OF inv])
    qed
    with inv' e show ?thesis by simp
  qed (use inv in \<open>auto simp: fm_erase_def Let_def fun_upd_idem\<close>)
  then show "fm_inv hasher (fm_erase hasher m key)"
    "fm_map (fm_erase hasher m key) = (fm_map m)(key := None)" by simp_all
qed

lemma PlaceWithoutGrowth_eq:
  "PlaceWithoutGrowth hasher m key val =
     (let probe = fm_slot hasher m key; i = pr_index probe in
      if pr_exhausted probe then Inr (False, m)
      else if i < length (fm_keys m) \<and> fm_states m ! i = 1
        then Inr (True, m\<lparr>fm_values := (fm_values m)[i := val]\<rparr>)
      else if i < length (fm_keys m) then Inr (True, put_at i key val m)
      else Inl out_of_range)"
  by (simp add: PlaceWithoutGrowth_def put_at_def Let_def)

lemma PlaceWithoutGrowth_cases:
  assumes inv: "fm_inv hasher m" and ne: "fm_keys m \<noteq> []"
  obtains (placed) m' where "PlaceWithoutGrowth hasher m key val = Inr (True, m')" "fm_inv hasher m'"
      "fm_map m' = (fm_map m)(key \<mapsto> val)" "length (fm_keys m') = length (fm_keys m)"
      "no_tombs m \<Longrightarrow> no_tombs m'" "fm_count m' \<le> fm_count m + 1"
  | (full) "PlaceWithoutGrowth hasher m key val = Inr (False, m)" "pr_exhausted (fm_slot hasher m key)"
  using inv
proof (cases rule: fm_slot_cases [of hasher m key])
  case (hit i)
  note r = set_value_inv [OF inv hit(2,3), of val]
  show ?thesis
    by (rule placed [OF _ r]) (use hit in \<open>auto simp: PlaceWithoutGrowth_eq Let_def live_def no_tombs_def\<close>)
next
  case (free i)
  note r = put_at_inv [OF inv free(1-3), of val]
  show ?thesis
    by (rule placed [OF _ r])
      (use free fm_invD(2) [OF inv] in \<open>auto simp: PlaceWithoutGrowth_eq Let_def no_tombs_def nth_list_update\<close>)
next
  case exhausted
  then show ?thesis by (intro full) (simp_all add: PlaceWithoutGrowth_eq Let_def)
qed (use ne in simp)

text \<open>The pairs of the old table at a list of indices.\<close>

definition entries_at :: "('k, 'v) FlatHashMap \<Rightarrow> nat list \<Rightarrow> ('k \<times> 'v) list" where
  "entries_at old is = map (\<lambda>i. (fm_keys old ! i, fm_values old ! i)) (filter (\<lambda>i. fm_states old ! i = 1) is)"

lemma entries_at_simps [simp]:
  "entries_at old [] = []"
  "entries_at old (i # is) = (if fm_states old ! i = 1
     then (fm_keys old ! i, fm_values old ! i) # entries_at old is else entries_at old is)"
  by (simp_all add: entries_at_def)

text \<open>
  \<open>placed_ok m es m'\<close>: \<open>m'\<close> is \<open>m\<close> after placing the pairs \<open>es\<close>; \<open>crowded m n\<close>: \<open>n\<close> more
  entries leave no bound on the probes.
\<close>

definition placed_ok ::
  "('k \<Rightarrow> u64) \<Rightarrow> ('k, 'v) FlatHashMap \<Rightarrow> ('k \<times> 'v) list \<Rightarrow> ('k, 'v) FlatHashMap \<Rightarrow> bool" where
  "placed_ok hasher m es m' \<longleftrightarrow> fm_inv hasher m' \<and> fm_map m' = fm_map m ++ map_of (rev es) \<and>
     length (fm_keys m') = length (fm_keys m) \<and> no_tombs m'"

definition crowded :: "('k, 'v) FlatHashMap \<Rightarrow> nat \<Rightarrow> bool" where
  "crowded m n \<longleftrightarrow> min 64 (length (fm_keys m)) < fm_count m + n"

lemma full_is_crowded:
  assumes inv: "fm_inv hasher m" and ne: "fm_keys m \<noteq> []" and nt: "no_tombs m"
    and full: "pr_exhausted (fm_slot hasher m key)"
  shows "crowded m (Suc n)"
proof -
  have "card {j. j < length (fm_keys m) \<and> fm_states m ! j \<noteq> 0} = fm_count m"
    using nt fm_invD(5) [OF inv] by (auto simp: no_tombs_def live_def intro!: arg_cong [where f = card])
  then have "\<not> fm_count m < min 64 (length (fm_keys m))"
    using full find_slot_room [OF table_inv_pow2 [OF fm_invD(1) [OF inv] ne], of "fm_states m" hasher key]
    by (auto simp: fm_slot_def)
  then show ?thesis by (auto simp: crowded_def min_def)
qed

lemma place_all_spec:
  assumes "fm_inv hasher m" "fm_keys m \<noteq> []" "no_tombs m"
  shows "(\<exists>m'. place_all hasher old is m = Inr (True, m') \<and> placed_ok hasher m (entries_at old is) m')
    \<or> (\<exists>m'. place_all hasher old is m = Inr (False, m')) \<and> crowded m (length (entries_at old is))"
  using assms
proof (induction "is" arbitrary: m)
  case Nil
  then show ?case by (simp add: placed_ok_def)
next
  case (Cons i "is")
  let ?k = "fm_keys old ! i" and ?v = "fm_values old ! i"
  show ?case
  proof (cases "fm_states old ! i = 1")
    case True
    show ?thesis
      using Cons.prems(1,2)
    proof (cases rule: PlaceWithoutGrowth_cases [where key = ?k and val = ?v])
      case (placed m1)
      then have ne: "fm_keys m1 \<noteq> []" using Cons.prems(2) by auto
      have ok: "placed_ok hasher m (entries_at old (i # is)) m'"
        if "placed_ok hasher m1 (entries_at old is) m'" for m'
        using that True placed(3,4) by (simp add: placed_ok_def)
      have cr: "crowded m (length (entries_at old (i # is)))" if "crowded m1 (length (entries_at old is))"
        using that True placed(4,6) by (simp add: crowded_def)
      show ?thesis
        using Cons.IH [OF placed(2) ne placed(5) [OF Cons.prems(3)]] ok cr True placed(1) by auto
    next
      case full
      then show ?thesis using full_is_crowded [OF Cons.prems full(2)] True by simp
    qed
  next
    case False
    then show ?thesis using Cons.IH [OF Cons.prems] by simp
  qed
qed

lemma fresh_table_inv:
  assumes "2 ^ k \<le> vector_max_size"
  shows "fm_inv hasher (fresh_table dk dv (2 ^ k))" "fm_map (fresh_table dk dv (2 ^ k)) = Map.empty"
    "no_tombs (fresh_table dk dv (2 ^ k))"
  using assms table_inv_fresh
  by (auto simp: fm_inv_def fresh_table_def live_def no_tombs_def fm_map_def fm_entries_def)

lemma map_of_rev_distinct: "distinct (map fst xs) \<Longrightarrow> map_of (rev xs) = map_of xs"
proof (induction xs)
  case (Cons x xs)
  obtain k v where x: "x = (k, v)" by (cases x)
  have "map_of (rev (x # xs)) = [k \<mapsto> v] ++ map_of xs" using Cons x by simp
  also have "\<dots> = map_of xs ++ [k \<mapsto> v]"
    using Cons.prems x by (intro map_add_comm) (simp add: dom_map_of_conv_image_fst)
  finally show ?case using x by simp
qed simp

lemma entries_at_all:
  "fm_inv hasher old \<Longrightarrow> entries_at old [0..<length (fm_keys old)] = fm_entries old"
  by (simp add: entries_at_def fm_entries_def fm_invD(2))

text \<open>A grown table stands for the same map, has no tombstones and at least the size asked for.\<close>

definition regrown :: "('k \<Rightarrow> u64) \<Rightarrow> ('k, 'v) FlatHashMap \<Rightarrow> nat \<Rightarrow> ('k, 'v) FlatHashMap \<Rightarrow> bool" where
  "regrown hasher m n m' \<longleftrightarrow>
     fm_inv hasher m' \<and> fm_map m' = fm_map m \<and> no_tombs m' \<and> n \<le> length (fm_keys m') \<and> fm_keys m' \<noteq> []"

lemma place_all_fresh:
  assumes inv: "fm_inv hasher old" and small: "2 ^ k \<le> vector_max_size"
  obtains m' where "place_all hasher old [0..<length (fm_keys old)] (fresh_table dk dv (2 ^ k)) = Inr (True, m')"
      "regrown hasher old (2 ^ k) m'" "length (fm_keys m') = 2 ^ k"
  | m' where "place_all hasher old [0..<length (fm_keys old)] (fresh_table dk dv (2 ^ k)) = Inr (False, m')"
      "min 64 (2 ^ k) < fm_count old"
proof -
  let ?f = "fresh_table dk dv (2 ^ k)"
  have f: "fm_keys ?f \<noteq> []" "length (fm_keys ?f) = 2 ^ k" "fm_count ?f = 0"
    by (simp_all add: fresh_table_def)
  have ok: "regrown hasher old (2 ^ k) m' \<and> length (fm_keys m') = 2 ^ k"
    if "placed_ok hasher ?f (fm_entries old) m'" for m'
  proof -
    have "length (fm_keys m') = 2 ^ k" using that f by (simp add: placed_ok_def)
    moreover from this have "fm_keys m' \<noteq> []" by auto
    moreover have "fm_map m' = fm_map old"
      using that by (simp add: placed_ok_def fresh_table_inv(2) [OF small] fm_map_def [of old]
          map_of_rev_distinct [OF distinct_fm_entries [OF inv]])
    ultimately show ?thesis using that by (simp add: placed_ok_def regrown_def)
  qed
  show ?thesis
    using place_all_spec [OF fresh_table_inv(1) [OF small] f(1) fresh_table_inv(3) [OF small],
        of hasher old "[0..<length (fm_keys old)]"] that ok f
    by (auto simp: entries_at_all [OF inv] crowded_def length_fm_entries [OF inv])
qed

lemma grow_loop_spec:
  assumes "fm_inv hasher old" and "n = 2 ^ k"
  shows "case grow_loop hasher dk dv old n of
      Inl e \<Rightarrow> e = length_error
    | Inr m' \<Rightarrow> regrown hasher old n m'"
  using assms
proof (induction hasher dk dv old n arbitrary: k rule: grow_loop.induct)
  case (1 hasher dk dv old n)
  show ?case
  proof (cases "n > vector_max_size")
    case True
    then show ?thesis by (simp add: grow_loop.simps)
  next
    case False
    then have small: "2 ^ k \<le> vector_max_size" using 1 by simp
    show ?thesis
    proof (rule place_all_fresh [OF "1.prems"(1) small, of dk dv])
      fix m'
      assume "place_all hasher old [0..<length (fm_keys old)] (fresh_table dk dv (2 ^ k)) = Inr (True, m')"
        "regrown hasher old (2 ^ k) m'"
      with False show ?thesis by (subst grow_loop.simps) (simp add: "1.prems"(2))
    next
      fix m'
      assume f: "place_all hasher old [0..<length (fm_keys old)] (fresh_table dk dv (2 ^ k)) = Inr (False, m')"
      show ?thesis
      proof (cases "n > size_max div 2")
        case True
        with f False show ?thesis by (subst grow_loop.simps) (simp add: "1.prems"(2))
      next
        case nb: False
        have "grow_loop hasher dk dv old n = grow_loop hasher dk dv old (n * 2)"
          using f False nb by (subst grow_loop.simps) (simp add: "1.prems"(2))
        moreover have "case grow_loop hasher dk dv old (n * 2) of
            Inl e \<Rightarrow> e = length_error | Inr m' \<Rightarrow> regrown hasher old (n * 2) m'"
          using f False nb "1.prems"
          by (intro "1.IH" [of "(False, m')" False m' "Suc k"]) auto
        ultimately show ?thesis by (auto simp: regrown_def split: sum.splits)
      qed
    qed
  qed
qed

lemma fm_grow_Inr:
  "fm_inv hasher m \<Longrightarrow> fm_grow hasher dk dv m (2 ^ k) = Inr m' \<Longrightarrow> regrown hasher m (2 ^ k) m'"
  using grow_loop_spec [of hasher m "2 ^ k" k dk dv] by (auto simp: fm_grow_def)

lemma fm_grow_Inl:
  "fm_inv hasher m \<Longrightarrow> fm_grow hasher dk dv m (2 ^ k) = Inl e \<Longrightarrow> e = length_error"
  using grow_loop_spec [of hasher m "2 ^ k" k dk dv] by (auto simp: fm_grow_def)

lemma fm_grow_room:
  assumes inv: "fm_inv hasher m" and small: "2 ^ k \<le> vector_max_size" and room: "fm_count m \<le> min 64 (2 ^ k)"
  shows "\<exists>m'. fm_grow hasher dk dv m (2 ^ k) = Inr m' \<and> regrown hasher m (2 ^ k) m' \<and> length (fm_keys m') = 2 ^ k"
  by (rule place_all_fresh [OF inv small, of dk dv])
    (use small room in \<open>auto simp: fm_grow_def grow_loop.simps [of hasher dk dv m "2 ^ k"]\<close>)

lemma regrown_count: "fm_inv hasher m \<Longrightarrow> regrown hasher m n m' \<Longrightarrow> fm_count m' = fm_count m"
  using fm_map_dom_count by (metis regrown_def)

lemma fm_inv_pow2:
  assumes "fm_inv hasher m" "fm_keys m \<noteq> []"
  obtains k where "length (fm_keys m) = 2 ^ k"
  using table_inv_pow2 [OF fm_invD(1) [OF assms(1)] assms(2)] by (auto simp: pow2_size_def)

text \<open>The same map in a table that has buckets.\<close>

definition same_map :: "('k \<Rightarrow> u64) \<Rightarrow> ('k, 'v) FlatHashMap \<Rightarrow> ('k, 'v) FlatHashMap \<Rightarrow> bool" where
  "same_map hasher m m' \<longleftrightarrow> fm_inv hasher m' \<and> fm_map m' = fm_map m \<and> fm_keys m' \<noteq> []"

lemma regrown_same_map: "regrown hasher m n m' \<Longrightarrow> same_map hasher m m'"
  by (simp add: regrown_def same_map_def)

lemma fm_double:
  assumes "fm_inv hasher m" "fm_keys m \<noteq> []"
  shows "case fm_grow hasher dk dv m (length (fm_keys m) * 2) of
     Inl e \<Rightarrow> e = length_error | Inr m' \<Rightarrow> regrown hasher m (length (fm_keys m) * 2) m'"
proof -
  obtain k where "length (fm_keys m) = 2 ^ k" using fm_inv_pow2 [OF assms] by blast
  then have n: "length (fm_keys m) * 2 = 2 ^ Suc k" by simp
  show ?thesis
    unfolding n using fm_grow_Inr [OF assms(1), of dk dv "Suc k"] fm_grow_Inl [OF assms(1), of dk dv "Suc k"]
    by (auto split: sum.splits)
qed

lemma EnsureInsertCapacity_spec:
  assumes "fm_inv hasher m"
  shows "case EnsureInsertCapacity hasher dk dv m of Inl e \<Rightarrow> e = length_error | Inr m' \<Rightarrow> same_map hasher m m'"
proof (cases "fm_keys m = []")
  case True
  then show ?thesis
    using fm_grow_Inr [OF assms, of dk dv 3] fm_grow_Inl [OF assms, of dk dv 3]
    by (auto simp: EnsureInsertCapacity_def intro: regrown_same_map split: sum.splits)
next
  case False
  then show ?thesis
    using fm_double [OF assms False, of dk dv] assms
    by (auto simp: EnsureInsertCapacity_def same_map_def regrown_def split: sum.splits)
qed

lemma FindInsertSlot_loop_spec:
  assumes "fm_inv hasher m"
  shows "case FindInsertSlot_loop hasher dk dv n m key of
      Inl e \<Rightarrow> e \<noteq> out_of_range
    | Inr (probe, m') \<Rightarrow> same_map hasher m m' \<and> probe = fm_slot hasher m' key \<and> \<not> pr_exhausted probe"
  using assms
proof (induction n arbitrary: m)
  case 0
  then show ?case
    using EnsureInsertCapacity_spec [OF 0, of dk dv]
    by (subst FindInsertSlot_loop.simps) (auto simp: Let_def bind_res_def split: sum.splits)
next
  case (Suc n)
  show ?case
  proof (cases "EnsureInsertCapacity hasher dk dv m")
    case (Inl e)
    then show ?thesis
      using EnsureInsertCapacity_spec [OF Suc.prems, of dk dv]
      by (subst FindInsertSlot_loop.simps) simp
  next
    case (Inr m1)
    then have s1: "same_map hasher m m1"
      using EnsureInsertCapacity_spec [OF Suc.prems, of dk dv] by simp
    then have m1: "fm_inv hasher m1" "fm_keys m1 \<noteq> []" by (simp_all add: same_map_def)
    show ?thesis
    proof (cases "fm_grow hasher dk dv m1 (length (fm_keys m1) * 2)")
      case (Inl e)
      then show ?thesis
        using fm_double [OF m1, of dk dv] s1 \<open>EnsureInsertCapacity hasher dk dv m = Inr m1\<close>
        by (subst FindInsertSlot_loop.simps) (simp add: Let_def)
    next
      case g: (Inr m2)
      then have "regrown hasher m1 (length (fm_keys m1) * 2) m2"
        using fm_double [OF m1, of dk dv] by simp
      then have s2: "fm_inv hasher m2" "fm_map m2 = fm_map m" using s1 by (simp_all add: regrown_def same_map_def)
      show ?thesis
        using Suc.IH [OF s2(1)] s1 s2 \<open>EnsureInsertCapacity hasher dk dv m = Inr m1\<close> g
        by (subst FindInsertSlot_loop.simps) (auto simp: Let_def same_map_def split: sum.splits)
    qed
  qed
qed

lemma FindInsertSlot_cases:
  assumes "fm_inv hasher m"
  obtains (error) e where "FindInsertSlot hasher dk dv m key = Inl e" "e \<noteq> out_of_range"
  | (slot) m' where "FindInsertSlot hasher dk dv m key = Inr (fm_slot hasher m' key, m')"
      "same_map hasher m m'" "\<not> pr_exhausted (fm_slot hasher m' key)"
  using FindInsertSlot_loop_spec [OF assms, where dk = dk and dv = dv and n = 8 and key = key]
  by (auto simp: FindInsertSlot_def split: sum.splits)

lemma put_new_free: "i < length (fm_keys m) \<Longrightarrow> put_new i key val m = put_at i key val m"
  by (simp add: put_new_def put_at_def)

lemma fm_insert_spec:
  assumes "fm_inv hasher m"
  shows "case fm_insert hasher dk dv m key val of
      Inl e \<Rightarrow> e \<noteq> out_of_range
    | Inr m' \<Rightarrow> fm_inv hasher m' \<and> fm_map m' = (fm_map m)(key \<mapsto> val)"
  using assms
proof (cases rule: FindInsertSlot_cases [where dk = dk and dv = dv and key = key])
  case (error e)
  then show ?thesis by (simp add: fm_insert_def)
next
  case (slot m')
  from slot(2) have inv: "fm_inv hasher m'" and eq: "fm_map m' = fm_map m" and ne: "fm_keys m' \<noteq> []"
    by (simp_all add: same_map_def)
  from inv show ?thesis
  proof (cases rule: fm_slot_cases [of hasher m' key])
    case (hit i)
    then show ?thesis
      using slot(1) set_value_inv [OF inv hit(2,3), of val] eq by (simp add: fm_insert_def live_def)
  next
    case (free i)
    then show ?thesis
      using slot(1) put_at_inv [OF inv free(1-3), of val] eq by (simp add: fm_insert_def put_new_free)
  qed (use slot ne in simp_all)
qed

lemma fm_subscript_spec:
  assumes "fm_inv hasher m"
  shows "case fm_subscript hasher dk dv m key of
      Inl e \<Rightarrow> e \<noteq> out_of_range
    | Inr (i, m') \<Rightarrow> fm_inv hasher m' \<and> i \<in> live m' \<and> fm_keys m' ! i = key
        \<and> fm_map m' = (fm_map m)(key \<mapsto> case fm_map m key of None \<Rightarrow> dv | Some v \<Rightarrow> v)"
  using assms
proof (cases rule: FindInsertSlot_cases [where dk = dk and dv = dv and key = key])
  case (error e)
  then show ?thesis by (simp add: fm_subscript_def)
next
  case (slot m')
  from slot(2) have inv: "fm_inv hasher m'" and eq: "fm_map m' = fm_map m" and ne: "fm_keys m' \<noteq> []"
    by (simp_all add: same_map_def)
  from inv show ?thesis
  proof (cases rule: fm_slot_cases [of hasher m' key])
    case (hit i)
    then show ?thesis using slot(1) inv eq by (auto simp: fm_subscript_def live_def)
  next
    case (free i)
    have "i \<in> live (put_at i key dv m')" "fm_keys (put_at i key dv m') ! i = key"
      using free fm_invD(2) [OF inv] by (simp_all add: live_def)
    then show ?thesis
      using slot(1) put_at_inv [OF inv free(1-3), of dv] eq free by (simp add: fm_subscript_def put_new_free)
  qed (use slot ne in simp_all)
qed

lemma fm_RemapValues_inv:
  assumes inv: "fm_inv hasher m"
  shows "fm_inv hasher (fm_RemapValues f m)" "fm_map (fm_RemapValues f m) = map_option f \<circ> fm_map m"
proof -
  have lv: "live (fm_RemapValues f m) = live m" by (simp add: live_def fm_RemapValues_def)
  show inv': "fm_inv hasher (fm_RemapValues f m)"
    using fm_invD [OF inv] by (simp add: fm_inv_def lv) (simp add: fm_RemapValues_def)
  have val: "fm_values (fm_RemapValues f m) ! i = f (fm_values m ! i)" if "i \<in> live m" for i
    using that fm_invD(2,3) [OF inv] by (simp add: live_def fm_RemapValues_def)
  have key: "fm_keys (fm_RemapValues f m) = fm_keys m" by (simp add: fm_RemapValues_def)
  show "fm_map (fm_RemapValues f m) = map_option f \<circ> fm_map m"
    by (rule fm_map_eqI [OF inv']) (auto simp: lv val key fm_map_Some_iff [OF inv])
qed

lemma fm_empty_inv [simp]: "fm_inv hasher fm_empty" "fm_map fm_empty = Map.empty"
  by (simp_all add: fm_inv_def fm_empty_def live_def fm_map_def fm_entries_def)

lemma fm_clear_inv [simp]: "fm_inv hasher (fm_clear m)" "fm_map (fm_clear m) = Map.empty"
  by (simp_all add: fm_inv_def fm_clear_def live_def fm_map_def fm_entries_def)

section \<open>Insertion succeeds in a small table\<close>

lemma fm_slot_room:
  assumes "fm_inv hasher m" "no_tombs m" "fm_count m < min 64 (length (fm_keys m))"
  shows "\<not> pr_exhausted (fm_slot hasher m key)"
proof
  assume full: "pr_exhausted (fm_slot hasher m key)"
  have "fm_keys m \<noteq> []" using assms(3) by auto
  from full_is_crowded [OF assms(1) this assms(2) full] have "crowded m (Suc 0)" .
  then show False using assms(3) by (simp add: crowded_def)
qed

lemma fm_count_le: "fm_inv hasher m \<Longrightarrow> fm_count m \<le> length (fm_keys m)"
  using card_mono [of "{..<length (fm_keys m)}" "live m"] by (auto simp: fm_inv_def live_def)

lemma fm_double_room:
  assumes inv: "fm_inv hasher m" and ne: "fm_keys m \<noteq> []"
    and small: "fm_count m \<le> 63" "length (fm_keys m) \<le> 2 ^ 61"
  obtains m' where "fm_grow hasher dk dv m (length (fm_keys m) * 2) = Inr m'"
    "fm_inv hasher m'" "no_tombs m'" "fm_count m' = fm_count m" "length (fm_keys m') = length (fm_keys m) * 2"
    "fm_keys m' \<noteq> []"
proof -
  obtain k where k: "length (fm_keys m) = 2 ^ k" using fm_inv_pow2 [OF inv ne] by blast
  then have n: "length (fm_keys m) * 2 = 2 ^ Suc k" by simp
  have "2 ^ Suc k \<le> vector_max_size" using small(2) n by (simp add: vector_max_size_def)
  moreover have "fm_count m \<le> min 64 (2 ^ Suc k)" using small fm_count_le [OF inv] k by auto
  ultimately obtain m' where m': "fm_grow hasher dk dv m (2 ^ Suc k) = Inr m'"
    "regrown hasher m (2 ^ Suc k) m'" "length (fm_keys m') = 2 ^ Suc k"
    using fm_grow_room [OF inv] by blast
  show ?thesis
    by (rule that [of m'], unfold n)
      (use m' regrown_count [OF inv m'(2)] in \<open>auto simp: regrown_def\<close>)
qed

lemma EnsureInsertCapacity_room:
  assumes inv: "fm_inv hasher m" and small: "fm_count m \<le> 63" "length (fm_keys m) \<le> 2 ^ 61"
  obtains m' where "EnsureInsertCapacity hasher dk dv m = Inr m'" "fm_inv hasher m'"
    "fm_count m' = fm_count m" "fm_keys m' \<noteq> []" "fm_count m' < length (fm_keys m')"
    "no_tombs m' \<or> m' = m \<and> fm_count m < length (fm_keys m) * 3 div 4"
proof (cases "fm_keys m = []")
  case True
  then have c: "fm_count m = 0" using fm_count_le [OF inv] by simp
  obtain m' where "fm_grow hasher dk dv m 8 = Inr m'" "regrown hasher m 8 m'"
    using fm_grow_room [OF inv, of 3 dk dv] c by (auto simp: vector_max_size_def)
  then show ?thesis
    using that [of m'] True c regrown_count [OF inv] by (auto simp: EnsureInsertCapacity_def regrown_def)
next
  case False
  show ?thesis
  proof (cases "fm_count m \<ge> length (fm_keys m) * 3 div 4")
    case True
    have less: "fm_count m < length (fm_keys m) * 2"
      using fm_count_le [OF inv] False by (cases "fm_keys m") auto
    show ?thesis
      by (rule fm_double_room [OF inv False small, of dk dv])
        (use True False that fm_count_le [OF inv] less in \<open>auto simp: EnsureInsertCapacity_def\<close>)
  next
    case nf: False
    then show ?thesis using that [of m] False inv by (auto simp: EnsureInsertCapacity_def)
  qed
qed

lemma FindInsertSlot_room:
  assumes inv: "fm_inv hasher m" and small: "fm_count m \<le> 63" "length (fm_keys m) \<le> 2 ^ 61"
  shows "\<exists>r. FindInsertSlot hasher dk dv m key = Inr r"
proof -
  obtain m1 where m1: "EnsureInsertCapacity hasher dk dv m = Inr m1" "fm_inv hasher m1"
    "fm_count m1 = fm_count m" "fm_keys m1 \<noteq> []" "fm_count m1 < length (fm_keys m1)"
    and nt: "no_tombs m1 \<or> m1 = m \<and> fm_count m < length (fm_keys m) * 3 div 4"
    using EnsureInsertCapacity_room [OF inv small] by blast
  show ?thesis
  proof (cases "pr_exhausted (fm_slot hasher m1 key)")
    case False
    then show ?thesis
      using m1(1) by (subst FindInsertSlot_def, subst FindInsertSlot_loop.simps) (simp add: Let_def)
  next
    case True
    then have "\<not> no_tombs m1" using fm_slot_room [OF m1(2)] m1(3,5) small(1) by auto
    with nt have m: "m1 = m" "fm_count m < length (fm_keys m) * 3 div 4" by auto
    have ne: "fm_keys m \<noteq> []" using m1(4) m(1) by simp
    obtain m2 where m2: "fm_grow hasher dk dv m (length (fm_keys m) * 2) = Inr m2" "fm_inv hasher m2"
      "no_tombs m2" "fm_count m2 = fm_count m" "length (fm_keys m2) = length (fm_keys m) * 2" "fm_keys m2 \<noteq> []"
      using fm_double_room [OF inv ne small] by blast
    have "\<not> length (fm_keys m2) * 3 div 4 \<le> fm_count m2"
      using m(2) unfolding m2(4,5) by arith
    then have e2: "EnsureInsertCapacity hasher dk dv m2 = Inr m2"
      using m2(6) by (simp add: EnsureInsertCapacity_def)
    have p2: "\<not> pr_exhausted (fm_slot hasher m2 key)"
      using fm_slot_room [OF m2(2,3)] m2(4,5) small(1) m(2) by auto
    have "FindInsertSlot_loop hasher dk dv 7 m2 key = Inr (fm_slot hasher m2 key, m2)"
      using e2 p2 by (subst FindInsertSlot_loop.simps) (simp add: Let_def)
    moreover have "\<not> length (fm_keys m) > size_max div 2"
      using small(2) by (simp add: size_max_def)
    ultimately show ?thesis
      using m1(1) True m(1) m2(1)
      by (subst FindInsertSlot_def, subst FindInsertSlot_loop.simps) (simp add: Let_def eval_nat_numeral)
  qed
qed

lemma fm_insert_room:
  assumes "fm_inv hasher m" "fm_count m \<le> 63" "length (fm_keys m) \<le> 2 ^ 61"
  shows "\<exists>m'. fm_insert hasher dk dv m key val = Inr m'"
proof -
  obtain r where "FindInsertSlot hasher dk dv m key = Inr r" using FindInsertSlot_room [OF assms] by blast
  then show ?thesis by (cases r) (simp add: fm_insert_def Let_def)
qed

section \<open>The bit trick of \<open>reserve\<close>\<close>

lemma smear_step:
  fixes x n :: "'a::len word"
  assumes "\<And>i. bit x i \<longleftrightarrow> (\<exists>j<w. bit n (i + j))" and "w' = w + w"
  shows "bit (x OR drop_bit w x) i \<longleftrightarrow> (\<exists>j<w'. bit n (i + j))"
proof -
  have "(\<exists>j<w + w. bit n (i + j)) \<longleftrightarrow> (\<exists>j<w. bit n (i + j)) \<or> (\<exists>j<w. bit n (w + i + j))"
  proof
    assume "\<exists>j<w + w. bit n (i + j)"
    then obtain j where j: "j < w + w" "bit n (i + j)" by blast
    show "(\<exists>j<w. bit n (i + j)) \<or> (\<exists>j<w. bit n (w + i + j))"
    proof (cases "j < w")
      case False
      then have "j - w < w" "w + i + (j - w) = i + j" using j by auto
      with j show ?thesis by metis
    qed (use j in blast)
  next
    assume "(\<exists>j<w. bit n (i + j)) \<or> (\<exists>j<w. bit n (w + i + j))"
    then show "\<exists>j<w + w. bit n (i + j)"
    proof
      assume "\<exists>j<w. bit n (w + i + j)"
      then obtain j where "j < w" "bit n (w + i + j)" by blast
      then show ?thesis by (intro exI [of _ "w + j"]) (simp add: ac_simps)
    qed (auto intro: trans_less_add1)
  qed
  then show ?thesis by (simp add: bit_or_iff bit_drop_bit_eq assms)
qed

definition smear :: "u64 \<Rightarrow> u64" where
  "smear n = (let n = n OR drop_bit 1 n; n = n OR drop_bit 2 n; n = n OR drop_bit 4 n;
                  n = n OR drop_bit 8 n; n = n OR drop_bit 16 n in n OR drop_bit 32 n)"

lemma bit_smear: "bit (smear n) i \<longleftrightarrow> (\<exists>j<64. bit n (i + j))"
proof -
  define n1 where "n1 = n OR drop_bit 1 n"
  define n2 where "n2 = n1 OR drop_bit 2 n1"
  define n3 where "n3 = n2 OR drop_bit 4 n2"
  define n4 where "n4 = n3 OR drop_bit 8 n3"
  define n5 where "n5 = n4 OR drop_bit 16 n4"
  note defs = n1_def n2_def n3_def n4_def n5_def
  have "bit n1 i \<longleftrightarrow> (\<exists>j<2. bit n (i + j))" for i unfolding n1_def by (rule smear_step) auto
  then have "bit n2 i \<longleftrightarrow> (\<exists>j<4. bit n (i + j))" for i unfolding n2_def by (rule smear_step) auto
  then have "bit n3 i \<longleftrightarrow> (\<exists>j<8. bit n (i + j))" for i unfolding n3_def by (rule smear_step) auto
  then have "bit n4 i \<longleftrightarrow> (\<exists>j<16. bit n (i + j))" for i unfolding n4_def by (rule smear_step) auto
  then have "bit n5 i \<longleftrightarrow> (\<exists>j<32. bit n (i + j))" for i unfolding n5_def by (rule smear_step) auto
  then have "bit (n5 OR drop_bit 32 n5) i \<longleftrightarrow> (\<exists>j<64. bit n (i + j))" by (rule smear_step) auto
  moreover have "smear n = n5 OR drop_bit 32 n5" unfolding smear_def Let_def defs ..
  ultimately show ?thesis by (simp only:)
qed

lemma drop_bit_eq_0_iff_less: "drop_bit i (m::nat) = 0 \<longleftrightarrow> m < 2 ^ i"
  by (simp add: drop_bit_eq_div div_eq_0_iff)

lemma bit_smear_iff: "bit (smear n) i \<longleftrightarrow> 2 ^ i \<le> unat n"
proof -
  have "(\<exists>j<64. bit n (i + j)) \<longleftrightarrow> (\<exists>j. bit (drop_bit i (unat n)) j)"
  proof
    assume "\<exists>j. bit (drop_bit i (unat n)) j"
    then obtain j where "bit n (i + j)" by (auto simp: bit_drop_bit_eq bit_unsigned_iff)
    moreover from this have "i + j < 64" using bit_imp_le_length [of n "i + j"] by simp
    ultimately show "\<exists>j<64. bit n (i + j)" by (intro exI [of _ j]) simp
  qed (auto simp: bit_drop_bit_eq bit_unsigned_iff)
  also have "\<dots> \<longleftrightarrow> drop_bit i (unat n) \<noteq> 0"
    using bit_eq_iff [of "drop_bit i (unat n)" 0] by auto
  finally show ?thesis by (auto simp: bit_smear drop_bit_eq_0_iff_less not_less)
qed

lemma smear_mask:
  obtains k where "smear m = mask k" "unat m < 2 ^ k" "k \<le> 64" "\<And>j. unat m < 2 ^ j \<Longrightarrow> k \<le> j"
proof -
  let ?P = "\<lambda>k. unat m < 2 ^ k"
  define k where "k = (LEAST k. ?P k)"
  have ex: "unat m < 2 ^ 64" by simp
  have lt: "unat m < 2 ^ k" unfolding k_def by (rule LeastI [of ?P, OF ex])
  have le: "k \<le> j" if "unat m < 2 ^ j" for j unfolding k_def by (rule Least_le [of ?P, OF that])
  have iff: "2 ^ i \<le> unat m \<longleftrightarrow> i < k" for i
  proof
    assume "2 ^ i \<le> unat m"
    from le_less_trans [OF this lt] show "i < k" by simp
  next
    assume "i < k"
    then show "2 ^ i \<le> unat m" using le [of i] by (meson leD not_le)
  qed
  have "smear m = mask k"
    using le [OF ex] by (intro bit_word_eqI) (simp add: bit_mask_iff bit_smear_iff iff)
  then show ?thesis using that lt le ex by blast
qed

lemma pow2_ceil_eq: "\<not> n \<le> 1 \<Longrightarrow> pow2_ceil n = smear (n - 1) + 1"
  unfolding pow2_ceil_def smear_def Let_def by (simp only: if_False)

lemma pow2_ceil_bounds:
  "(unat n \<le> 2 ^ 63 \<longrightarrow> (\<exists>k. unat (pow2_ceil n) = 2 ^ k \<and> unat n \<le> 2 ^ k \<and> (\<forall>j. unat n \<le> 2 ^ j \<longrightarrow> k \<le> j)))
   \<and> (2 ^ 63 < unat n \<longrightarrow> pow2_ceil n = 0)"
proof (cases "n \<le> 1")
  case True
  then have "unat n \<le> 1" by (simp add: word_le_nat_alt)
  then show ?thesis using True by (auto simp: pow2_ceil_def intro!: exI [of _ 0])
next
  case False
  then have n: "1 < unat n" by (simp add: word_le_nat_alt)
  have m: "unat (n - 1) = unat n - 1" using n by (intro unat_minus_one) auto
  obtain k where "smear (n - 1) = mask k" and lt: "unat (n - 1) < 2 ^ k" and "k \<le> 64"
    and le: "\<And>j. unat (n - 1) < 2 ^ j \<Longrightarrow> k \<le> j"
    using smear_mask [of "n - 1"] by metis
  then have p: "pow2_ceil n = 2 ^ k"
    using pow2_ceil_eq [OF False] by (simp add: mask_eq_exp_minus_1)
  have least: "k \<le> j" if "unat n \<le> 2 ^ j" for j
    using le [of j] that m n by simp
  show ?thesis
  proof (cases "unat n \<le> 2 ^ 63")
    case True
    have "k \<le> 63" using least [OF True] .
    then have "(2::nat) ^ k < 2 ^ 64" by (intro power_strict_increasing) auto
    then have "unat (2 ^ k :: u64) = 2 ^ k" using unat_of_nat [where 'a = 64, of "2 ^ k"] by simp
    moreover have "unat n \<le> 2 ^ k" using lt m n by simp
    ultimately show ?thesis using True least p by auto
  next
    case False
    have "\<not> k \<le> 63"
    proof
      assume "k \<le> 63"
      then have "(2::nat) ^ k \<le> 2 ^ 63" by (intro power_increasing) auto
      then show False using lt m n False by simp
    qed
    then have "k = 64" using \<open>k \<le> 64\<close> by simp
    then show ?thesis using p False by simp
  qed
qed

lemma fm_reserve_spec:
  assumes inv: "fm_inv hasher m" and n: "unat n \<le> 2 ^ 62"
  shows "case fm_reserve hasher dk dv m n of Inl e \<Rightarrow> e = length_error
    | Inr m' \<Rightarrow> fm_inv hasher m' \<and> fm_map m' = fm_map m \<and> unat n \<le> length (fm_keys m')"
proof (cases "unat n > length (fm_keys m)")
  case True
  have d: "unat (n * 2) = unat n * 2" using n by (simp add: unat_mult_lem [THEN iffD1])
  obtain k where k: "unat (pow2_ceil (n * 2)) = 2 ^ k" "unat (n * 2) \<le> 2 ^ k"
    using n d pow2_ceil_bounds [of "n * 2"] by auto
  show ?thesis
    using True k(2) d fm_grow_Inr [OF inv, of dk dv k] fm_grow_Inl [OF inv, of dk dv k]
    by (auto simp: fm_reserve_def k(1) regrown_def split: sum.splits)
next
  case False
  then show ?thesis using inv by (simp add: fm_reserve_def)
qed

section \<open>The interface of a fallible finite map\<close>

text \<open>
  What a client of the hash table relies on. \<open>upd\<close> may throw, but only an exception (\<open>bad\<close>
  names the outcome that must not occur). \<open>run_ops\<close> is a client: a sequence of insertions and
  erasures that stops at the first exception.
\<close>

datatype ('k, 'v) MapOp = Put 'k 'v | Erase 'k

fun run_ops ::
  "('m \<Rightarrow> 'k \<Rightarrow> 'v \<Rightarrow> 'e + 'm) \<Rightarrow> ('m \<Rightarrow> 'k \<Rightarrow> 'm) \<Rightarrow> ('k, 'v) MapOp list \<Rightarrow> 'm \<Rightarrow> 'e + 'm" where
  "run_ops upd del [] m = Inr m"
| "run_ops upd del (Put k v # ops) m = bind_res (upd m k v) (run_ops upd del ops)"
| "run_ops upd del (Erase k # ops) m = run_ops upd del ops (del m k)"

fun spec_ops :: "('k, 'v) MapOp list \<Rightarrow> ('k \<rightharpoonup> 'v) \<Rightarrow> ('k \<rightharpoonup> 'v)" where
  "spec_ops [] f = f"
| "spec_ops (Put k v # ops) f = spec_ops ops (f(k \<mapsto> v))"
| "spec_ops (Erase k # ops) f = spec_ops ops (f(k := None))"

locale fallible_map =
  fixes invar :: "'m \<Rightarrow> bool"
    and amap :: "'m \<Rightarrow> 'k \<rightharpoonup> 'v"
    and look :: "'m \<Rightarrow> 'k \<Rightarrow> 'v option"
    and upd :: "'m \<Rightarrow> 'k \<Rightarrow> 'v \<Rightarrow> 'e + 'm"
    and del :: "'m \<Rightarrow> 'k \<Rightarrow> 'm"
    and none :: 'm
    and bad :: 'e
  assumes none_inv: "invar none" and none_map: "amap none = Map.empty"
    and look_map: "invar m \<Longrightarrow> look m k = amap m k"
    and upd_inv: "invar m \<Longrightarrow> upd m k v = Inr m' \<Longrightarrow> invar m'"
    and upd_map: "invar m \<Longrightarrow> upd m k v = Inr m' \<Longrightarrow> amap m' = (amap m)(k \<mapsto> v)"
    and upd_bad: "invar m \<Longrightarrow> upd m k v \<noteq> Inl bad"
    and del_inv: "invar m \<Longrightarrow> invar (del m k)"
    and del_map: "invar m \<Longrightarrow> amap (del m k) = (amap m)(k := None)"
begin

lemma run_ops_refines:
  "invar m \<Longrightarrow> case run_ops upd del ops m of Inl e \<Rightarrow> e \<noteq> bad
     | Inr m' \<Rightarrow> invar m' \<and> amap m' = spec_ops ops (amap m)"
proof (induction ops arbitrary: m)
  case (Cons op ops)
  show ?case
  proof (cases op)
    case (Put k v)
    show ?thesis
    proof (cases "upd m k v")
      case (Inl e)
      then show ?thesis using Put upd_bad [OF Cons.prems, of k v] by auto
    next
      case (Inr m1)
      then show ?thesis
        using Put Cons.IH [OF upd_inv [OF Cons.prems Inr]] upd_map [OF Cons.prems Inr]
        by (auto simp: fun_upd_def split: sum.splits)
    qed
  next
    case (Erase k)
    then show ?thesis
      using Cons.IH [OF del_inv [OF Cons.prems, of k]] del_map [OF Cons.prems, of k]
      by (auto simp: fun_upd_def split: sum.splits)
  qed
qed simp

lemma look_after_ops:
  "run_ops upd del ops none = Inr m \<Longrightarrow> look m k = spec_ops ops Map.empty k"
  using run_ops_refines [OF none_inv, of ops] by (simp add: none_map look_map)

end

interpretation fmap: fallible_map "fm_inv hasher" fm_map "fm_find hasher" "fm_insert hasher dk dv"
  "fm_erase hasher" fm_empty out_of_range
  for hasher :: "'k \<Rightarrow> u64" and dk :: 'k and dv :: 'v
proof
  fix m m' :: "('k, 'v) FlatHashMap" and k v
  assume inv: "fm_inv hasher m"
  show "fm_find hasher m k = fm_map m k" by (rule fm_find_eq [OF inv])
  show "fm_insert hasher dk dv m k v \<noteq> Inl out_of_range"
    using fm_insert_spec [OF inv, where dk = dk and dv = dv and key = k and val = v] by auto
  show "fm_inv hasher (fm_erase hasher m k)" "fm_map (fm_erase hasher m k) = (fm_map m)(k := None)"
    by (rule fm_erase_inv [OF inv])+
  assume "fm_insert hasher dk dv m k v = Inr m'"
  then show "fm_inv hasher m'" "fm_map m' = (fm_map m)(k \<mapsto> v)"
    using fm_insert_spec [OF inv, where dk = dk and dv = dv and key = k and val = v] by auto
qed simp_all

section \<open>Properties\<close>

text \<open>
  C2. \<open>FlatHashMap\<close> implements a finite map, for every hash function. After any sequence of
  insertions and erasures on an empty table that returns, \<open>find\<close> answers as the abstract map
  does, \<open>ForEach\<close> visits every pair of that map exactly once, and \<open>size\<close> is its cardinality. A
  sequence that does not return ended in one of the two C++ exceptions, never in an access past
  the end of a vector.
\<close>

theorem FlatHashMap_refines_map:
  "case run_ops (fm_insert hasher dk dv) (fm_erase hasher) ops fm_empty of
     Inl e \<Rightarrow> e = length_error \<or> e = runtime_error
   | Inr m \<Rightarrow> fm_find hasher m = spec_ops ops Map.empty
       \<and> map_of (fm_entries m) = spec_ops ops Map.empty \<and> distinct (map fst (fm_entries m))
       \<and> fm_count m = card (dom (spec_ops ops Map.empty))"
proof -
  have "fm_inv hasher fm_empty" by simp
  from fmap.run_ops_refines [OF this, where dk = dk and dv = dv and ops = ops] show ?thesis
    by (auto simp: fm_find_eq fm_map_def [symmetric] distinct_fm_entries fm_map_dom_count [symmetric]
        split: sum.splits intro: MapError.exhaust)
qed

text \<open>
  Insertion does not fail on a small map: with at most 63 live entries (and a table below
  \<open>2\<^sup>61\<close> buckets), whatever the hash function and whatever tombstones are left from erasures,
  \<open>insert\<close> returns, and the key is then found with its new value.
\<close>

theorem fm_insert_succeeds:
  assumes "fm_inv hasher m" "fm_count m \<le> 63" "length (fm_keys m) \<le> 2 ^ 61"
  shows "\<exists>m'. fm_insert hasher dk dv m key val = Inr m' \<and> fm_find hasher m' key = Some val"
  using fm_insert_room [OF assms, of dk dv key val] fm_insert_spec [OF assms(1), where dk = dk and dv = dv and key = key and val = val]
  by (auto simp: fm_find_eq)

theorem fm_insert_succeeds_witness:
  "\<exists>m'. fm_insert (\<lambda>k. 0) 0 0 fm_empty (5::nat) (7::nat) = Inr m' \<and> fm_find (\<lambda>k. 0) m' 5 = Some 7"
  by (rule fm_insert_succeeds) (simp_all add: fm_empty_def fm_inv_def live_def)

text \<open>
  The size that \<open>reserve\<close> asks for is the least power of two that is at least \<open>n\<close>, for every
  \<open>n\<close> up to \<open>2\<^sup>63\<close>; beyond that the 64 bit result wraps to zero.
\<close>

theorem pow2_ceil_least:
  "(unat n \<le> 2 ^ 63 \<longrightarrow> (\<exists>k. unat (pow2_ceil n) = 2 ^ k \<and> unat n \<le> 2 ^ k \<and> (\<forall>j. unat n \<le> 2 ^ j \<longrightarrow> k \<le> j)))
   \<and> (2 ^ 63 < unat n \<longrightarrow> pow2_ceil n = 0)"
  by (rule pow2_ceil_bounds)

theorem pow2_ceil_least_witness:
  "(\<exists>k. unat (pow2_ceil 1000) = 2 ^ k \<and> 1000 \<le> (2::nat) ^ k \<and> (\<forall>j. 1000 \<le> (2::nat) ^ j \<longrightarrow> k \<le> j))
   \<and> pow2_ceil 0x8000000000000001 = 0"
  using pow2_ceil_least [of 1000] pow2_ceil_least [of "0x8000000000000001"] by simp

end
