(* ===== verification/ChildrenMap.thy ===== *)
theory ChildrenMap
  imports FlatMap Entries
begin

text \<open>
  \<open>FlatChildrenMap\<close> (\<open>indexstore/include/ffindexstore/FlatHashMap.h\<close>): directory key to the list
  of its child indices, all lists kept as contiguous slices of one array. The probe table is the
  one of theory \<open>FlatMap\<close>; a bucket holds the offset and length of its slice.
\<close>

section \<open>Operations\<close>

record FlatChildrenMap =
  cm_keys :: "EntryKey list"
  cm_values :: "u32 list"
  cm_states :: "byte list"
  cm_offsets :: "nat list"
  cm_counts :: "nat list"
  cm_count :: nat

definition default_FileId :: FileId where
  "default_FileId = \<lparr>fid_low = 0, fid_high = 0\<rparr>"

definition default_EntryKey :: EntryKey where
  "default_EntryKey = \<lparr>ek_volumeRowId = 0, ek_frn = default_FileId\<rparr>"

definition cm_empty :: FlatChildrenMap where
  "cm_empty = \<lparr>cm_keys = [], cm_values = [], cm_states = [], cm_offsets = [], cm_counts = [], cm_count = 0\<rparr>"

definition cm_clear :: "FlatChildrenMap \<Rightarrow> FlatChildrenMap" where
  "cm_clear m = m\<lparr>cm_keys := [], cm_values := [], cm_states := [], cm_offsets := [], cm_counts := [],
     cm_count := 0\<rparr>"

definition cm_slot :: "FlatChildrenMap \<Rightarrow> EntryKey \<Rightarrow> ProbeResult" where
  "cm_slot m key = find_slot EntryKeyHash (cm_keys m) (cm_states m) key"

definition cm_find :: "FlatChildrenMap \<Rightarrow> EntryKey \<Rightarrow> u32 list" where
  "cm_find m key =
     (let probe = cm_slot m key in
      if pr_exhausted probe \<or> pr_index probe = length (cm_keys m) \<or> cm_states m ! pr_index probe \<noteq> 1 then []
      else let off = cm_offsets m ! pr_index probe; cnt = cm_counts m ! pr_index probe
           in take cnt (drop off (cm_values m)))"

definition cm_contains :: "FlatChildrenMap \<Rightarrow> EntryKey \<Rightarrow> bool" where
  "cm_contains m key = (cm_find m key \<noteq> [])"

definition LiveChildLinkCount :: "FlatChildrenMap \<Rightarrow> nat" where
  "LiveChildLinkCount m =
     sum_list (map (\<lambda>i. if cm_states m ! i = 1 then cm_counts m ! i else 0) [0..<length (cm_states m)])"

definition cm_fresh :: "nat \<Rightarrow> FlatChildrenMap" where
  "cm_fresh n = \<lparr>cm_keys = replicate n default_EntryKey, cm_values = [], cm_states = replicate n 0,
     cm_offsets = replicate n 0, cm_counts = replicate n 0, cm_count = 0\<rparr>"

text \<open>A bucket's new slice: offset, length and the elements appended to the flat array.\<close>

definition cm_put :: "nat \<Rightarrow> EntryKey \<Rightarrow> u32 list \<Rightarrow> FlatChildrenMap \<Rightarrow> FlatChildrenMap" where
  "cm_put i key xs m =
     m\<lparr>cm_keys := (cm_keys m)[i := key], cm_states := (cm_states m)[i := 1],
       cm_offsets := (cm_offsets m)[i := length (cm_values m)],
       cm_counts := (cm_counts m)[i := length xs],
       cm_values := cm_values m @ xs, cm_count := cm_count m + 1\<rparr>"

fun cm_place_all ::
  "FlatChildrenMap \<Rightarrow> nat list \<Rightarrow> FlatChildrenMap \<Rightarrow> MapError + bool \<times> FlatChildrenMap" where
  "cm_place_all old [] m = Inr (True, m)"
| "cm_place_all old (i # is) m =
     (if cm_states old ! i \<noteq> 1 then cm_place_all old is m
      else let cnt = cm_counts old ! i; off = cm_offsets old ! i; probe = cm_slot m (cm_keys old ! i) in
        if pr_exhausted probe then Inr (False, m)
        else if pr_index probe < length (cm_keys m)
          then cm_place_all old is
                 (cm_put (pr_index probe) (cm_keys old ! i) (take cnt (drop off (cm_values old))) m)
        else Inl out_of_range)"

lemma cm_place_all_no_buckets: "cm_keys m = [] \<Longrightarrow> cm_place_all old is m \<noteq> Inr (False, m')"
  by (induction "is") (auto simp: cm_slot_def find_slot_def Let_def)

function cm_grow :: "FlatChildrenMap \<Rightarrow> nat \<Rightarrow> MapError + FlatChildrenMap" where
  "cm_grow old new_buckets =
     (if new_buckets > vector_max_size then Inl length_error
      else bind_res (cm_place_all old [0..<length (cm_keys old)] (cm_fresh new_buckets))
        (\<lambda>(placed, m). if placed then Inr m
           else if new_buckets > size_max div 2 then Inl length_error
           else cm_grow old (new_buckets * 2)))"
  by pat_completeness auto

termination
proof (relation "measure (\<lambda>(old, n). Suc vector_max_size - n)")
  fix old m :: FlatChildrenMap and n :: nat and x placed
  assume small: "\<not> vector_max_size < n" and placed: "(placed, m) = x" "\<not> placed"
    and r: "cm_place_all old [0..<length (cm_keys old)] (cm_fresh n) = Inr x"
  have "n \<noteq> 0"
  proof
    assume "n = 0"
    then have "cm_keys (cm_fresh n) = []" by (simp add: cm_fresh_def)
    from cm_place_all_no_buckets [OF this] r placed show False by auto
  qed
  with small show "((old, n * 2), (old, n)) \<in> measure (\<lambda>(old, n). Suc vector_max_size - n)" by simp
qed simp

declare cm_grow.simps [simp del]

text \<open>The capacity and probe loop of \<open>insert\<close>, with \<open>n\<close> more rehashes allowed.\<close>

definition cm_ensure :: "FlatChildrenMap \<Rightarrow> MapError + FlatChildrenMap" where
  "cm_ensure m =
     (if cm_count m + 1 > length (cm_keys m) * 7 div 10
      then cm_grow m (if cm_keys m = [] then 8 else length (cm_keys m) * 2)
      else Inr m)"

fun cm_insert_slot :: "nat \<Rightarrow> FlatChildrenMap \<Rightarrow> EntryKey \<Rightarrow> MapError + nat \<times> FlatChildrenMap" where
  "cm_insert_slot n m key =
     bind_res (cm_ensure m)
       (\<lambda>m. let probe = cm_slot m key in
          if \<not> pr_exhausted probe then Inr (pr_index probe, m)
          else case n of
              0 \<Rightarrow> Inl runtime_error
            | Suc n' \<Rightarrow>
                if length (cm_keys m) > size_max div 2 then Inl length_error
                else bind_res (cm_grow m (length (cm_keys m) * 2)) (\<lambda>m. cm_insert_slot n' m key))"

declare cm_insert_slot.simps [simp del]

text \<open>Appending to the slice of a live bucket: relocate it to the tail unless it is there.\<close>

definition cm_append :: "nat \<Rightarrow> u32 \<Rightarrow> FlatChildrenMap \<Rightarrow> FlatChildrenMap" where
  "cm_append i childIndex m =
     (let off = cm_offsets m ! i; cnt = cm_counts m ! i;
          m1 = (if off + cnt \<noteq> length (cm_values m)
                then m\<lparr>cm_values := cm_values m @ take cnt (drop off (cm_values m)),
                       cm_offsets := (cm_offsets m)[i := length (cm_values m)]\<rparr>
                else m)
      in m1\<lparr>cm_values := cm_values m1 @ [childIndex], cm_counts := (cm_counts m1)[i := cnt + 1]\<rparr>)"

definition cm_insert :: "FlatChildrenMap \<Rightarrow> EntryKey \<Rightarrow> u32 \<Rightarrow> MapError + FlatChildrenMap" where
  "cm_insert m key childIndex =
     bind_res (cm_insert_slot 8 m key)
       (\<lambda>(i, m).
          if i < length (cm_keys m) \<and> cm_states m ! i = 1 then Inr (cm_append i childIndex m)
          else if i = length (cm_keys m)
          then Inr (m\<lparr>cm_keys := cm_keys m @ [key], cm_states := cm_states m @ [1],
                      cm_offsets := cm_offsets m @ [length (cm_values m)],
                      cm_counts := cm_counts m @ [1],
                      cm_values := cm_values m @ [childIndex], cm_count := cm_count m + 1\<rparr>)
          else Inr (cm_put i key [childIndex] m))"

text \<open>\<open>remove\<close>: the first matching element is overwritten by the last one of the slice.\<close>

fun first_child :: "u32 list \<Rightarrow> nat \<Rightarrow> u32 \<Rightarrow> nat list \<Rightarrow> nat option" where
  "first_child vs off childIndex [] = None"
| "first_child vs off childIndex (i # is) =
     (if vs ! (off + i) = childIndex then Some i else first_child vs off childIndex is)"

definition cm_remove :: "FlatChildrenMap \<Rightarrow> EntryKey \<Rightarrow> u32 \<Rightarrow> FlatChildrenMap" where
  "cm_remove m key childIndex =
     (let probe = cm_slot m key; idx = pr_index probe in
      if pr_exhausted probe \<or> idx = length (cm_keys m) \<or> cm_states m ! idx \<noteq> 1 then m
      else let off = cm_offsets m ! idx; cnt = cm_counts m ! idx in
        case first_child (cm_values m) off childIndex [0..<cnt] of
          None \<Rightarrow> m
        | Some i \<Rightarrow>
            let m1 = m\<lparr>cm_values := (cm_values m)[off + i := cm_values m ! (off + cnt - 1)],
                       cm_counts := (cm_counts m)[idx := cnt - 1]\<rparr>
            in if cnt - 1 = 0
               then m1\<lparr>cm_states := (cm_states m1)[idx := 2], cm_count := cm_count m1 - 1\<rparr>
               else m1)"

text \<open>\<open>RemapValues\<close>: for every live bucket, for every element of its slice.\<close>

definition remap_slice :: "(u32 \<Rightarrow> u32) \<Rightarrow> nat \<Rightarrow> nat \<Rightarrow> u32 list \<Rightarrow> u32 list" where
  "remap_slice f off cnt vs = foldl (\<lambda>vs child. vs[off + child := f (vs ! (off + child))]) vs [0..<cnt]"

definition cm_RemapValues :: "(u32 \<Rightarrow> u32) \<Rightarrow> FlatChildrenMap \<Rightarrow> FlatChildrenMap" where
  "cm_RemapValues f m =
     m\<lparr>cm_values := foldl (\<lambda>vs i. if cm_states m ! i \<noteq> 1 then vs
                                   else remap_slice f (cm_offsets m ! i) (cm_counts m ! i) vs)
                          (cm_values m) [0..<length (cm_states m)]\<rparr>"

section \<open>Invariant and abstraction\<close>

text \<open>
  The probe arrays with the slice of each bucket form a \<open>FlatHashMap\<close> to pairs of offset and
  length. The slices lie in the flat array, are not empty and do not overlap.
\<close>

definition cm_tab :: "FlatChildrenMap \<Rightarrow> (EntryKey, nat \<times> nat) FlatHashMap" where
  "cm_tab m = \<lparr>fm_keys = cm_keys m, fm_values = zip (cm_offsets m) (cm_counts m),
     fm_states = cm_states m, fm_count = cm_count m\<rparr>"

definition slice_of :: "'a list \<Rightarrow> nat \<times> nat \<Rightarrow> 'a list" where
  "slice_of vs p = take (snd p) (drop (fst p) vs)"

definition slices_ok :: "('k \<rightharpoonup> nat \<times> nat) \<Rightarrow> 'a list \<Rightarrow> bool" where
  "slices_ok F vs \<longleftrightarrow>
     (\<forall>k off cnt. F k = Some (off, cnt) \<longrightarrow> 0 < cnt \<and> off + cnt \<le> length vs) \<and>
     (\<forall>k k' off cnt off' cnt'. k \<noteq> k' \<longrightarrow> F k = Some (off, cnt) \<longrightarrow> F k' = Some (off', cnt') \<longrightarrow>
        off + cnt \<le> off' \<or> off' + cnt' \<le> off)"

definition cm_inv :: "FlatChildrenMap \<Rightarrow> bool" where
  "cm_inv m \<longleftrightarrow> fm_inv EntryKeyHash (cm_tab m) \<and> slices_ok (fm_map (cm_tab m)) (cm_values m) \<and>
     length (cm_offsets m) = length (cm_keys m) \<and> length (cm_counts m) = length (cm_keys m)"

definition cm_map :: "FlatChildrenMap \<Rightarrow> EntryKey \<rightharpoonup> u32 list" where
  "cm_map m = map_option (slice_of (cm_values m)) \<circ> fm_map (cm_tab m)"

text \<open>What \<open>find\<close> answers: the children of a key, none for an unknown one.\<close>

definition cm_children :: "FlatChildrenMap \<Rightarrow> EntryKey \<Rightarrow> u32 list" where
  "cm_children m key = (case cm_map m key of None \<Rightarrow> [] | Some xs \<Rightarrow> xs)"

lemma cm_tab_simps [simp]:
  "fm_keys (cm_tab m) = cm_keys m" "fm_states (cm_tab m) = cm_states m"
  "fm_count (cm_tab m) = cm_count m" "fm_values (cm_tab m) = zip (cm_offsets m) (cm_counts m)"
  by (simp_all add: cm_tab_def)

lemma cm_slot_tab: "cm_slot m key = fm_slot EntryKeyHash (cm_tab m) key"
  by (simp add: cm_slot_def fm_slot_def)

lemma cm_invD:
  assumes "cm_inv m"
  shows "fm_inv EntryKeyHash (cm_tab m)" "slices_ok (fm_map (cm_tab m)) (cm_values m)"
    "length (cm_offsets m) = length (cm_keys m)" "length (cm_counts m) = length (cm_keys m)"
  using assms by (simp_all add: cm_inv_def)

lemma slices_okD:
  "slices_ok F vs \<Longrightarrow> F k = Some (off, cnt) \<Longrightarrow> 0 < cnt \<and> off + cnt \<le> length vs"
  by (simp add: slices_ok_def)

lemma slices_ok_disj:
  "slices_ok F vs \<Longrightarrow> k \<noteq> k' \<Longrightarrow> F k = Some (off, cnt) \<Longrightarrow> F k' = Some (off', cnt') \<Longrightarrow>
     off + cnt \<le> off' \<or> off' + cnt' \<le> off"
  unfolding slices_ok_def by blast

lemma cm_live_value:
  assumes "cm_inv m" "i \<in> live (cm_tab m)"
  shows "fm_values (cm_tab m) ! i = (cm_offsets m ! i, cm_counts m ! i)"
  using assms by (simp add: cm_inv_def live_def)

lemma cm_find_eq: "cm_inv m \<Longrightarrow> cm_find m key = cm_children m key"
proof -
  assume inv: "cm_inv m"
  from cm_invD(1) [OF inv] show ?thesis
  proof (cases rule: fm_slot_cases [of EntryKeyHash "cm_tab m" key])
    case (hit i)
    then show ?thesis
      using cm_live_value [OF inv hit(2)]
      by (simp add: cm_find_def cm_slot_tab cm_children_def cm_map_def slice_of_def live_def)
  qed (auto simp: cm_find_def cm_slot_tab cm_children_def cm_map_def Let_def)
qed

lemma cm_tab_live_update:
  assumes "cm_inv m" "i \<in> live (cm_tab m)" "cm_keys m ! i = key"
  shows "fm_inv EntryKeyHash (cm_tab (m\<lparr>cm_values := vs, cm_offsets := (cm_offsets m)[i := off], cm_counts := (cm_counts m)[i := cnt]\<rparr>))"
    "fm_map (cm_tab (m\<lparr>cm_values := vs, cm_offsets := (cm_offsets m)[i := off], cm_counts := (cm_counts m)[i := cnt]\<rparr>))
       = (fm_map (cm_tab m))(key \<mapsto> (off, cnt))"
proof -
  have "cm_tab (m\<lparr>cm_values := vs, cm_offsets := (cm_offsets m)[i := off], cm_counts := (cm_counts m)[i := cnt]\<rparr>)
      = (cm_tab m)\<lparr>fm_values := (fm_values (cm_tab m))[i := (off, cnt)]\<rparr>"
    by (simp add: cm_tab_def zip_update)
  then show "fm_inv EntryKeyHash (cm_tab (m\<lparr>cm_values := vs, cm_offsets := (cm_offsets m)[i := off], cm_counts := (cm_counts m)[i := cnt]\<rparr>))"
    "fm_map (cm_tab (m\<lparr>cm_values := vs, cm_offsets := (cm_offsets m)[i := off], cm_counts := (cm_counts m)[i := cnt]\<rparr>))
       = (fm_map (cm_tab m))(key \<mapsto> (off, cnt))"
    using set_value_inv [OF cm_invD(1) [OF assms(1)] assms(2), of key "(off, cnt)"] assms(3) by simp_all
qed

lemma slice_of_append: "fst p + snd p \<le> length vs \<Longrightarrow> slice_of (vs @ ys) p = slice_of vs p"
  by (simp add: slice_of_def)

lemma cm_map_append_values:
  assumes "slices_ok F vs"
  shows "map_option (slice_of (vs @ ys)) \<circ> F = map_option (slice_of vs) \<circ> F"
proof
  fix k
  show "(map_option (slice_of (vs @ ys)) \<circ> F) k = (map_option (slice_of vs) \<circ> F) k"
    using slices_okD [OF assms, of k] by (cases "F k") (auto simp: slice_of_append)
qed

lemma slices_ok_tail:
  assumes "slices_ok F vs" "0 < length ys"
  shows "slices_ok (F(key \<mapsto> (length vs, length ys))) (vs @ ys)"
  using assms unfolding slices_ok_def by (auto; metis add_leD1 le_add1 le_trans)+

section \<open>Appending and placing slices\<close>

lemma slices_tail_map:
  assumes "slices_ok F vs"
  shows "map_option (slice_of (vs @ ys)) \<circ> F(key \<mapsto> (length vs, length ys))
    = (map_option (slice_of vs) \<circ> F)(key \<mapsto> ys)"
  using cm_map_append_values [OF assms, of ys] by (auto simp: fun_eq_iff slice_of_def)

lemma cm_put_spec:
  assumes inv: "cm_inv m" and xs: "xs \<noteq> []"
    and slot: "cm_slot m key = \<lparr>pr_index = i, pr_exhausted = False\<rparr>" "i < length (cm_keys m)" "cm_states m ! i = 0"
  shows "cm_inv (cm_put i key xs m)" "cm_map (cm_put i key xs m) = (cm_map m)(key \<mapsto> xs)"
    "cm_tab (cm_put i key xs m) = put_at i key (length (cm_values m), length xs) (cm_tab m)"
proof -
  show tab: "cm_tab (cm_put i key xs m) = put_at i key (length (cm_values m), length xs) (cm_tab m)"
    by (simp add: cm_tab_def put_at_def cm_put_def zip_update)
  have "fm_slot EntryKeyHash (cm_tab m) key = \<lparr>pr_index = i, pr_exhausted = False\<rparr>"
    using slot(1) by (simp add: cm_slot_tab)
  note put = put_at_inv [OF cm_invD(1) [OF inv] this, of "(length (cm_values m), length xs)"]
  have put': "fm_inv EntryKeyHash (cm_tab (cm_put i key xs m))"
    "fm_map (cm_tab (cm_put i key xs m)) = (fm_map (cm_tab m))(key \<mapsto> (length (cm_values m), length xs))"
    using put slot by (simp_all add: tab)
  have vals: "cm_values (cm_put i key xs m) = cm_values m @ xs" by (simp add: cm_put_def)
  have lens: "length (cm_offsets (cm_put i key xs m)) = length (cm_keys (cm_put i key xs m))"
    "length (cm_counts (cm_put i key xs m)) = length (cm_keys (cm_put i key xs m))"
    using cm_invD(3,4) [OF inv] by (simp_all add: cm_put_def)
  show "cm_inv (cm_put i key xs m)"
    using slices_ok_tail [OF cm_invD(2) [OF inv], of xs key] put' xs lens by (simp add: cm_inv_def vals)
  show "cm_map (cm_put i key xs m) = (cm_map m)(key \<mapsto> xs)"
    using slices_tail_map [OF cm_invD(2) [OF inv], of xs key] by (simp add: cm_map_def put' vals)
qed

lemma slices_ok_extend:
  assumes ok: "slices_ok F vs" and k: "F key = Some (off, cnt)" and tail: "off + cnt = length vs"
  shows "slices_ok (F(key \<mapsto> (off, cnt + 1))) (vs @ [x])"
proof -
  have before: "off' + cnt' \<le> off" if "k \<noteq> key" "F k = Some (off', cnt')" for k off' cnt'
    using slices_ok_disj [OF ok that(1) that(2) k] slices_okD [OF ok that(2)] tail by auto
  have range: "0 < cnt' \<and> off' + cnt' \<le> length vs" if "F k = Some (off', cnt')" for k off' cnt'
    using slices_okD [OF ok that] .
  show ?thesis
    unfolding slices_ok_def
  proof (intro conjI allI impI)
    fix k off' cnt'
    assume "(F(key \<mapsto> (off, cnt + 1))) k = Some (off', cnt')"
    then show "0 < cnt'" "off' + cnt' \<le> length (vs @ [x])"
      using range [of k off' cnt'] tail by (auto split: if_splits)
  next
    fix k k' o1 c1 o2 c2
    assume "k \<noteq> k'" "(F(key \<mapsto> (off, cnt + 1))) k = Some (o1, c1)" "(F(key \<mapsto> (off, cnt + 1))) k' = Some (o2, c2)"
    then show "o1 + c1 \<le> o2 \<or> o2 + c2 \<le> o1"
      using before [of k o1 c1] before [of k' o2 c2] slices_ok_disj [OF ok, of k k' o1 c1 o2 c2]
      by (auto split: if_splits)
  qed
qed

lemma cm_map_at:
  "fm_map (cm_tab m) key = Some (off, cnt) \<Longrightarrow> cm_map m key = Some (take cnt (drop off (cm_values m)))"
  by (simp add: cm_map_def slice_of_def)

lemma cm_append_eq:
  "cm_append i c m =
     (if cm_offsets m ! i + cm_counts m ! i \<noteq> length (cm_values m)
      then m\<lparr>cm_values := cm_values m @ take (cm_counts m ! i) (drop (cm_offsets m ! i) (cm_values m)) @ [c],
             cm_offsets := (cm_offsets m)[i := length (cm_values m)], cm_counts := (cm_counts m)[i := cm_counts m ! i + 1]\<rparr>
      else m\<lparr>cm_values := cm_values m @ [c], cm_offsets := (cm_offsets m)[i := cm_offsets m ! i],
             cm_counts := (cm_counts m)[i := cm_counts m ! i + 1]\<rparr>)"
  by (simp add: cm_append_def Let_def)

lemma cm_append_spec:
  assumes inv: "cm_inv m" and live: "i \<in> live (cm_tab m)" "cm_keys m ! i = key"
  shows "cm_inv (cm_append i c m)" "cm_map (cm_append i c m) = (cm_map m)(key \<mapsto> cm_children m key @ [c])"
proof -
  let ?off = "cm_offsets m ! i" and ?cnt = "cm_counts m ! i" and ?F = "fm_map (cm_tab m)" and ?vs = "cm_values m"
  have F: "?F key = Some (?off, ?cnt)"
    using fm_map_at [OF cm_invD(1) [OF inv] live(1)] cm_live_value [OF inv live(1)] live(2) by simp
  note ok = cm_invD(2) [OF inv]
  have range: "?off + ?cnt \<le> length ?vs" using slices_okD [OF ok F] by simp
  have ch: "cm_children m key = take ?cnt (drop ?off ?vs)" by (simp add: cm_children_def cm_map_at [OF F])
  have "cm_inv (cm_append i c m) \<and> cm_map (cm_append i c m) = (cm_map m)(key \<mapsto> cm_children m key @ [c])"
  proof (cases "?off + ?cnt = length ?vs")
    case True
    define m' where
      "m' = m\<lparr>cm_values := ?vs @ [c], cm_offsets := (cm_offsets m)[i := ?off], cm_counts := (cm_counts m)[i := ?cnt + 1]\<rparr>"
    have e: "cm_append i c m = m'" using True by (simp add: cm_append_eq m'_def)
    note u = cm_tab_live_update [OF inv live(1,2), where vs = "?vs @ [c]" and off = ?off and cnt = "?cnt + 1",
        folded m'_def]
    have m': "cm_values m' = ?vs @ [c]" "length (cm_offsets m') = length (cm_keys m')"
      "length (cm_counts m') = length (cm_keys m')"
      using cm_invD(3,4) [OF inv] by (simp_all add: m'_def)
    have "cm_inv m'" using u slices_ok_extend [OF ok F True, of c] m' by (simp add: cm_inv_def)
    moreover have "cm_map m' = (cm_map m)(key \<mapsto> cm_children m key @ [c])"
      using cm_map_append_values [OF ok, of "[c]"] True
      by (auto simp: cm_map_def u(2) m'(1) fun_eq_iff ch slice_of_def)
    ultimately show ?thesis by (simp only: e)
  next
    case False
    define xs where "xs = take ?cnt (drop ?off ?vs) @ [c]"
    define m' where
      "m' = m\<lparr>cm_values := ?vs @ xs, cm_offsets := (cm_offsets m)[i := length ?vs], cm_counts := (cm_counts m)[i := ?cnt + 1]\<rparr>"
    have e: "cm_append i c m = m'" using False by (simp add: cm_append_eq m'_def xs_def)
    have len: "length xs = ?cnt + 1" using range by (simp add: xs_def)
    note u = cm_tab_live_update [OF inv live(1,2), where vs = "?vs @ xs" and off = "length ?vs" and cnt = "?cnt + 1",
        folded m'_def]
    have m': "cm_values m' = ?vs @ xs" "length (cm_offsets m') = length (cm_keys m')"
      "length (cm_counts m') = length (cm_keys m')"
      using cm_invD(3,4) [OF inv] by (simp_all add: m'_def)
    have "cm_inv m'"
      using u slices_ok_tail [OF ok, of xs key] len m' by (simp add: cm_inv_def)
    moreover have "cm_map m' = (cm_map m)(key \<mapsto> xs)"
      using slices_tail_map [OF ok, of xs key] u(2) len by (simp add: cm_map_def m'(1))
    ultimately show ?thesis by (simp only: e ch xs_def)
  qed
  then show "cm_inv (cm_append i c m)" "cm_map (cm_append i c m) = (cm_map m)(key \<mapsto> cm_children m key @ [c])"
    by simp_all
qed

section \<open>Growing keeps every list of children\<close>

definition centries :: "FlatChildrenMap \<Rightarrow> nat list \<Rightarrow> (EntryKey \<times> u32 list) list" where
  "centries old is = map (\<lambda>i. (cm_keys old ! i, take (cm_counts old ! i) (drop (cm_offsets old ! i) (cm_values old))))
     (filter (\<lambda>i. cm_states old ! i = 1) is)"

lemma centries_simps [simp]:
  "centries old [] = []"
  "centries old (i # is) = (if cm_states old ! i = 1
     then (cm_keys old ! i, take (cm_counts old ! i) (drop (cm_offsets old ! i) (cm_values old))) # centries old is
     else centries old is)"
  by (simp_all add: centries_def)

lemma dom_cm_map: "dom (cm_map m) = dom (fm_map (cm_tab m))"
  by (auto simp: cm_map_def)

lemma cm_place_all_spec:
  assumes "cm_inv m" "cm_keys m \<noteq> []" "distinct (map fst (centries old is))"
    and "\<And>k xs. (k, xs) \<in> set (centries old is) \<Longrightarrow> xs \<noteq> [] \<and> k \<notin> dom (cm_map m)"
  shows "case cm_place_all old is m of
      Inl e \<Rightarrow> False
    | Inr (placed, m') \<Rightarrow> placed \<longrightarrow> cm_inv m' \<and> cm_map m' = cm_map m ++ map_of (rev (centries old is))
        \<and> length (cm_keys m') = length (cm_keys m)"
  using assms
proof (induction "is" arbitrary: m)
  case (Cons i "is")
  show ?case
  proof (cases "cm_states old ! i = 1")
    case True
    let ?k = "cm_keys old ! i" and ?xs = "take (cm_counts old ! i) (drop (cm_offsets old ! i) (cm_values old))"
    have new: "?xs \<noteq> []" "fm_map (cm_tab m) ?k = None"
      using Cons.prems(4) [of ?k ?xs] True by (auto simp: dom_cm_map)
    from cm_invD(1) [OF Cons.prems(1)] show ?thesis
    proof (cases rule: fm_slot_cases [of EntryKeyHash "cm_tab m" ?k])
      case (free j)
      have slot: "cm_slot m ?k = \<lparr>pr_index = j, pr_exhausted = False\<rparr>" "j < length (cm_keys m)" "cm_states m ! j = 0"
        using free by (simp_all add: cm_slot_tab)
      define m1 where "m1 = cm_put j ?k ?xs m"
      note put = cm_put_spec [OF Cons.prems(1) new(1) slot, folded m1_def]
      have len: "length (cm_keys m1) = length (cm_keys m)" by (simp add: m1_def cm_put_def)
      have "case cm_place_all old is m1 of
          Inl e \<Rightarrow> False
        | Inr (placed, m') \<Rightarrow> placed \<longrightarrow> cm_inv m' \<and> cm_map m' = cm_map m1 ++ map_of (rev (centries old is))
            \<and> length (cm_keys m') = length (cm_keys m1)"
      proof (rule Cons.IH [OF put(1)])
        show "cm_keys m1 \<noteq> []" using len Cons.prems(2) by auto
        show "distinct (map fst (centries old is))" using Cons.prems(3) True by simp
        show "xs \<noteq> [] \<and> k \<notin> dom (cm_map m1)" if "(k, xs) \<in> set (centries old is)" for k xs
          using that Cons.prems(3) Cons.prems(4) [of k xs] True by (force simp: put(2))
      qed
      moreover have "cm_place_all old (i # is) m = cm_place_all old is m1"
        using True slot by (simp add: m1_def)
      ultimately show ?thesis using True put(2) len by (auto split: sum.splits)
    qed (use True new Cons.prems(2) in \<open>auto simp: cm_slot_tab Let_def\<close>)
  next
    case False
    then have c: "centries old (i # is) = centries old is" "cm_place_all old (i # is) m = cm_place_all old is m"
      by simp_all
    show ?thesis
      unfolding c using Cons.IH [OF Cons.prems(1,2)] Cons.prems(3,4) unfolding c by blast
  qed
qed simp

lemma centries_all:
  assumes "cm_inv old"
  shows "map_of (centries old [0..<length (cm_keys old)]) = cm_map old"
    "distinct (map fst (centries old [0..<length (cm_keys old)]))"
    "(k, xs) \<in> set (centries old [0..<length (cm_keys old)]) \<Longrightarrow> xs \<noteq> []"
proof -
  let ?es = "centries old [0..<length (cm_keys old)]"
  have e: "?es = map (\<lambda>(k, p). (k, slice_of (cm_values old) p)) (fm_entries (cm_tab old))"
    using cm_invD(3,4) [OF assms] fm_invD(2) [OF cm_invD(1) [OF assms]]
    by (auto simp: centries_def fm_entries_def slice_of_def)
  show m: "map_of ?es = cm_map old" unfolding e by (simp add: map_of_map cm_map_def fm_map_def)
  have "map fst ?es = map fst (fm_entries (cm_tab old))" by (simp add: e case_prod_unfold)
  then show d: "distinct (map fst ?es)" using distinct_fm_entries [OF cm_invD(1) [OF assms]] by simp
  assume "(k, xs) \<in> set ?es"
  then have "cm_map old k = Some xs" using m d by (metis map_of_eq_Some_iff)
  then obtain off cnt where F: "fm_map (cm_tab old) k = Some (off, cnt)" "xs = slice_of (cm_values old) (off, cnt)"
    by (auto simp: cm_map_def)
  then show "xs \<noteq> []" using slices_okD [OF cm_invD(2) [OF assms] F(1)] by (auto simp: slice_of_def)
qed

lemma cm_fresh_spec:
  assumes "2 ^ k \<le> vector_max_size"
  shows "cm_inv (cm_fresh (2 ^ k))" "cm_map (cm_fresh (2 ^ k)) = Map.empty" "cm_keys (cm_fresh (2 ^ k)) \<noteq> []"
proof -
  have tab: "cm_tab (cm_fresh (2 ^ k)) = fresh_table default_EntryKey (0, 0) (2 ^ k)"
    by (simp add: cm_tab_def cm_fresh_def fresh_table_def zip_replicate)
  have f: "fm_inv EntryKeyHash (cm_tab (cm_fresh (2 ^ k)))" "fm_map (cm_tab (cm_fresh (2 ^ k))) = Map.empty"
    unfolding tab by (rule fresh_table_inv [OF assms])+
  show "cm_map (cm_fresh (2 ^ k)) = Map.empty" by (simp add: cm_map_def f(2) fun_eq_iff)
  show "cm_inv (cm_fresh (2 ^ k))"
    using f(1,2) unfolding cm_inv_def slices_ok_def by (simp add: cm_fresh_def)
  show "cm_keys (cm_fresh (2 ^ k)) \<noteq> []" by (simp add: cm_fresh_def)
qed

text \<open>The same children in a table that has buckets.\<close>

definition same_children :: "FlatChildrenMap \<Rightarrow> FlatChildrenMap \<Rightarrow> bool" where
  "same_children m m' \<longleftrightarrow> cm_inv m' \<and> cm_map m' = cm_map m \<and> cm_keys m' \<noteq> []"

lemma cm_place_all_fresh:
  assumes inv: "cm_inv old" and small: "2 ^ k \<le> vector_max_size"
  shows "case cm_place_all old [0..<length (cm_keys old)] (cm_fresh (2 ^ k)) of
      Inl e \<Rightarrow> False | Inr (placed, m') \<Rightarrow> placed \<longrightarrow> same_children old m'"
proof -
  note f = cm_fresh_spec [OF small] and es = centries_all [OF inv]
  have rev: "map_of (rev (centries old [0..<length (cm_keys old)])) = cm_map old"
    using es(1) map_of_rev_distinct [OF es(2)] by simp
  have "length (cm_keys m') = length (cm_keys (cm_fresh (2 ^ k))) \<Longrightarrow> cm_keys m' \<noteq> []" for m'
    by (auto simp: cm_fresh_def)
  then show ?thesis
    using cm_place_all_spec [OF f(1,3) es(2)] es(3) rev f(2)
    by (fastforce simp: same_children_def split: sum.splits)
qed

lemma cm_grow_spec:
  assumes "cm_inv old" "n = 2 ^ k"
  shows "case cm_grow old n of Inl e \<Rightarrow> e = length_error | Inr m' \<Rightarrow> same_children old m'"
  using assms
proof (induction old n arbitrary: k rule: cm_grow.induct)
  case (1 old n)
  show ?case
  proof (cases "n > vector_max_size")
    case True
    then show ?thesis by (simp add: cm_grow.simps)
  next
    case False
    then have small: "2 ^ k \<le> vector_max_size" using 1 by simp
    obtain placed m' where p: "cm_place_all old [0..<length (cm_keys old)] (cm_fresh n) = Inr (placed, m')"
      and ok: "placed \<Longrightarrow> same_children old m'"
      using cm_place_all_fresh [OF "1.prems"(1) small] "1.prems"(2)
      by (auto split: sum.splits)
    show ?thesis
    proof (cases "placed \<or> n > size_max div 2")
      case True
      then show ?thesis using p ok False by (subst cm_grow.simps) auto
    next
      case nb: False
      have "cm_grow old n = cm_grow old (n * 2)" using p False nb by (subst cm_grow.simps) simp
      moreover have "case cm_grow old (n * 2) of Inl e \<Rightarrow> e = length_error | Inr m' \<Rightarrow> same_children old m'"
        using p False nb "1.prems" by (intro "1.IH" [of "(placed, m')" placed m' "Suc k"]) auto
      ultimately show ?thesis by simp
    qed
  qed
qed

lemma cm_double:
  assumes "cm_inv m" "cm_keys m \<noteq> []"
  shows "case cm_grow m (length (cm_keys m) * 2) of Inl e \<Rightarrow> e = length_error | Inr m' \<Rightarrow> same_children m m'"
proof -
  obtain k where "length (cm_keys m) = 2 ^ k" using fm_inv_pow2 [OF cm_invD(1) [OF assms(1)]] assms(2) by auto
  then show ?thesis by (intro cm_grow_spec [OF assms(1), of _ "Suc k"]) simp
qed

lemma cm_ensure_spec:
  assumes "cm_inv m"
  shows "case cm_ensure m of Inl e \<Rightarrow> e = length_error | Inr m' \<Rightarrow> same_children m m'"
proof (cases "cm_keys m = []")
  case True
  then show ?thesis using cm_grow_spec [OF assms, of 8 3] by (simp add: cm_ensure_def)
next
  case False
  then show ?thesis
    using cm_double [OF assms False] assms by (simp add: cm_ensure_def same_children_def)
qed

lemma cm_insert_slot_spec:
  assumes "cm_inv m"
  shows "case cm_insert_slot n m key of
      Inl e \<Rightarrow> e \<noteq> out_of_range
    | Inr (i, m') \<Rightarrow> same_children m m' \<and> cm_slot m' key = \<lparr>pr_index = i, pr_exhausted = False\<rparr>"
  using assms
proof (induction n arbitrary: m)
  case 0
  have "p = \<lparr>pr_index = pr_index p, pr_exhausted = False\<rparr>" if "\<not> pr_exhausted p" for p :: ProbeResult
    using that by (cases p) simp
  then show ?case
    using cm_ensure_spec [OF 0]
    by (subst cm_insert_slot.simps) (auto simp: Let_def bind_res_def split: sum.splits)
next
  case (Suc n)
  have pr: "p = \<lparr>pr_index = pr_index p, pr_exhausted = False\<rparr>" if "\<not> pr_exhausted p" for p :: ProbeResult
    using that by (cases p) simp
  show ?case
  proof (cases "cm_ensure m")
    case (Inl e)
    then show ?thesis using cm_ensure_spec [OF Suc.prems] by (subst cm_insert_slot.simps) simp
  next
    case e: (Inr m1)
    then have s1: "same_children m m1" using cm_ensure_spec [OF Suc.prems] by simp
    then have m1: "cm_inv m1" "cm_keys m1 \<noteq> []" by (simp_all add: same_children_def)
    show ?thesis
    proof (cases "\<not> pr_exhausted (cm_slot m1 key)")
      case True
      then show ?thesis using e s1 pr by (subst cm_insert_slot.simps) (simp add: Let_def)
    next
      case False
      show ?thesis
      proof (cases "cm_grow m1 (length (cm_keys m1) * 2)")
        case (Inl err)
        then show ?thesis
          using False e cm_double [OF m1] by (subst cm_insert_slot.simps) (simp add: Let_def)
      next
        case g: (Inr m2)
        then have s2: "same_children m1 m2" using cm_double [OF m1] by simp
        then have "cm_inv m2" by (simp add: same_children_def)
        from Suc.IH [OF this] show ?thesis
          using False e g s1 s2
          by (subst cm_insert_slot.simps) (auto simp: Let_def same_children_def split: sum.splits)
      qed
    qed
  qed
qed

lemma cm_insert_spec:
  assumes inv: "cm_inv m"
  shows "case cm_insert m key c of
      Inl e \<Rightarrow> e \<noteq> out_of_range
    | Inr m' \<Rightarrow> cm_inv m' \<and> cm_map m' = (cm_map m)(key \<mapsto> cm_children m key @ [c])"
proof (cases "cm_insert_slot 8 m key")
  case (Inl e)
  then show ?thesis using cm_insert_slot_spec [OF inv, where n = 8 and key = key] by (simp add: cm_insert_def)
next
  case (Inr r)
  then obtain i m1 where r: "cm_insert_slot 8 m key = Inr (i, m1)" by (cases r) auto
  then have s: "same_children m m1" and slot: "cm_slot m1 key = \<lparr>pr_index = i, pr_exhausted = False\<rparr>"
    using cm_insert_slot_spec [OF inv, where n = 8 and key = key] by simp_all
  then have inv1: "cm_inv m1" and eq: "cm_map m1 = cm_map m" and ne: "cm_keys m1 \<noteq> []"
    by (simp_all add: same_children_def)
  have ch: "cm_children m1 key = cm_children m key" by (simp add: cm_children_def eq)
  from cm_invD(1) [OF inv1] show ?thesis
  proof (cases rule: fm_slot_cases [of EntryKeyHash "cm_tab m1" key])
    case (hit j)
    then have j: "j = i" using slot by (simp add: cm_slot_tab)
    have live: "i \<in> live (cm_tab m1)" "cm_keys m1 ! i = key" using hit j by simp_all
    have st: "i < length (cm_keys m1) \<and> cm_states m1 ! i = 1" using live by (simp add: live_def)
    show ?thesis
      using cm_append_spec [OF inv1 live, of c] r ch eq by (simp add: cm_insert_def st)
  next
    case (free j)
    then have j: "i < length (cm_keys m1)" "cm_states m1 ! i = 0" using slot by (simp_all add: cm_slot_tab)
    have "cm_children m key = []" using free(4) ch by (simp add: cm_children_def cm_map_def)
    then show ?thesis
      using cm_put_spec [OF inv1 _ slot j, of "[c]"] r eq j by (simp add: cm_insert_def)
  qed (use slot ne in \<open>simp_all add: cm_slot_tab\<close>)
qed

section \<open>Removing and remapping children\<close>

definition swap_remove :: "'a \<Rightarrow> 'a list \<Rightarrow> 'a list" where
  "swap_remove x xs =
     (case find (\<lambda>i. xs ! i = x) [0..<length xs] of None \<Rightarrow> xs | Some i \<Rightarrow> butlast (xs[i := last xs]))"

lemma first_child_find: "first_child vs off c is = find (\<lambda>i. vs ! (off + i) = c) is"
  by (induction "is") auto

lemma find_upt_Some:
  "find P [0..<n] = Some i \<Longrightarrow> i < n \<and> P i"
  by (auto simp: find_Some_iff)

lemma mset_swap_remove: "mset (swap_remove x xs) = mset xs - {#x#}"
proof (cases "find (\<lambda>i. xs ! i = x) [0..<length xs]")
  case None
  then have "x \<notin> set xs" by (auto simp: find_None_iff in_set_conv_nth)
  then show ?thesis using None by (simp add: swap_remove_def diff_single_trivial)
next
  case (Some i)
  then have i: "i < length xs" "xs ! i = x" using find_upt_Some by blast+
  then have ne: "xs \<noteq> []" by auto
  have app: "mset xs = add_mset (last xs) (mset (butlast xs))"
    using ne by (metis append_butlast_last_id mset.simps(1,2) mset_append union_mset_add_mset_right add.right_neutral)
  show ?thesis
  proof (cases "i = length xs - 1")
    case True
    then have l: "last xs = xs ! i" using ne by (simp add: last_conv_nth)
    then have "xs[i := last xs] = xs" by (simp only: list_update_id)
    then show ?thesis using Some app l i(2) by (simp add: swap_remove_def)
  next
    case False
    then have il: "i < length (butlast xs)" using i by simp
    have nth: "butlast xs ! i = x" using il i by (simp add: nth_butlast)
    have "butlast (xs[i := last xs]) = (butlast xs)[i := last xs]" using il by (simp add: butlast_list_update)
    then have "mset (swap_remove x xs) = add_mset (last xs) (mset (butlast xs) - {#x#})"
      using Some il nth by (simp add: swap_remove_def mset_update)
    also have "\<dots> = mset xs - {#x#}"
      using app il nth by (metis diff_union_swap2 nth_mem set_mset_mset add_mset_remove_trivial_eq diff_add_mset_swap)
    finally show ?thesis .
  qed
qed

lemma slice_update_outside:
  "p < off \<or> off + cnt \<le> p \<Longrightarrow> slice_of (vs[p := x]) (off, cnt) = slice_of vs (off, cnt)"
  by (auto simp: slice_of_def intro!: nth_equalityI)

lemma slice_update_inside:
  assumes "off + cnt \<le> length vs" "i < cnt"
  shows "slice_of (vs[off + i := x]) (off, cnt - 1) = butlast ((slice_of vs (off, cnt))[i := x])"
  using assms by (intro nth_equalityI) (auto simp: slice_of_def nth_butlast nth_list_update)

lemma slices_ok_shrink:
  assumes ok: "slices_ok F vs" and k: "F key = Some (off, cnt)" and len: "length vs' = length vs"
  shows "slices_ok (F(key := if cnt = 1 then None else Some (off, cnt - 1))) vs'"
proof -
  have "0 < cnt" using slices_okD [OF ok k] by simp
  have sub: "\<exists>c. F k' = Some (o', c) \<and> c' \<le> c \<and> 0 < c'"
    if "(F(key := if cnt = 1 then None else Some (off, cnt - 1))) k' = Some (o', c')" for k' o' c'
    using that k slices_okD [OF ok, of k' o' c'] \<open>0 < cnt\<close> by (auto split: if_splits)
  show ?thesis
    unfolding slices_ok_def
  proof (intro conjI allI impI)
    fix k' o' c'
    assume "(F(key := if cnt = 1 then None else Some (off, cnt - 1))) k' = Some (o', c')"
    from sub [OF this] show "0 < c'" "o' + c' \<le> length vs'" using slices_okD [OF ok, of k' o'] len by fastforce+
  next
    fix k1 k2 o1 c1 o2 c2
    assume "k1 \<noteq> k2"
      and 1: "(F(key := if cnt = 1 then None else Some (off, cnt - 1))) k1 = Some (o1, c1)"
      and 2: "(F(key := if cnt = 1 then None else Some (off, cnt - 1))) k2 = Some (o2, c2)"
    then show "o1 + c1 \<le> o2 \<or> o2 + c2 \<le> o1"
      using sub [OF 1] sub [OF 2] slices_ok_disj [OF ok, of k1 k2 o1 _ o2] by fastforce
  qed
qed

lemma cm_map_update_inside:
  assumes ok: "slices_ok F vs" and k: "F key = Some (off, cnt)" and i: "i < cnt" and k': "k' \<noteq> key"
  shows "map_option (slice_of (vs[off + i := x])) (F k') = map_option (slice_of vs) (F k')"
proof (cases "F k'")
  case (Some p)
  obtain o' c' where p: "p = (o', c')" by (cases p)
  then show ?thesis
    using slices_ok_disj [OF ok k' _ k, of o' c'] Some i by (auto intro: slice_update_outside)
qed simp

text \<open>A directory whose last child is removed becomes unknown.\<close>

definition drop_child :: "u32 \<Rightarrow> u32 list \<Rightarrow> u32 list option" where
  "drop_child c xs = (let xs' = swap_remove c xs in if xs' = [] then None else Some xs')"

lemma find_slice:
  assumes "off + cnt \<le> length vs"
  shows "find (\<lambda>i. vs ! (off + i) = c) [0..<cnt]
    = find (\<lambda>i. slice_of vs (off, cnt) ! i = c) [0..<length (slice_of vs (off, cnt))]"
proof -
  have "length (slice_of vs (off, cnt)) = cnt" using assms by (simp add: slice_of_def)
  then show ?thesis using assms by (auto simp: slice_of_def intro!: find_cong)
qed

lemma cm_remove_spec:
  assumes inv: "cm_inv m"
  shows "cm_inv (cm_remove m key c) \<and> cm_map (cm_remove m key c)
    = (cm_map m)(key := case cm_map m key of None \<Rightarrow> None | Some xs \<Rightarrow> drop_child c xs)"
  using cm_invD(1) [OF inv]
proof (cases rule: fm_slot_cases [of EntryKeyHash "cm_tab m" key])
  case (hit idx)
  let ?off = "cm_offsets m ! idx" and ?cnt = "cm_counts m ! idx" and ?vs = "cm_values m"
  let ?F = "fm_map (cm_tab m)" and ?xs = "slice_of (cm_values m) (cm_offsets m ! idx, cm_counts m ! idx)"
  have key: "cm_keys m ! idx = key" using hit(3) by simp
  have st: "idx < length (cm_keys m)" "cm_states m ! idx = 1" using hit(2) by (simp_all add: live_def)
  have slot: "cm_slot m key = \<lparr>pr_index = idx, pr_exhausted = False\<rparr>" using hit(1) by (simp add: cm_slot_tab)
  have F: "?F key = Some (?off, ?cnt)" using hit(4) cm_live_value [OF inv hit(2)] by simp
  note ok = cm_invD(2) [OF inv]
  have range: "0 < ?cnt" "?off + ?cnt \<le> length ?vs" using slices_okD [OF ok F] by auto
  have km: "cm_map m key = Some ?xs" by (simp add: cm_map_def F)
  have len: "length ?xs = ?cnt" using range by (simp add: slice_of_def)
  show ?thesis
  proof (cases "find (\<lambda>i. ?xs ! i = c) [0..<length ?xs]")
    case None
    then have "swap_remove c ?xs = ?xs" by (simp add: swap_remove_def)
    moreover have "?xs \<noteq> []" using len range by auto
    ultimately have "drop_child c ?xs = Some ?xs" by (simp add: drop_child_def)
    moreover have "cm_remove m key c = m"
      using None st slot find_slice [OF range(2), of c] by (simp add: cm_remove_def Let_def first_child_find)
    ultimately show ?thesis using inv km by (simp add: fun_upd_idem)
  next
    case (Some i)
    from find_upt_Some [OF this] have i: "i < ?cnt" "?xs ! i = c" using len by simp_all
    define vs' where "vs' = ?vs[?off + i := ?vs ! (?off + ?cnt - 1)]"
    define m1 where
      "m1 = m\<lparr>cm_values := vs', cm_offsets := (cm_offsets m)[idx := ?off], cm_counts := (cm_counts m)[idx := ?cnt - 1]\<rparr>"
    define m2 where "m2 = (if ?cnt - 1 = 0
      then m1\<lparr>cm_states := (cm_states m1)[idx := 2], cm_count := cm_count m1 - 1\<rparr> else m1)"
    have e: "cm_remove m key c = m2"
      using Some st slot find_slice [OF range(2), of c]
      by (simp add: cm_remove_def Let_def first_child_find m2_def m1_def vs'_def)
    note u = cm_tab_live_update [OF inv hit(2) key, where vs = vs' and off = ?off and cnt = "?cnt - 1", folded m1_def]
    have lv: "idx \<in> live (cm_tab m1)" using hit(2) by (simp add: live_def m1_def)
    have er: "cm_tab m2 = (if ?cnt = 1 then fm_erase EntryKeyHash (cm_tab m1) key else cm_tab m1)"
    proof -
      have "fm_slot EntryKeyHash (cm_tab m1) key = \<lparr>pr_index = idx, pr_exhausted = False\<rparr>"
        using hit(1) by (simp add: fm_slot_def m1_def)
      then show ?thesis
        using lv range(1) by (auto simp: m2_def fm_erase_def Let_def live_def cm_tab_def)
    qed
    have F2: "fm_inv EntryKeyHash (cm_tab m2)"
      "fm_map (cm_tab m2) = ?F(key := if ?cnt = 1 then None else Some (?off, ?cnt - 1))"
      using u fm_erase_inv [OF u(1), of key] by (auto simp: er)
    have v2: "cm_values m2 = vs'" "length vs' = length ?vs" by (simp_all add: m2_def m1_def vs'_def)
    have l2: "length (cm_offsets m2) = length (cm_keys m2)" "length (cm_counts m2) = length (cm_keys m2)"
      using cm_invD(3,4) [OF inv] by (simp_all add: m2_def m1_def)
    have "cm_inv m2"
      using F2 slices_ok_shrink [OF ok F v2(2)] l2 by (simp add: cm_inv_def v2(1))
    moreover have "cm_map m2 = (cm_map m)(key := drop_child c ?xs)"
    proof
      fix k
      have lst: "last ?xs = ?vs ! (?off + ?cnt - 1)"
        using range len by (simp add: last_conv_nth slice_of_def flip: length_0_conv)
      have sr: "swap_remove c ?xs = slice_of vs' (?off, ?cnt - 1)"
        using Some slice_update_inside [OF range(2) i(1)] by (simp add: swap_remove_def vs'_def lst)
      have "slice_of vs' (?off, ?cnt - 1) = [] \<longleftrightarrow> ?cnt = 1"
        using range v2(2) by (auto simp: slice_of_def)
      then show "cm_map m2 k = ((cm_map m)(key := drop_child c ?xs)) k"
        using cm_map_update_inside [OF ok F i(1), of k]
        by (auto simp: cm_map_def F2(2) v2(1) drop_child_def Let_def sr vs'_def)
    qed
    ultimately show ?thesis using km by (simp add: e)
  qed
qed (use inv in \<open>auto simp: cm_remove_def cm_slot_tab Let_def cm_map_def fun_upd_idem\<close>)

lemma remap_slice_nth:
  assumes "off + cnt \<le> length vs"
  shows "length (remap_slice f off cnt vs) = length vs"
    "p < length vs \<Longrightarrow> remap_slice f off cnt vs ! p = (if off \<le> p \<and> p < off + cnt then f (vs ! p) else vs ! p)"
  using assms
  by (induction cnt) (auto simp: remap_slice_def nth_list_update)

text \<open>The outer loop over distinct buckets with disjoint slices maps every live element once.\<close>

lemma remap_fold_nth:
  fixes f :: "u32 \<Rightarrow> u32" and L :: "nat \<Rightarrow> bool" and off cnt :: "nat \<Rightarrow> nat"
  assumes "distinct is"
    and "\<And>i. i \<in> set is \<Longrightarrow> L i \<Longrightarrow> off i + cnt i \<le> length vs"
    and "\<And>i j. i \<in> set is \<Longrightarrow> j \<in> set is \<Longrightarrow> i \<noteq> j \<Longrightarrow> L i \<Longrightarrow> L j \<Longrightarrow> off i + cnt i \<le> off j \<or> off j + cnt j \<le> off i"
  defines "g \<equiv> \<lambda>vs i. if \<not> L i then vs else remap_slice f (off i) (cnt i) vs"
  shows "length (foldl g vs is) = length vs \<and>
    (\<forall>p < length vs. foldl g vs is ! p =
      (if \<exists>i\<in>set is. L i \<and> off i \<le> p \<and> p < off i + cnt i then f (vs ! p) else vs ! p))"
  using assms(1-3)
proof (induction "is" arbitrary: vs)
  case (Cons i "is")
  let ?vs = "g vs i"
  have len: "length ?vs = length vs"
    using Cons.prems(2) [of i] remap_slice_nth(1) by (simp add: g_def)
  have IH: "length (foldl g ?vs is) = length ?vs \<and>
    (\<forall>p < length ?vs. foldl g ?vs is ! p =
      (if \<exists>i\<in>set is. L i \<and> off i \<le> p \<and> p < off i + cnt i then f (?vs ! p) else ?vs ! p))"
  proof (rule Cons.IH)
    show "distinct is" using Cons.prems(1) by simp
    show "off j + cnt j \<le> length ?vs" if "j \<in> set is" "L j" for j
      using Cons.prems(2) [of j] that len by simp
    show "off j + cnt j \<le> off k \<or> off k + cnt k \<le> off j"
      if "j \<in> set is" "k \<in> set is" "j \<noteq> k" "L j" "L k" for j k
      using Cons.prems(3) [of j k] that by simp
  qed
  have "foldl g vs (i # is) ! p =
      (if \<exists>j\<in>set (i # is). L j \<and> off j \<le> p \<and> p < off j + cnt j then f (vs ! p) else vs ! p)"
    if p: "p < length vs" for p
  proof (cases "L i \<and> off i \<le> p \<and> p < off i + cnt i")
    case True
    have "\<not> (\<exists>j\<in>set is. L j \<and> off j \<le> p \<and> p < off j + cnt j)"
    proof
      assume "\<exists>j\<in>set is. L j \<and> off j \<le> p \<and> p < off j + cnt j"
      then obtain j where j: "j \<in> set is" "L j" "off j \<le> p" "p < off j + cnt j" by blast
      then have "j \<noteq> i" using Cons.prems(1) by auto
      then show False using Cons.prems(3) [of i j] j True by fastforce
    qed
    moreover have "?vs ! p = f (vs ! p)"
      using True p Cons.prems(2) [of i] remap_slice_nth(2) [of "off i" "cnt i" vs p f] by (simp add: g_def)
    ultimately show ?thesis using IH len p True by auto
  next
    case False
    have "?vs ! p = vs ! p"
      using False p Cons.prems(2) [of i] remap_slice_nth(2) [of "off i" "cnt i" vs p f] by (auto simp: g_def)
    then show ?thesis using IH len p False by auto
  qed
  then show ?case using IH len by simp
qed simp

lemma cm_live_F:
  assumes "cm_inv m" "i \<in> live (cm_tab m)"
  shows "fm_map (cm_tab m) (cm_keys m ! i) = Some (cm_offsets m ! i, cm_counts m ! i)"
  using fm_map_at [OF cm_invD(1) [OF assms(1)] assms(2)] cm_live_value [OF assms] by simp

lemma cm_RemapValues_spec:
  assumes inv: "cm_inv m"
  shows "cm_inv (cm_RemapValues f m)" "cm_map (cm_RemapValues f m) = map_option (map f) \<circ> cm_map m"
proof -
  let ?vs = "cm_values m" and ?L = "\<lambda>i. cm_states m ! i = 1" and ?off = "(!) (cm_offsets m)" and ?cnt = "(!) (cm_counts m)"
  let ?g = "\<lambda>vs i. if \<not> ?L i then vs else remap_slice f (?off i) (?cnt i) vs"
  define vs' where "vs' = foldl ?g ?vs [0..<length (cm_states m)]"
  note tab = cm_invD(1) [OF inv] and ok = cm_invD(2) [OF inv]
  have lv: "i \<in> live (cm_tab m) \<longleftrightarrow> i \<in> set [0..<length (cm_states m)] \<and> ?L i" for i
    using fm_invD(2) [OF tab] by (auto simp: live_def)
  have len: "length vs' = length ?vs" and nth: "\<And>p. p < length ?vs \<Longrightarrow> vs' ! p =
      (if \<exists>i\<in>live (cm_tab m). ?off i \<le> p \<and> p < ?off i + ?cnt i then f (?vs ! p) else ?vs ! p)"
  proof -
    have "length vs' = length ?vs \<and> (\<forall>p < length ?vs. vs' ! p =
      (if \<exists>i\<in>set [0..<length (cm_states m)]. ?L i \<and> ?off i \<le> p \<and> p < ?off i + ?cnt i then f (?vs ! p) else ?vs ! p))"
      unfolding vs'_def
    proof (rule remap_fold_nth)
      show "?off i + ?cnt i \<le> length ?vs" if "i \<in> set [0..<length (cm_states m)]" "?L i" for i
        using slices_okD [OF ok cm_live_F [OF inv]] lv that by auto
      show "?off i + ?cnt i \<le> ?off j \<or> ?off j + ?cnt j \<le> ?off i"
        if "i \<in> set [0..<length (cm_states m)]" "j \<in> set [0..<length (cm_states m)]" "i \<noteq> j" "?L i" "?L j" for i j
      proof -
        have l: "i \<in> live (cm_tab m)" "j \<in> live (cm_tab m)" using lv that by auto
        then have "cm_keys m ! i \<noteq> cm_keys m ! j" using live_unique [OF tab l] that(3) by auto
        from slices_ok_disj [OF ok this cm_live_F [OF inv l(1)] cm_live_F [OF inv l(2)]] show ?thesis .
      qed
    qed simp
    then show "length vs' = length ?vs" "\<And>p. p < length ?vs \<Longrightarrow> vs' ! p =
      (if \<exists>i\<in>live (cm_tab m). ?off i \<le> p \<and> p < ?off i + ?cnt i then f (?vs ! p) else ?vs ! p)"
      using lv by auto
  qed
  have e: "cm_RemapValues f m = m\<lparr>cm_values := vs'\<rparr>" by (simp add: cm_RemapValues_def vs'_def)
  have tab': "cm_tab (m\<lparr>cm_values := vs'\<rparr>) = cm_tab m" by (simp add: cm_tab_def)
  show "cm_inv (cm_RemapValues f m)"
    using inv by (simp add: e cm_inv_def tab' slices_ok_def len)
  have "slice_of vs' (?off i, ?cnt i) = map f (slice_of ?vs (?off i, ?cnt i))" if "i \<in> live (cm_tab m)" for i
    using slices_okD [OF ok cm_live_F [OF inv that]] that
    by (intro nth_equalityI) (auto simp: slice_of_def len nth)
  moreover have "\<exists>i\<in>live (cm_tab m). p = (?off i, ?cnt i)" if "fm_map (cm_tab m) k = Some p" for k p
    using that cm_live_value [OF inv] by (auto simp: fm_map_Some_iff [OF tab])
  ultimately have "map_option (slice_of vs') (fm_map (cm_tab m) k)
      = map_option (map f) (map_option (slice_of ?vs) (fm_map (cm_tab m) k))" for k
    by (cases "fm_map (cm_tab m) k") fastforce+
  then show "cm_map (cm_RemapValues f m) = map_option (map f) \<circ> cm_map m"
    by (simp add: e cm_map_def tab' fun_eq_iff)
qed

section \<open>Properties\<close>

lemma cm_empty_inv [simp]: "cm_inv cm_empty" "cm_map cm_empty = Map.empty"
proof -
  have "cm_tab cm_empty = fm_empty" by (simp add: cm_tab_def cm_empty_def fm_empty_def)
  then show "cm_inv cm_empty" "cm_map cm_empty = Map.empty"
    by (simp_all add: cm_inv_def cm_map_def slices_ok_def fun_eq_iff) (simp_all add: cm_empty_def)
qed

definition sample_cm :: FlatChildrenMap where
  "sample_cm = \<lparr>cm_keys = [default_EntryKey], cm_values = [5, 9, 7], cm_states = [1], cm_offsets = [0],
     cm_counts = [3], cm_count = 1\<rparr>"

lemma sample_cm_slot:
  "fm_slot EntryKeyHash (cm_tab sample_cm) default_EntryKey = \<lparr>pr_index = 0, pr_exhausted = False\<rparr>"
  by (simp add: fm_slot_def sample_cm_def find_slot_def kMaxProbeDistance_def eval_nat_numeral)

lemma sample_cm_inv: "cm_inv sample_cm"
proof -
  have "live (cm_tab sample_cm) = {0}" by (auto simp: live_def sample_cm_def)
  then have tab: "fm_inv EntryKeyHash (cm_tab sample_cm)"
    using sample_cm_slot
    by (auto simp: fm_inv_def table_inv_def pow2_size_def fm_slot_def vector_max_size_def sample_cm_def intro: exI [of _ 0])
  have "fm_map (cm_tab sample_cm) = [default_EntryKey \<mapsto> (0, 3)]"
    by (simp add: fm_map_def fm_entries_def sample_cm_def)
  then show ?thesis using tab by (simp add: cm_inv_def slices_ok_def) (simp add: sample_cm_def)
qed

lemma sample_cm_find: "cm_find sample_cm default_EntryKey = [5, 9, 7]"
  using sample_cm_slot by (simp add: cm_find_def cm_slot_tab) (simp add: sample_cm_def)

text \<open>
  C12. Linking and unlinking children touches one directory only. On a table that satisfies the
  invariant, \<open>insert\<close> either throws (never reading or writing past an array) or returns a table
  that satisfies it, where \<open>find\<close> answers the old children of that directory followed by the new
  one and the unchanged children of every other directory; \<open>remove\<close> takes exactly one occurrence
  of the child out of that directory's list, as a multiset, and leaves every other list as it is,
  order included.
\<close>

theorem FlatChildrenMap_links:
  assumes "cm_inv m"
  shows "(case cm_insert m key c of
      Inl e \<Rightarrow> e \<noteq> out_of_range
    | Inr m' \<Rightarrow> cm_inv m' \<and> cm_find m' key = cm_find m key @ [c] \<and> (\<forall>k. k \<noteq> key \<longrightarrow> cm_find m' k = cm_find m k))
    \<and> cm_inv (cm_remove m key c)
    \<and> mset (cm_find (cm_remove m key c) key) = mset (cm_find m key) - {#c#}
    \<and> (\<forall>k. k \<noteq> key \<longrightarrow> cm_find (cm_remove m key c) k = cm_find m k)"
proof -
  have ins: "case cm_insert m key c of
      Inl e \<Rightarrow> e \<noteq> out_of_range
    | Inr m' \<Rightarrow> cm_inv m' \<and> cm_find m' key = cm_find m key @ [c] \<and> (\<forall>k. k \<noteq> key \<longrightarrow> cm_find m' k = cm_find m k)"
    using cm_insert_spec [OF assms, of key c] assms
    by (auto simp: cm_find_eq cm_children_def split: sum.splits)
  note rm = cm_remove_spec [OF assms, of key c]
  have "mset (cm_children (cm_remove m key c) key) = mset (cm_children m key) - {#c#}"
    using rm mset_swap_remove [of c "cm_children m key"]
    by (auto simp: cm_children_def drop_child_def Let_def split: option.splits if_splits)
  then show ?thesis
    using ins rm assms by (auto simp: cm_find_eq cm_children_def)
qed

theorem FlatChildrenMap_links_witness:
  "cm_inv sample_cm
    \<and> mset (cm_find (cm_remove sample_cm default_EntryKey 5) default_EntryKey) = {#9, 7#}
    \<and> cm_insert sample_cm default_EntryKey 5 \<noteq> Inl out_of_range"
  using FlatChildrenMap_links [OF sample_cm_inv, of default_EntryKey 5] sample_cm_inv
  by (auto simp: sample_cm_find)

text \<open>
  Remapping child indices applies the function to every child of every directory exactly once:
  on a table that satisfies the invariant, after \<open>RemapValues\<close> the table satisfies it and \<open>find\<close>
  answers the mapped list for every directory.
\<close>

theorem FlatChildrenMap_remap:
  assumes "cm_inv m"
  shows "cm_inv (cm_RemapValues f m) \<and> (\<forall>k. cm_find (cm_RemapValues f m) k = map f (cm_find m k))"
  using cm_RemapValues_spec [OF assms, of f] assms
  by (auto simp: cm_find_eq cm_children_def split: option.splits)

theorem FlatChildrenMap_remap_witness:
  "cm_find (cm_RemapValues (\<lambda>c. c + 1) sample_cm) default_EntryKey = [6, 10, 8]"
  using FlatChildrenMap_remap [OF sample_cm_inv, of "\<lambda>c. c + 1"] by (simp add: sample_cm_find)

end
