(* ===== verification/NamePool.thy ===== *)
theory NamePool
  imports Prelude
begin

text \<open>
  The interned string pool (\<open>indexstore/src/NamePool.cpp\<close>): one arena of UTF-16 units, a table of
  offset and length pairs indexed by name id, and hash buckets of candidate ids. Offsets, lengths
  and ids are 32 bit and truncate, as in the source.
\<close>

section \<open>The pool\<close>

record Slot =
  sl_offset :: u32
  sl_length :: u32

record NamePool =
  np_arena :: u16string
  np_table :: "Slot list"
  np_hashBuckets :: "u64 \<rightharpoonup> u32 list"

definition np_empty :: NamePool where
  "np_empty = \<lparr>np_arena = [], np_table = [], np_hashBuckets = Map.empty\<rparr>"

definition HashName :: "u16string \<Rightarrow> u64" where
  "HashName name = foldl (\<lambda>hash ch. (hash XOR ucast ch) * 1099511628211) 1469598103934665603 name"

definition slot_view :: "u16string \<Rightarrow> Slot \<Rightarrow> u16string" where
  "slot_view arena slot = take (unat (sl_length slot)) (drop (unat (sl_offset slot)) arena)"

text \<open>The loop over the bucket's candidates.\<close>

fun find_candidate :: "NamePool \<Rightarrow> u16string \<Rightarrow> u32 list \<Rightarrow> u32 option" where
  "find_candidate pool name [] = None"
| "find_candidate pool name (candidateId # rest) =
     (let slot = np_table pool ! unat candidateId in
      if unat (sl_length slot) = length name \<and> slot_view (np_arena pool) slot = name
      then Some candidateId else find_candidate pool name rest)"

definition Intern :: "NamePool \<Rightarrow> u16string \<Rightarrow> u32 \<times> NamePool" where
  "Intern pool name =
     (let hash = HashName name;
          bucket = (case np_hashBuckets pool hash of None \<Rightarrow> [] | Some b \<Rightarrow> b)
      in case find_candidate pool name bucket of
           Some candidateId \<Rightarrow> (candidateId, pool\<lparr>np_hashBuckets := (np_hashBuckets pool)(hash \<mapsto> bucket)\<rparr>)
         | None \<Rightarrow>
             let newId = of_nat (length (np_table pool));
                 slot = \<lparr>sl_offset = of_nat (length (np_arena pool)), sl_length = of_nat (length name)\<rparr>
             in (newId, \<lparr>np_arena = np_arena pool @ name, np_table = np_table pool @ [slot],
                         np_hashBuckets = (np_hashBuckets pool)(hash \<mapsto> bucket @ [newId])\<rparr>))"

definition Get :: "NamePool \<Rightarrow> u32 \<Rightarrow> u16string" where
  "Get pool i =
     (if unat i \<ge> length (np_table pool) then []
      else slot_view (np_arena pool) (np_table pool ! unat i))"

definition UniqueNameCount :: "NamePool \<Rightarrow> nat" where
  "UniqueNameCount pool = length (np_table pool)"

section \<open>The interface of an interning pool\<close>

text \<open>
  \<open>room p ss\<close> says that interning the strings \<open>ss\<close> stays within the pool's index widths.
  \<open>intern_all\<close> is a client: it interns a list of strings, left to right.
\<close>

fun intern_all :: "('p \<Rightarrow> 's \<Rightarrow> 'i \<times> 'p) \<Rightarrow> 'p \<Rightarrow> 's list \<Rightarrow> 'i list \<times> 'p" where
  "intern_all intern p [] = ([], p)"
| "intern_all intern p (s # ss) =
     (case intern p s of (i, p') \<Rightarrow> case intern_all intern p' ss of (is, p'') \<Rightarrow> (i # is, p''))"

locale interner =
  fixes invar :: "'p \<Rightarrow> bool"
    and room :: "'p \<Rightarrow> 's list \<Rightarrow> bool"
    and intern :: "'p \<Rightarrow> 's \<Rightarrow> 'i \<times> 'p"
    and view :: "'p \<Rightarrow> 'i \<Rightarrow> 's"
    and known :: "'p \<Rightarrow> 'i set"
  assumes intern_inv: "invar p \<Longrightarrow> room p (s # ss) \<Longrightarrow> intern p s = (i, p') \<Longrightarrow> invar p' \<and> room p' ss"
    and intern_view: "invar p \<Longrightarrow> room p (s # ss) \<Longrightarrow> intern p s = (i, p') \<Longrightarrow> i \<in> known p' \<and> view p' i = s"
    and intern_stable: "invar p \<Longrightarrow> room p (s # ss) \<Longrightarrow> intern p s = (i, p') \<Longrightarrow> j \<in> known p \<Longrightarrow>
          j \<in> known p' \<and> view p' j = view p j"
    and view_inj: "invar p \<Longrightarrow> i \<in> known p \<Longrightarrow> j \<in> known p \<Longrightarrow> view p i = view p j \<Longrightarrow> i = j"
begin

lemma intern_all_spec:
  assumes "invar p" "room p ss" "intern_all intern p ss = (is, p')"
  shows "invar p' \<and> set is \<subseteq> known p' \<and> map (view p') is = ss
    \<and> (\<forall>j\<in>known p. j \<in> known p' \<and> view p' j = view p j)"
  using assms
proof (induction ss arbitrary: p "is")
  case (Cons s ss)
  obtain i p1 where i: "intern p s = (i, p1)" by fastforce
  obtain is1 where is1: "intern_all intern p1 ss = (is1, p')" "is = i # is1"
    using Cons.prems(3) i by (auto split: prod.splits)
  note inv1 = intern_inv [OF Cons.prems(1,2) i] and view1 = intern_view [OF Cons.prems(1,2) i]
    and stable1 = intern_stable [OF Cons.prems(1,2) i]
  have "invar p' \<and> set is1 \<subseteq> known p' \<and> map (view p') is1 = ss
      \<and> (\<forall>j\<in>known p1. j \<in> known p' \<and> view p' j = view p1 j)"
    using Cons.IH [OF _ _ is1(1)] inv1 by blast
  then show ?case using is1(2) view1 stable1 by auto
qed auto

lemma intern_all_dedup:
  assumes "invar p" "room p ss" "intern_all intern p ss = (is, p')" "a < length ss" "b < length ss"
  shows "is ! a = is ! b \<longleftrightarrow> ss ! a = ss ! b"
proof -
  from intern_all_spec [OF assms(1-3)]
  have inv: "invar p'" and known: "set is \<subseteq> known p'" and ss: "map (view p') is = ss" by auto
  have len: "length is = length ss" using ss by auto
  then have "is ! a \<in> known p'" "is ! b \<in> known p'" using known assms(4,5) by auto
  then show ?thesis
    using view_inj [OF inv] len assms(4,5) by (auto simp: ss [symmetric])
qed

end

section \<open>Invariant\<close>

definition pool_names :: "NamePool \<Rightarrow> u16string list" where
  "pool_names pool = map (slot_view (np_arena pool)) (np_table pool)"

definition np_bucket :: "NamePool \<Rightarrow> u64 \<Rightarrow> u32 list" where
  "np_bucket pool h = (case np_hashBuckets pool h of None \<Rightarrow> [] | Some b \<Rightarrow> b)"

definition np_inv :: "NamePool \<Rightarrow> bool" where
  "np_inv pool \<longleftrightarrow>
     (\<forall>slot\<in>set (np_table pool). unat (sl_offset slot) + unat (sl_length slot) \<le> length (np_arena pool)) \<and>
     length (np_table pool) \<le> 2 ^ 32 \<and>
     distinct (pool_names pool) \<and>
     (\<forall>h. \<forall>i\<in>set (np_bucket pool h). unat i < length (np_table pool)) \<and>
     (\<forall>i < length (np_table pool). of_nat i \<in> set (np_bucket pool (HashName (pool_names pool ! i))))"

definition np_room :: "NamePool \<Rightarrow> u16string list \<Rightarrow> bool" where
  "np_room pool names \<longleftrightarrow>
     length (np_arena pool) + sum_list (map length names) < 2 ^ 32 \<and>
     length (np_table pool) + length names \<le> 2 ^ 32"

definition np_known :: "NamePool \<Rightarrow> u32 set" where
  "np_known pool = {i. unat i < length (np_table pool)}"

lemma pool_names_nth [simp]:
  "i < length (np_table pool) \<Longrightarrow> pool_names pool ! i = slot_view (np_arena pool) (np_table pool ! i)"
  by (simp add: pool_names_def)

lemma length_pool_names [simp]: "length (pool_names pool) = length (np_table pool)"
  by (simp add: pool_names_def)

lemma Get_known: "i \<in> np_known pool \<Longrightarrow> Get pool i = pool_names pool ! unat i"
  by (simp add: Get_def np_known_def)

lemma find_candidate_Some:
  "find_candidate pool name cs = Some i \<Longrightarrow>
     i \<in> set cs \<and> slot_view (np_arena pool) (np_table pool ! unat i) = name"
  by (induction cs) (auto simp: Let_def split: if_splits)

lemma slot_view_length:
  "unat (sl_offset slot) + unat (sl_length slot) \<le> length arena \<Longrightarrow>
     length (slot_view arena slot) = unat (sl_length slot)"
  by (simp add: slot_view_def)

lemma find_candidate_None:
  assumes "find_candidate pool name cs = None" and "i \<in> set cs"
    and "unat (sl_offset (np_table pool ! unat i)) + unat (sl_length (np_table pool ! unat i)) \<le> length (np_arena pool)"
  shows "slot_view (np_arena pool) (np_table pool ! unat i) \<noteq> name"
  using assms by (induction cs) (auto simp: Let_def slot_view_length split: if_splits)

section \<open>Interning\<close>

lemma slot_view_append:
  "unat (sl_offset slot) + unat (sl_length slot) \<le> length arena \<Longrightarrow>
     slot_view (arena @ name) slot = slot_view arena slot"
  by (simp add: slot_view_def)

lemma unat_of_nat_u32: "n < 2 ^ 32 \<Longrightarrow> unat (of_nat n :: u32) = n"
  using unat_of_nat [where 'a = 32, of n] by simp

lemma np_inv_bucket:
  "np_inv pool \<Longrightarrow> i \<in> set (np_bucket pool h) \<Longrightarrow> unat i < length (np_table pool)"
  by (auto simp: np_inv_def)

lemma np_inv_slot:
  "np_inv pool \<Longrightarrow> i < length (np_table pool) \<Longrightarrow>
     unat (sl_offset (np_table pool ! i)) + unat (sl_length (np_table pool ! i)) \<le> length (np_arena pool)"
  by (simp add: np_inv_def)

lemma Intern_hit:
  assumes inv: "np_inv pool" and c: "find_candidate pool name (np_bucket pool (HashName name)) = Some i"
    and r: "Intern pool name = (j, pool')"
  shows "j = i" "np_inv pool'" "pool_names pool' = pool_names pool" "np_arena pool' = np_arena pool"
    "unat i < length (np_table pool)" "pool_names pool ! unat i = name" "np_table pool' = np_table pool"
proof -
  let ?b = "np_bucket pool (HashName name)"
  have p: "j = i" "pool' = pool\<lparr>np_hashBuckets := (np_hashBuckets pool)(HashName name \<mapsto> ?b)\<rparr>"
    using r c by (auto simp: Intern_def np_bucket_def Let_def)
  have b: "np_bucket pool' = np_bucket pool" by (auto simp: fun_eq_iff np_bucket_def p)
  show "j = i" "np_arena pool' = np_arena pool" "np_table pool' = np_table pool" by (simp_all add: p)
  then show n: "pool_names pool' = pool_names pool" by (simp add: pool_names_def)
  show "np_inv pool'" using inv unfolding np_inv_def b n by (simp add: p)
  show lt: "unat i < length (np_table pool)"
    using find_candidate_Some [OF c] np_inv_bucket [OF inv] by blast
  show "pool_names pool ! unat i = name" using find_candidate_Some [OF c] lt by simp
qed

lemma Intern_miss:
  assumes inv: "np_inv pool" and c: "find_candidate pool name (np_bucket pool (HashName name)) = None"
    and small: "length (np_arena pool) + length name < 2 ^ 32" "length (np_table pool) < 2 ^ 32"
    and r: "Intern pool name = (j, pool')"
  shows "name \<notin> set (pool_names pool)" "pool_names pool' = pool_names pool @ [name]"
    "j = of_nat (length (np_table pool))" "np_arena pool' = np_arena pool @ name" "np_inv pool'"
proof -
  let ?n = "length (np_table pool)" and ?b = "np_bucket pool (HashName name)"
  let ?slot = "\<lparr>sl_offset = of_nat (length (np_arena pool)), sl_length = of_nat (length name)\<rparr> :: Slot"
  have p: "j = of_nat ?n" "pool' = \<lparr>np_arena = np_arena pool @ name, np_table = np_table pool @ [?slot],
      np_hashBuckets = (np_hashBuckets pool)(HashName name \<mapsto> ?b @ [of_nat ?n])\<rparr>"
    using r c by (auto simp: Intern_def np_bucket_def Let_def)
  show "j = of_nat ?n" "np_arena pool' = np_arena pool @ name" by (simp_all add: p)
  show fresh: "name \<notin> set (pool_names pool)"
  proof
    assume "name \<in> set (pool_names pool)"
    then obtain i where i: "i < ?n" "pool_names pool ! i = name" by (metis in_set_conv_nth length_pool_names)
    then have "of_nat i \<in> set ?b" using inv by (auto simp: np_inv_def)
    moreover have "unat (of_nat i :: u32) = i" using i small(2) by (intro unat_of_nat_u32) simp
    ultimately show False
      using find_candidate_None [OF c, of "of_nat i"] i np_inv_slot [OF inv i(1)] by simp
  qed
  have off: "unat (sl_offset ?slot) = length (np_arena pool)" "unat (sl_length ?slot) = length name"
    using small(1) by (simp_all add: unat_of_nat_u32)
  then show names: "pool_names pool' = pool_names pool @ [name]"
    using inv by (auto simp: p pool_names_def slot_view_append np_inv_def) (simp add: slot_view_def)
  have b: "np_bucket pool' h = np_bucket pool h @ (if h = HashName name then [of_nat ?n] else [])" for h
    by (simp add: np_bucket_def p)
  have ok: "of_nat i \<in> set (np_bucket pool' (HashName (pool_names pool' ! i)))" if "i < Suc ?n" for i
    using that inv names by (cases "i = ?n") (auto simp: b nth_append np_inv_def)
  have bk: "unat i < Suc ?n" if "i \<in> set (np_bucket pool' h)" for i h
    using that np_inv_bucket [OF inv, of i h] small(2) by (auto simp: b unat_of_nat_u32 split: if_splits)
  have sl: "unat (sl_offset slot) + unat (sl_length slot) \<le> length (np_arena pool')"
    if "slot \<in> set (np_table pool')" for slot
    using that inv off by (auto simp: np_inv_def p)
  have len: "length (np_table pool') = Suc ?n" by (simp add: p)
  have "distinct (pool_names pool')" using inv fresh by (simp add: names np_inv_def)
  then show "np_inv pool'"
    unfolding np_inv_def len using ok bk sl small(2) by (simp add: Suc_le_eq)
qed

lemma Intern_cases:
  assumes inv: "np_inv pool" and room: "np_room pool (name # names)" and r: "Intern pool name = (i, pool')"
  shows "np_inv pool'" "np_room pool' names" "unat i < length (np_table pool')"
    "pool_names pool' ! unat i = name"
    "pool_names pool' = pool_names pool @ (if name \<in> set (pool_names pool) then [] else [name])"
proof -
  have small: "length (np_arena pool) + length name < 2 ^ 32" "length (np_table pool) < 2 ^ 32"
    using room by (auto simp: np_room_def)
  have "np_inv pool' \<and> np_room pool' names \<and> unat i < length (np_table pool') \<and> pool_names pool' ! unat i = name
    \<and> pool_names pool' = pool_names pool @ (if name \<in> set (pool_names pool) then [] else [name])"
  proof (cases "find_candidate pool name (np_bucket pool (HashName name))")
    case None
    note m = Intern_miss [OF inv None small r]
    have len: "length (np_table pool') = Suc (length (np_table pool))"
      using arg_cong [OF m(2), of length] by simp
    have ui: "unat i = length (pool_names pool)" using m(3) small(2) by (simp add: unat_of_nat_u32)
    then have "pool_names pool' ! unat i = name" unfolding m(2) by (simp only: nth_append_length)
    then show ?thesis
      using m room len ui by (simp add: np_room_def del: pool_names_nth)
  next
    case (Some c)
    note h = Intern_hit [OF inv Some r]
    have "name \<in> set (pool_names pool)" using h(5,6) by (metis length_pool_names nth_mem)
    then show ?thesis using h room by (simp add: np_room_def del: pool_names_nth)
  qed
  then show "np_inv pool'" "np_room pool' names" "unat i < length (np_table pool')"
    "pool_names pool' ! unat i = name"
    "pool_names pool' = pool_names pool @ (if name \<in> set (pool_names pool) then [] else [name])"
    by blast+
qed

lemma Intern_length:
  "np_inv pool \<Longrightarrow> np_room pool (name # names) \<Longrightarrow> Intern pool name = (i, pool') \<Longrightarrow>
     length (np_table pool) \<le> length (np_table pool')"
  using arg_cong [OF Intern_cases(5), of pool name names i pool' length] by (auto split: if_splits)

interpretation pool: interner np_inv np_room Intern Get np_known
proof
  fix p p' s ss i
  assume *: "np_inv p" "np_room p (s # ss)" "Intern p s = (i, p')"
  show "np_inv p' \<and> np_room p' ss" using Intern_cases(1,2) [OF *] ..
  have k: "i \<in> np_known p'" using Intern_cases(3) [OF *] by (simp add: np_known_def)
  then show "i \<in> np_known p' \<and> Get p' i = s" using Intern_cases(4) [OF *] by (simp only: Get_known)
  fix j
  assume j: "j \<in> np_known p"
  then have "j \<in> np_known p'" using Intern_length [OF *] by (simp add: np_known_def)
  moreover have "pool_names p' ! unat j = pool_names p ! unat j"
    using j Intern_cases(5) [OF *] by (simp add: np_known_def nth_append del: pool_names_nth)
  ultimately show "j \<in> np_known p' \<and> Get p' j = Get p j" using j by (simp only: Get_known)
next
  fix p i j
  assume "np_inv p" "i \<in> np_known p" "j \<in> np_known p" "Get p i = Get p j"
  then show "i = j"
    by (auto simp: Get_known np_inv_def np_known_def nth_eq_iff_index_eq word_unat_eq_iff simp del: pool_names_nth)
qed

lemma intern_all_names:
  assumes "np_inv p" "np_room p ss" "intern_all Intern p ss = (is, p')"
  shows "set (pool_names p') = set (pool_names p) \<union> set ss"
  using assms
proof (induction ss arbitrary: p "is")
  case (Cons s ss)
  obtain i p1 where i: "Intern p s = (i, p1)" by fastforce
  obtain is1 where is1: "intern_all Intern p1 ss = (is1, p')"
    using Cons.prems(3) i by (auto split: prod.splits)
  have "set (pool_names p') = set (pool_names p1) \<union> set ss"
    using Cons.IH [OF Intern_cases(1,2) [OF Cons.prems(1,2) i] is1] .
  then show ?case using Intern_cases(5) [OF Cons.prems(1,2) i] by auto
qed simp

lemma np_empty_inv [simp]: "np_inv np_empty"
  by (simp add: np_inv_def np_empty_def np_bucket_def pool_names_def)

section \<open>Properties\<close>

text \<open>
  C30. The name pool deduplicates without loss. Interning any list of names into an empty pool,
  within 32 bit offsets and ids, returns ids that read back the names, two positions get the same
  id exactly when their names are equal, and the pool holds one entry per distinct name.
\<close>

theorem NamePool_dedup:
  assumes "sum_list (map length names) < 2 ^ 32" "length names \<le> 2 ^ 32"
    and "intern_all Intern np_empty names = (ids, pool)"
  shows "map (Get pool) ids = names
    \<and> (\<forall>a b. a < length names \<longrightarrow> b < length names \<longrightarrow> (ids ! a = ids ! b \<longleftrightarrow> names ! a = names ! b))
    \<and> UniqueNameCount pool = card (set names)"
proof -
  have room: "np_room np_empty names" using assms(1,2) by (simp add: np_room_def np_empty_def)
  note spec = pool.intern_all_spec [OF np_empty_inv room assms(3)]
  have "distinct (pool_names pool)" using spec by (simp add: np_inv_def)
  moreover have "set (pool_names pool) = set names"
    using intern_all_names [OF np_empty_inv room assms(3)] by (simp add: np_empty_def pool_names_def)
  ultimately have "UniqueNameCount pool = card (set names)"
    by (metis UniqueNameCount_def distinct_card length_pool_names)
  then show ?thesis
    using spec pool.intern_all_dedup [OF np_empty_inv room assms(3)] by blast
qed

theorem NamePool_dedup_witness:
  "\<exists>ids pool. intern_all Intern np_empty [[65], [66, 67], [65]] = (ids, pool)
     \<and> map (Get pool) ids = [[65], [66, 67], [65]] \<and> ids ! 0 = ids ! 2 \<and> ids ! 0 \<noteq> ids ! 1"
proof -
  obtain ids pool where r: "intern_all Intern np_empty [[65], [66, 67], [65]] = (ids, pool)" by fastforce
  note N = NamePool_dedup [OF _ _ r]
  have "(ids ! 0 = ids ! 2) = ([[65], [66, 67], [65 :: u16]] ! 0 = [[65], [66, 67], [65]] ! 2)"
    and "(ids ! 0 = ids ! 1) = ([[65], [66, 67], [65 :: u16]] ! 0 = [[65], [66, 67], [65]] ! 1)"
    using N [THEN conjunct2, THEN conjunct1] by simp_all
  then show ?thesis using r N by auto
qed

end
