(* ===== verification/Projection.thy ===== *)
theory Projection
  imports Trigrams ChildrenMap NamePool
begin

text \<open>
  The in-memory index (\<open>indexstore/src/Projection.cpp\<close>): a dense array of rows with a free list, the map
  from an entry's identity to its slot, the children of every directory, the name pool, the filename
  accelerator and one access time per slot. This theory has the rows themselves: upsert, partial upsert,
  removal and lookup.

  An operation that lets an exception of the hash tables out has type \<open>MapError + _\<close>; the half-done state
  that such an exception leaves is not represented. \<open>cso\<close> is the platform's ordinal comparison.
\<close>

section \<open>State\<close>

type_synonym VolumeRowId = u64

record ProjectionEntry =
  pe_volumeRowId :: VolumeRowId
  pe_frn :: FileId
  pe_parentFrn :: FileId
  pe_nameId :: u32
  pe_sizeBytes :: u64
  pe_allocatedSizeBytes :: u64
  pe_allocatedSizeKnown :: bool
  pe_creationTime :: u64
  pe_lastModifiedTime :: u64
  pe_lastAccessTime :: u64
  pe_attributes :: u32
  pe_nameAsciiLower :: bool
  pe_nameIsAscii :: bool

record Projection =
  pj_namePool :: NamePool
  pj_entries :: "ProjectionEntry list"
  pj_freeList :: "u32 list"
  pj_idToIndex :: "(EntryKey, u32) FlatHashMap"
  pj_parentToChildren :: FlatChildrenMap
  pj_denseIterationOrderValid :: bool
  pj_filenameIndex :: FilenameIndex
  pj_bulkScanActive :: bool
  pj_maximumMemoryBytes :: nat
  pj_accessClock :: u64
  pj_lastAccessTimes :: "u64 list"
  pj_evictedVolumes :: "VolumeRowId set"
  pj_enforcingMemoryLimit :: bool
  pj_subtreeEvictionCount :: u64
  pj_coldReloadCount :: u64
  pj_coldReloadFailedCount :: u64
  pj_lastEvictionBytesBefore :: nat
  pj_lastEvictionBytesAfter :: nat

definition kDefaultMaximumMemoryBytes :: nat where
  "kDefaultMaximumMemoryBytes = 500 * 1024 * 1024"

definition kFileAttributeDirectory :: u32 where "kFileAttributeDirectory = 0x10"

definition kMaxProjectionPathDepth :: nat where "kMaxProjectionPathDepth = 4096"

definition empty_index :: FilenameIndex where
  "empty_index = \<lparr>fx_trigramPostings = Map.empty, fx_exceptionalEntries = [], fx_valid = True, fx_building = False\<rparr>"

text \<open>A projection as constructed: the member initialisers of the class.\<close>

definition new_projection :: Projection where
  "new_projection = \<lparr>pj_namePool = np_empty, pj_entries = [], pj_freeList = [], pj_idToIndex = fm_empty,
     pj_parentToChildren = cm_empty, pj_denseIterationOrderValid = False, pj_filenameIndex = empty_index,
     pj_bulkScanActive = False, pj_maximumMemoryBytes = kDefaultMaximumMemoryBytes, pj_accessClock = 0,
     pj_lastAccessTimes = [], pj_evictedVolumes = {}, pj_enforcingMemoryLimit = True,
     pj_subtreeEvictionCount = 0, pj_coldReloadCount = 0, pj_coldReloadFailedCount = 0,
     pj_lastEvictionBytesBefore = 0, pj_lastEvictionBytesAfter = 0\<rparr>"

text \<open>The members \<open>entries_[index]\<close> and \<open>idToIndex_\<close> with their types filled in.\<close>

definition EntryAt :: "Projection \<Rightarrow> u32 \<Rightarrow> ProjectionEntry" where
  "EntryAt p index = pj_entries p ! unat index"

abbreviation id_find :: "(EntryKey, u32) FlatHashMap \<Rightarrow> EntryKey \<Rightarrow> u32 option" where
  "id_find \<equiv> fm_find EntryKeyHash"

abbreviation id_insert :: "(EntryKey, u32) FlatHashMap \<Rightarrow> EntryKey \<Rightarrow> u32 \<Rightarrow> MapError + (EntryKey, u32) FlatHashMap" where
  "id_insert \<equiv> fm_insert EntryKeyHash default_EntryKey 0"

abbreviation id_erase :: "(EntryKey, u32) FlatHashMap \<Rightarrow> EntryKey \<Rightarrow> (EntryKey, u32) FlatHashMap" where
  "id_erase \<equiv> fm_erase EntryKeyHash"

abbreviation key_of :: "VolumeRowId \<Rightarrow> FileId \<Rightarrow> EntryKey" where
  "key_of vol frn \<equiv> \<lparr>ek_volumeRowId = vol, ek_frn = frn\<rparr>"

section \<open>Access times and the accelerator\<close>

definition TouchIndex :: "u32 \<Rightarrow> Projection \<Rightarrow> Projection" where
  "TouchIndex index p =
     (if unat index \<ge> length (pj_lastAccessTimes p) then p
      else
        let wrapped = pj_accessClock p = - 1;
            clock = (if wrapped then 1 else pj_accessClock p + 1);
            times = (if wrapped then map (\<lambda>_. 0) (pj_lastAccessTimes p) else pj_lastAccessTimes p)
        in p\<lparr>pj_accessClock := clock, pj_lastAccessTimes := times[unat index := clock]\<rparr>)"

definition add_filename :: "ordinal \<Rightarrow> u32 \<Rightarrow> Projection \<Rightarrow> Projection" where
  "add_filename cso index p = p\<lparr>pj_filenameIndex :=
     AddFilenameIndexEntry cso index (Get (pj_namePool p) (pe_nameId (EntryAt p index))) (pj_filenameIndex p)\<rparr>"

definition invalidate_filenames :: "Projection \<Rightarrow> Projection" where
  "invalidate_filenames p = p\<lparr>pj_filenameIndex := InvalidateFilenameIndex (pj_filenameIndex p)\<rparr>"

definition rebuild_filenames :: "ordinal \<Rightarrow> Projection \<Rightarrow> Projection" where
  "rebuild_filenames cso p = p\<lparr>pj_filenameIndex := RebuildFilenameIndex cso
     (map (\<lambda>(key, index). (index, Get (pj_namePool p) (pe_nameId (EntryAt p index)))) (fm_entries (pj_idToIndex p)))
     (pj_filenameIndex p)\<rparr>"

definition SetBulkScanActive :: "ordinal \<Rightarrow> bool \<Rightarrow> Projection \<Rightarrow> Projection" where
  "SetBulkScanActive cso active p =
     (let p1 = (if active then (invalidate_filenames p)\<lparr>pj_enforcingMemoryLimit := False\<rparr>
                else rebuild_filenames cso (p\<lparr>pj_enforcingMemoryLimit := True\<rparr>))
      in p1\<lparr>pj_bulkScanActive := active\<rparr>)"

section \<open>Rows\<close>

definition default_entry :: ProjectionEntry where
  "default_entry = \<lparr>pe_volumeRowId = 0, pe_frn = default_FileId, pe_parentFrn = default_FileId, pe_nameId = 0,
     pe_sizeBytes = 0, pe_allocatedSizeBytes = 0, pe_allocatedSizeKnown = False, pe_creationTime = 0,
     pe_lastModifiedTime = 0, pe_lastAccessTime = 0, pe_attributes = 0, pe_nameAsciiLower = False, pe_nameIsAscii = False\<rparr>"

text \<open>The assignments that an update and a new row have in common.\<close>

definition fill_entry :: "EntryRecord \<Rightarrow> u32 \<Rightarrow> ProjectionEntry \<Rightarrow> ProjectionEntry" where
  "fill_entry rec nameId entry = entry\<lparr>
     pe_parentFrn := er_parentId rec, pe_nameId := nameId, pe_sizeBytes := er_sizeBytes rec,
     pe_allocatedSizeBytes := er_allocatedSizeBytes rec, pe_allocatedSizeKnown := er_allocatedSizeKnown rec,
     pe_creationTime := er_creationTime rec, pe_lastModifiedTime := er_lastModifiedTime rec,
     pe_lastAccessTime := er_lastAccessTime rec, pe_attributes := er_attributes rec,
     pe_nameAsciiLower := IsAsciiLower (er_name rec), pe_nameIsAscii := IsAscii (er_name rec)\<rparr>"

definition link_child :: "VolumeRowId \<Rightarrow> EntryRecord \<Rightarrow> u32 \<Rightarrow> FlatChildrenMap \<Rightarrow> MapError + FlatChildrenMap" where
  "link_child vol rec index children =
     (if er_parentId rec \<noteq> er_id rec then cm_insert children (key_of vol (er_parentId rec)) index else Inr children)"

definition update_row :: "ordinal \<Rightarrow> VolumeRowId \<Rightarrow> EntryRecord \<Rightarrow> u32 \<Rightarrow> Projection \<Rightarrow> MapError + Projection" where
  "update_row cso vol rec index p =
     (let entry = EntryAt p index;
          oldName = Get (pj_namePool p) (pe_nameId entry);
          (nameId, names) = Intern (pj_namePool p) (er_name rec);
          fx = (if fx_valid (pj_filenameIndex p) then RemoveFilenameIndexEntry cso index oldName (pj_filenameIndex p)
                else pj_filenameIndex p)
      in bind_res
           (if pe_parentFrn entry \<noteq> er_parentId rec
            then link_child vol rec index (cm_remove (pj_parentToChildren p) (key_of vol (pe_parentFrn entry)) index)
            else Inr (pj_parentToChildren p))
           (\<lambda>children. Inr (add_filename cso index (TouchIndex index
              (p\<lparr>pj_namePool := names, pj_filenameIndex := fx, pj_parentToChildren := children,
                 pj_entries := (pj_entries p)[unat index := fill_entry rec nameId entry]\<rparr>)))))"

definition take_slot :: "ProjectionEntry \<Rightarrow> Projection \<Rightarrow> u32 \<times> Projection" where
  "take_slot entry p =
     (if pj_freeList p \<noteq> []
      then let index = last (pj_freeList p)
           in (index, p\<lparr>pj_freeList := butlast (pj_freeList p), pj_entries := (pj_entries p)[unat index := entry]\<rparr>)
      else (of_nat (length (pj_entries p)), p\<lparr>pj_entries := pj_entries p @ [entry]\<rparr>))"

definition reset_time :: "u32 \<Rightarrow> Projection \<Rightarrow> Projection" where
  "reset_time index p =
     (let times = pj_lastAccessTimes p;
          grown = (if unat index \<ge> length times then times @ replicate (unat index + 1 - length times) 0 else times)
      in p\<lparr>pj_lastAccessTimes := grown[unat index := 0]\<rparr>)"

definition insert_row :: "ordinal \<Rightarrow> VolumeRowId \<Rightarrow> EntryRecord \<Rightarrow> Projection \<Rightarrow> MapError + Projection" where
  "insert_row cso vol rec p =
     (let (nameId, names) = Intern (pj_namePool p) (er_name rec);
          p1 = p\<lparr>pj_namePool := names, pj_denseIterationOrderValid := False\<rparr>;
          entry = fill_entry rec nameId (default_entry\<lparr>pe_volumeRowId := vol, pe_frn := er_id rec\<rparr>);
          (index, p2) = take_slot entry p1;
          p3 = reset_time index p2
      in bind_res (id_insert (pj_idToIndex p3) (key_of vol (er_id rec)) index)
           (\<lambda>ids. bind_res (link_child vol rec index (pj_parentToChildren p3))
              (\<lambda>children. Inr (add_filename cso index (TouchIndex index
                 (p3\<lparr>pj_idToIndex := ids, pj_parentToChildren := children\<rparr>))))))"

definition Upsert :: "ordinal \<Rightarrow> VolumeRowId \<Rightarrow> EntryRecord \<Rightarrow> Projection \<Rightarrow> MapError + Projection" where
  "Upsert cso vol rec p =
     (case id_find (pj_idToIndex p) (key_of vol (er_id rec)) of
        Some index \<Rightarrow> update_row cso vol rec index p
      | None \<Rightarrow> insert_row cso vol rec p)"

definition Find :: "VolumeRowId \<Rightarrow> FileId \<Rightarrow> Projection \<Rightarrow> ProjectionEntry option \<times> Projection" where
  "Find vol frn p =
     (case id_find (pj_idToIndex p) (key_of vol frn) of
        None \<Rightarrow> (None, p)
      | Some index \<Rightarrow> (Some (EntryAt p index), TouchIndex index p))"

text \<open>\<open>UpsertPartial\<close>: start from the existing row, take over the fields that are present, clear the absent ones of a new row.\<close>

definition keep_existing :: "NamePool \<Rightarrow> ProjectionEntry \<Rightarrow> EntryRecord \<Rightarrow> EntryRecord" where
  "keep_existing names existing merged = merged\<lparr>er_parentId := pe_parentFrn existing,
     er_name := Get names (pe_nameId existing), er_sizeBytes := pe_sizeBytes existing,
     er_allocatedSizeBytes := pe_allocatedSizeBytes existing, er_allocatedSizeKnown := pe_allocatedSizeKnown existing,
     er_creationTime := pe_creationTime existing, er_lastModifiedTime := pe_lastModifiedTime existing,
     er_lastAccessTime := pe_lastAccessTime existing, er_attributes := pe_attributes existing\<rparr>"

definition overlay :: "EntryFieldMask \<Rightarrow> EntryRecord \<Rightarrow> EntryRecord \<Rightarrow> EntryRecord" where
  "overlay fs rec merged = merged\<lparr>
     er_parentId := (if HasEntryField fs kEntryFieldParentId then er_parentId rec else er_parentId merged),
     er_name := (if HasEntryField fs kEntryFieldName then er_name rec else er_name merged),
     er_sizeBytes := (if HasEntryField fs kEntryFieldSizeBytes then er_sizeBytes rec else er_sizeBytes merged),
     er_allocatedSizeBytes := (if HasEntryField fs kEntryFieldAllocatedSizeBytes then er_allocatedSizeBytes rec
                               else er_allocatedSizeBytes merged),
     er_allocatedSizeKnown := (if HasEntryField fs kEntryFieldAllocatedSizeBytes then er_allocatedSizeKnown rec
                               else er_allocatedSizeKnown merged),
     er_creationTime := (if HasEntryField fs kEntryFieldCreationTime then er_creationTime rec else er_creationTime merged),
     er_lastModifiedTime := (if HasEntryField fs kEntryFieldLastModifiedTime then er_lastModifiedTime rec else er_lastModifiedTime merged),
     er_lastAccessTime := (if HasEntryField fs kEntryFieldLastAccessTime then er_lastAccessTime rec else er_lastAccessTime merged),
     er_attributes := (if HasEntryField fs kEntryFieldAttributes then er_attributes rec else er_attributes merged)\<rparr>"

definition clear_absent :: "EntryFieldMask \<Rightarrow> bool \<Rightarrow> EntryRecord \<Rightarrow> EntryRecord" where
  "clear_absent fs fresh merged = merged\<lparr>
     er_parentId := (if \<not> HasEntryField fs kEntryFieldParentId \<and> fresh then default_FileId else er_parentId merged),
     er_name := (if \<not> HasEntryField fs kEntryFieldName \<and> fresh then [] else er_name merged),
     er_sizeBytes := (if \<not> HasEntryField fs kEntryFieldSizeBytes \<and> fresh then 0 else er_sizeBytes merged),
     er_allocatedSizeBytes := (if \<not> HasEntryField fs kEntryFieldAllocatedSizeBytes \<and> fresh then 0 else er_allocatedSizeBytes merged),
     er_allocatedSizeKnown := (if \<not> HasEntryField fs kEntryFieldAllocatedSizeBytes \<and> fresh then False else er_allocatedSizeKnown merged),
     er_creationTime := (if \<not> HasEntryField fs kEntryFieldCreationTime \<and> fresh then 0 else er_creationTime merged),
     er_lastModifiedTime := (if \<not> HasEntryField fs kEntryFieldLastModifiedTime \<and> fresh then 0 else er_lastModifiedTime merged),
     er_lastAccessTime := (if \<not> HasEntryField fs kEntryFieldLastAccessTime \<and> fresh then 0 else er_lastAccessTime merged),
     er_attributes := (if \<not> HasEntryField fs kEntryFieldAttributes \<and> fresh then 0 else er_attributes merged)\<rparr>"

definition UpsertPartial :: "ordinal \<Rightarrow> VolumeRowId \<Rightarrow> EntryRecord \<Rightarrow> EntryFieldMask \<Rightarrow> Projection \<Rightarrow> MapError + Projection" where
  "UpsertPartial cso vol rec fs p =
     (if fs = kEntryFieldMaskAll then Upsert cso vol rec p
      else
        let (existing, p1) = Find vol (er_id rec) p;
            merged = (case existing of None \<Rightarrow> rec | Some e \<Rightarrow> keep_existing (pj_namePool p1) e rec)
        in Upsert cso vol (clear_absent fs (existing = None) (overlay fs rec merged)) p1)"

section \<open>Removal\<close>

definition Remove :: "ordinal \<Rightarrow> VolumeRowId \<Rightarrow> FileId \<Rightarrow> Projection \<Rightarrow> Projection" where
  "Remove cso vol frn p =
     (case id_find (pj_idToIndex p) (key_of vol frn) of
        None \<Rightarrow> p
      | Some index \<Rightarrow>
          let entry = EntryAt p index in
          p\<lparr>pj_denseIterationOrderValid := False,
            pj_filenameIndex := RemoveFilenameIndexEntry cso index (Get (pj_namePool p) (pe_nameId entry)) (pj_filenameIndex p),
            pj_parentToChildren := cm_remove (pj_parentToChildren p) (key_of vol (pe_parentFrn entry)) index,
            pj_idToIndex := id_erase (pj_idToIndex p) (key_of vol frn),
            pj_lastAccessTimes := (if unat index < length (pj_lastAccessTimes p)
                                   then (pj_lastAccessTimes p)[unat index := 0] else pj_lastAccessTimes p),
            pj_freeList := pj_freeList p @ [index]\<rparr>)"

definition RemoveBatch :: "ordinal \<Rightarrow> VolumeRowId \<Rightarrow> FileId list \<Rightarrow> bool \<Rightarrow> Projection \<Rightarrow> Projection" where
  "RemoveBatch cso vol frns keepFilenameIndexCurrent p =
     (if frns = [] then p
      else
        let wasValid = fx_valid (pj_filenameIndex p);
            bulk = length frns > kPerEntryFilenameRemovalThreshold;
            p1 = (if bulk \<and> wasValid then invalidate_filenames p else p);
            p2 = fold (Remove cso vol) frns p1;
            p3 = (if bulk \<and> wasValid \<and> keepFilenameIndexCurrent then rebuild_filenames cso p2 else p2)
        in if \<not> keepFilenameIndexCurrent then invalidate_filenames p3 else p3)"

definition RemoveVolume :: "ordinal \<Rightarrow> VolumeRowId \<Rightarrow> bool \<Rightarrow> Projection \<Rightarrow> Projection" where
  "RemoveVolume cso vol keepFilenameIndexCurrent p =
     RemoveBatch cso vol
       (map (\<lambda>(key, index). ek_frn key) (filter (\<lambda>(key, index). ek_volumeRowId key = vol) (fm_entries (pj_idToIndex p))))
       keepFilenameIndexCurrent p"

definition ChildIndices :: "VolumeRowId \<Rightarrow> FileId \<Rightarrow> Projection \<Rightarrow> u32 list \<times> Projection" where
  "ChildIndices vol parentFrn p =
     (let key = key_of vol parentFrn;
          p1 = (case id_find (pj_idToIndex p) key of None \<Rightarrow> p | Some index \<Rightarrow> TouchIndex index p)
      in (cm_find (pj_parentToChildren p1) key, p1))"

section \<open>Invariant\<close>

text \<open>
  A slot is live when the identity stored in it maps back to it. The free list holds the other slots, the children
  of a directory are the live slots that name it as parent, a volume root (its own parent) apart.
\<close>

definition entry_key :: "ProjectionEntry \<Rightarrow> EntryKey" where
  "entry_key e = key_of (pe_volumeRowId e) (pe_frn e)"

definition child_of :: "ProjectionEntry \<Rightarrow> EntryKey \<Rightarrow> bool" where
  "child_of e k \<longleftrightarrow> pe_parentFrn e \<noteq> pe_frn e \<and> k = key_of (pe_volumeRowId e) (pe_parentFrn e)"

definition live_slot :: "(EntryKey \<rightharpoonup> u32) \<Rightarrow> ProjectionEntry list \<Rightarrow> u32 \<Rightarrow> bool" where
  "live_slot ids es i \<longleftrightarrow> unat i < length es \<and> ids (entry_key (es ! unat i)) = Some i"

definition ids_ok :: "(EntryKey \<rightharpoonup> u32) \<Rightarrow> ProjectionEntry list \<Rightarrow> bool" where
  "ids_ok ids es \<longleftrightarrow> length es \<le> 2 ^ 32 \<and> (\<forall>k i. ids k = Some i \<longrightarrow> unat i < length es \<and> entry_key (es ! unat i) = k)"

definition free_ok :: "(EntryKey \<rightharpoonup> u32) \<Rightarrow> ProjectionEntry list \<Rightarrow> u32 list \<Rightarrow> bool" where
  "free_ok ids es free \<longleftrightarrow> distinct free \<and> set free = {i. unat i < length es \<and> \<not> live_slot ids es i}"

definition links_ok :: "(EntryKey \<rightharpoonup> u32) \<Rightarrow> ProjectionEntry list \<Rightarrow> FlatChildrenMap \<Rightarrow> bool" where
  "links_ok ids es ch \<longleftrightarrow> (\<forall>k. distinct (cm_children ch k)
     \<and> set (cm_children ch k) = {i. live_slot ids es i \<and> child_of (es ! unat i) k})"

definition entry_name :: "NamePool \<Rightarrow> ProjectionEntry \<Rightarrow> u16string" where
  "entry_name names e = Get names (pe_nameId e)"

definition names_ok :: "(EntryKey \<rightharpoonup> u32) \<Rightarrow> ProjectionEntry list \<Rightarrow> NamePool \<Rightarrow> bool" where
  "names_ok ids es names \<longleftrightarrow> (\<forall>i. live_slot ids es i \<longrightarrow> pe_nameId (es ! unat i) \<in> np_known names
     \<and> pe_nameAsciiLower (es ! unat i) = IsAsciiLower (entry_name names (es ! unat i))
     \<and> pe_nameIsAscii (es ! unat i) = IsAscii (entry_name names (es ! unat i)))"

definition slot_names :: "(EntryKey \<rightharpoonup> u32) \<Rightarrow> ProjectionEntry list \<Rightarrow> NamePool \<Rightarrow> u32 \<rightharpoonup> u16string" where
  "slot_names ids es names i = (if live_slot ids es i then Some (entry_name names (es ! unat i)) else None)"

abbreviation ids_of :: "Projection \<Rightarrow> EntryKey \<rightharpoonup> u32" where
  "ids_of p \<equiv> fm_map (pj_idToIndex p)"

definition tables_ok :: "Projection \<Rightarrow> bool" where
  "tables_ok p \<longleftrightarrow> np_inv (pj_namePool p) \<and> fm_inv EntryKeyHash (pj_idToIndex p) \<and> ids_ok (ids_of p) (pj_entries p)
     \<and> names_ok (ids_of p) (pj_entries p) (pj_namePool p) \<and> length (pj_lastAccessTimes p) = length (pj_entries p)"

definition proj_ok :: "ordinal \<Rightarrow> Projection \<Rightarrow> bool" where
  "proj_ok cso p \<longleftrightarrow> tables_ok p \<and> cm_inv (pj_parentToChildren p)
     \<and> free_ok (ids_of p) (pj_entries p) (pj_freeList p)
     \<and> links_ok (ids_of p) (pj_entries p) (pj_parentToChildren p)
     \<and> index_ok cso (slot_names (ids_of p) (pj_entries p) (pj_namePool p)) (pj_filenameIndex p)
     \<and> (pj_denseIterationOrderValid p \<longrightarrow> pj_freeList p = [])"

text \<open>What the projection stands for: the record of every live identity.\<close>

definition to_record :: "NamePool \<Rightarrow> ProjectionEntry \<Rightarrow> EntryRecord" where
  "to_record names e = \<lparr>er_id = pe_frn e, er_parentId = pe_parentFrn e, er_name = entry_name names e,
     er_sizeBytes = pe_sizeBytes e, er_allocatedSizeBytes = pe_allocatedSizeBytes e,
     er_allocatedSizeKnown = pe_allocatedSizeKnown e, er_creationTime = pe_creationTime e,
     er_lastModifiedTime = pe_lastModifiedTime e, er_lastAccessTime = pe_lastAccessTime e, er_attributes = pe_attributes e\<rparr>"

definition rows :: "Projection \<Rightarrow> EntryKey \<rightharpoonup> EntryRecord" where
  "rows p k = map_option (\<lambda>i. to_record (pj_namePool p) (EntryAt p i)) (ids_of p k)"

section \<open>Live slots under the three row operations\<close>

lemma ids_okD:
  assumes "ids_ok ids es" "ids k = Some i"
  shows "unat i < length es" "entry_key (es ! unat i) = k" "live_slot ids es i"
  using assms unfolding ids_ok_def live_slot_def by auto

lemma live_slot_iff: "ids_ok ids es \<Longrightarrow> live_slot ids es i \<longleftrightarrow> (\<exists>k. ids k = Some i)"
  unfolding live_slot_def by (metis ids_okD(1,2))

lemma live_update:
  assumes "entry_key e = entry_key (es ! unat i)"
  shows "live_slot ids (es[unat i := e]) j \<longleftrightarrow> live_slot ids es j"
proof (cases "unat i = unat j \<and> unat j < length es")
  case True
  then show ?thesis using assms by (auto simp: live_slot_def)
next
  case False
  then have "unat j < length es \<Longrightarrow> es[unat i := e] ! unat j = es ! unat j" by auto
  then show ?thesis by (auto simp: live_slot_def)
qed

lemma ids_ok_update:
  assumes "ids_ok ids es" "entry_key e = entry_key (es ! unat i)"
  shows "ids_ok ids (es[unat i := e])"
proof -
  have "entry_key (es[unat i := e] ! unat j) = entry_key (es ! unat j)" if "unat j < length es" for j :: u32
    using assms(2) that by (cases "unat i = unat j") auto
  then show ?thesis using assms(1) by (simp add: ids_ok_def)
qed

text \<open>\<open>put_slot i e es\<close> is the table after a slot was taken: overwritten or appended.\<close>

definition put_slot :: "u32 \<Rightarrow> ProjectionEntry \<Rightarrow> ProjectionEntry list \<Rightarrow> ProjectionEntry list" where
  "put_slot i e es = (if unat i < length es then es[unat i := e] else es @ [e])"

lemma put_slot_nth:
  assumes "unat i \<le> length es"
  shows "length (put_slot i e es) = max (length es) (Suc (unat i))" "put_slot i e es ! unat i = e"
    "unat j < length es \<Longrightarrow> i \<noteq> j \<Longrightarrow> put_slot i e es ! unat j = es ! unat j"
  using assms by (auto simp: put_slot_def nth_append nth_list_update word_unat_eq_iff)

lemma live_insert:
  assumes ok: "ids_ok ids es" and i: "unat i \<le> length es" "\<not> live_slot ids es i" and k: "ids (entry_key e) = None"
    and len: "unat i < length es \<or> length es < 2 ^ 32"
  defines "ids' \<equiv> ids(entry_key e \<mapsto> i)" and "es' \<equiv> put_slot i e es"
  shows "ids_ok ids' es'" "live_slot ids' es' j \<longleftrightarrow> j = i \<or> live_slot ids es j"
proof -
  note nth = put_slot_nth [OF i(1), where e = e]
  have other: "unat j < length es' \<and> entry_key (es' ! unat j) = k'" if "ids k' = Some j" for j k'
    using ids_okD [OF ok that] i(2) nth(1,3) by (cases "j = i") (auto simp: es'_def)
  show ok': "ids_ok ids' es'"
    using other nth len i(1) ok by (auto simp: ids_ok_def ids'_def es'_def)
  show "live_slot ids' es' j \<longleftrightarrow> j = i \<or> live_slot ids es j"
    unfolding live_slot_iff [OF ok'] live_slot_iff [OF ok] using k by (simp add: ids'_def) (metis option.distinct(1))
qed

lemma live_delete:
  assumes ok: "ids_ok ids es" and k: "ids k = Some i"
  shows "ids_ok (ids(k := None)) es" "live_slot (ids(k := None)) es j \<longleftrightarrow> live_slot ids es j \<and> j \<noteq> i"
proof -
  show ok': "ids_ok (ids(k := None)) es" using ok by (auto simp: ids_ok_def)
  show "live_slot (ids(k := None)) es j \<longleftrightarrow> live_slot ids es j \<and> j \<noteq> i"
    using ids_okD(2) [OF ok k] by (auto simp: live_slot_def k)
qed

section \<open>Touching and reading rows\<close>

lemma TouchIndex_simps [simp]:
  "pj_namePool (TouchIndex i p) = pj_namePool p" "pj_entries (TouchIndex i p) = pj_entries p"
  "pj_freeList (TouchIndex i p) = pj_freeList p" "pj_idToIndex (TouchIndex i p) = pj_idToIndex p"
  "pj_parentToChildren (TouchIndex i p) = pj_parentToChildren p" "pj_filenameIndex (TouchIndex i p) = pj_filenameIndex p"
  "pj_denseIterationOrderValid (TouchIndex i p) = pj_denseIterationOrderValid p"
  "length (pj_lastAccessTimes (TouchIndex i p)) = length (pj_lastAccessTimes p)"
  "pj_enforcingMemoryLimit (TouchIndex i p) = pj_enforcingMemoryLimit p" "pj_evictedVolumes (TouchIndex i p) = pj_evictedVolumes p"
  "pj_maximumMemoryBytes (TouchIndex i p) = pj_maximumMemoryBytes p" "pj_bulkScanActive (TouchIndex i p) = pj_bulkScanActive p"
  "EntryAt (TouchIndex i p) j = EntryAt p j"
  by (simp_all add: TouchIndex_def Let_def EntryAt_def)

lemma Touch_ok [simp]: "tables_ok (TouchIndex i p) = tables_ok p" "proj_ok cso (TouchIndex i p) = proj_ok cso p"
  "rows (TouchIndex i p) = rows p"
  by (simp_all add: tables_ok_def proj_ok_def rows_def fun_eq_iff)

lemma proj_okD:
  assumes "proj_ok cso p"
  shows "np_inv (pj_namePool p)" "fm_inv EntryKeyHash (pj_idToIndex p)" "ids_ok (ids_of p) (pj_entries p)"
    "names_ok (ids_of p) (pj_entries p) (pj_namePool p)" "length (pj_lastAccessTimes p) = length (pj_entries p)"
    "cm_inv (pj_parentToChildren p)" "free_ok (ids_of p) (pj_entries p) (pj_freeList p)"
    "links_ok (ids_of p) (pj_entries p) (pj_parentToChildren p)"
    "index_ok cso (slot_names (ids_of p) (pj_entries p) (pj_namePool p)) (pj_filenameIndex p)"
    "tables_ok p"
  using assms by (simp_all add: proj_ok_def tables_ok_def)

lemma id_find_rows:
  assumes "proj_ok cso p"
  shows "id_find (pj_idToIndex p) k = ids_of p k"
  by (rule fm_find_eq [OF proj_okD(2) [OF assms]])

lemma Find_rows:
  assumes "proj_ok cso p" "Find vol frn p = (r, p')"
  shows "map_option (to_record (pj_namePool p)) r = rows p (key_of vol frn)" "proj_ok cso p'" "rows p' = rows p"
    "pj_namePool p' = pj_namePool p"
  using assms by (auto simp: Find_def id_find_rows [OF assms(1)] rows_def split: option.splits)

lemma new_projection_ok: "proj_ok cso new_projection" "rows new_projection = Map.empty"
proof -
  have no: "\<not> live_slot Map.empty [] i" for i by (simp add: live_slot_def)
  have "cm_children cm_empty k = []" for k by (simp add: cm_children_def)
  moreover have "index_ok cso (slot_names Map.empty [] np_empty) empty_index"
    by (simp add: index_ok_def empty_index_def posting_def trigram_rows_def exceptional_rows_def slot_names_def no)
  ultimately show "proj_ok cso new_projection"
    by (simp add: proj_ok_def tables_ok_def new_projection_def ids_ok_def names_ok_def links_ok_def free_ok_def no)
  show "rows new_projection = Map.empty" by (simp add: rows_def fun_eq_iff new_projection_def)
qed

section \<open>Removal\<close>

lemma children_remove:
  assumes "cm_inv m" "distinct (cm_children m key)"
  shows "cm_inv (cm_remove m key c)" "k \<noteq> key \<Longrightarrow> cm_children (cm_remove m key c) k = cm_children m k"
    "distinct (cm_children (cm_remove m key c) key)"
    "set (cm_children (cm_remove m key c) key) = set (cm_children m key) - {c}"
proof -
  note rm = cm_remove_spec [OF assms(1), of key c]
  show "cm_inv (cm_remove m key c)" "k \<noteq> key \<Longrightarrow> cm_children (cm_remove m key c) k = cm_children m k"
    using rm by (auto simp: cm_children_def)
  have eq: "mset (cm_children (cm_remove m key c) key) = mset (remove1 c (cm_children m key))"
    using rm mset_swap_remove [of c "cm_children m key"]
    by (auto simp: cm_children_def drop_child_def Let_def split: option.splits if_splits)
  show "distinct (cm_children (cm_remove m key c) key)"
    using assms(2) mset_eq_imp_distinct_iff [OF eq] by simp
  show "set (cm_children (cm_remove m key c) key) = set (cm_children m key) - {c}"
    using assms(2) mset_eq_setD [OF eq] by simp
qed

lemma children_insert:
  assumes "cm_inv m" "cm_insert m key c = Inr m'"
  shows "cm_inv m'" "cm_children m' k = (if k = key then cm_children m key @ [c] else cm_children m k)"
  using cm_insert_spec [OF assms(1), of key c] assms(2) by (auto simp: cm_children_def)

lemma links_okD:
  assumes "links_ok ids es ch"
  shows "distinct (cm_children ch k)" "set (cm_children ch k) = {i. live_slot ids es i \<and> child_of (es ! unat i) k}"
  using assms by (auto simp: links_ok_def)

lemma links_delete:
  assumes ok: "ids_ok ids es" and k: "ids k = Some i" and ch: "cm_inv ch" and l: "links_ok ids es ch"
    and e: "e = es ! unat i"
  shows "links_ok (ids(k := None)) es (cm_remove ch (key_of (pe_volumeRowId e) (pe_parentFrn e)) i)"
  unfolding links_ok_def
proof
  fix k'
  let ?key = "key_of (pe_volumeRowId e) (pe_parentFrn e)"
  note rm = children_remove [OF ch links_okD(1) [OF l, of ?key], where c = i] and live = live_delete(2) [OF ok k]
  show "distinct (cm_children (cm_remove ch ?key i) k') \<and> set (cm_children (cm_remove ch ?key i) k') =
      {j. live_slot (ids(k := None)) es j \<and> child_of (es ! unat j) k'}"
  proof (cases "k' = ?key")
    case True
    then show ?thesis using rm(3,4) links_okD [OF l, of ?key] by (auto simp: live)
  next
    case False
    then have "\<not> child_of (es ! unat i) k'" by (auto simp: child_of_def e)
    then show ?thesis using rm(2) [OF False] links_okD [OF l, of k'] by (auto simp: live)
  qed
qed

lemma Remove_absent: "proj_ok cso p \<Longrightarrow> ids_of p (key_of vol frn) = None \<Longrightarrow> Remove cso vol frn p = p"
  by (simp add: Remove_def id_find_rows)

lemma Remove_spec:
  assumes ok: "proj_ok cso p"
  shows "proj_ok cso (Remove cso vol frn p)" "rows (Remove cso vol frn p) = (rows p)(key_of vol frn := None)"
    "ids_of (Remove cso vol frn p) = (ids_of p)(key_of vol frn := None)"
    "pj_namePool (Remove cso vol frn p) = pj_namePool p" "pj_entries (Remove cso vol frn p) = pj_entries p"
proof -
  let ?k = "key_of vol frn" and ?ids = "ids_of p" and ?es = "pj_entries p"
  note D = proj_okD [OF ok] and er = fm_erase_inv [OF proj_okD(2) [OF ok], of ?k]
  have "proj_ok cso (Remove cso vol frn p) \<and> rows (Remove cso vol frn p) = (rows p)(?k := None)
    \<and> ids_of (Remove cso vol frn p) = ?ids(?k := None)
    \<and> pj_namePool (Remove cso vol frn p) = pj_namePool p \<and> pj_entries (Remove cso vol frn p) = ?es"
  proof (cases "?ids ?k")
    case None
    then show ?thesis using ok by (auto simp: Remove_absent [OF ok] rows_def fun_eq_iff)
  next
    case (Some i)
    note live = live_delete [OF D(3) Some] and i = ids_okD [OF D(3) Some]
    have e: "pe_volumeRowId (EntryAt p i) = vol" using i(2) by (simp add: entry_key_def EntryAt_def)
    have links: "links_ok (?ids(?k := None)) ?es (cm_remove (pj_parentToChildren p) (key_of vol (pe_parentFrn (EntryAt p i))) i)"
      using links_delete [OF D(3) Some D(6,8)] e by (simp add: EntryAt_def)
    have names: "names_ok (?ids(?k := None)) ?es (pj_namePool p)" using D(4) by (simp add: names_ok_def live)
    have free: "free_ok (?ids(?k := None)) ?es (pj_freeList p @ [i])"
      using D(7) i by (auto simp: free_ok_def live)
    have sn: "slot_names (?ids(?k := None)) ?es (pj_namePool p) = (slot_names ?ids ?es (pj_namePool p))(i := None)"
      by (auto simp: slot_names_def live fun_eq_iff)
    have "slot_names ?ids ?es (pj_namePool p) i = Some (Get (pj_namePool p) (pe_nameId (EntryAt p i)))"
      using i(3) by (simp add: slot_names_def entry_name_def EntryAt_def)
    note fx = Remove_ok [OF D(9) this]
    have rem: "Remove cso vol frn p = p\<lparr>pj_denseIterationOrderValid := False,
        pj_filenameIndex := RemoveFilenameIndexEntry cso i (Get (pj_namePool p) (pe_nameId (EntryAt p i))) (pj_filenameIndex p),
        pj_parentToChildren := cm_remove (pj_parentToChildren p) (key_of vol (pe_parentFrn (EntryAt p i))) i,
        pj_idToIndex := id_erase (pj_idToIndex p) ?k, pj_lastAccessTimes := (pj_lastAccessTimes p)[unat i := 0],
        pj_freeList := pj_freeList p @ [i]\<rparr>"
      using i(1) D(5) by (simp add: Remove_def id_find_rows [OF ok] Some Let_def)
    have "proj_ok cso (Remove cso vol frn p)"
      using D(1,5) er live(1) children_remove(1) [OF D(6) links_okD(1) [OF D(8)]] links names free fx
      by (simp add: rem proj_ok_def tables_ok_def sn)
    then show ?thesis using er(2) by (simp add: rem) (simp add: rows_def EntryAt_def fun_eq_iff)
  qed
  then show "proj_ok cso (Remove cso vol frn p)" "rows (Remove cso vol frn p) = (rows p)(?k := None)"
    "ids_of (Remove cso vol frn p) = ?ids(?k := None)"
    "pj_namePool (Remove cso vol frn p) = pj_namePool p" "pj_entries (Remove cso vol frn p) = ?es" by blast+
qed

section \<open>Placing a row\<close>

text \<open>
  Both branches of an upsert place a row into a slot that is not live: a new identity takes a free slot, an update is the
  removal of the old row followed by placing the new one into the same slot. The names of other rows survive because the pool only
  grows.
\<close>

definition placed :: "(EntryKey \<rightharpoonup> u32) \<Rightarrow> ProjectionEntry list \<Rightarrow> u32 \<Rightarrow> ProjectionEntry
     \<Rightarrow> (EntryKey \<rightharpoonup> u32) \<Rightarrow> ProjectionEntry list \<Rightarrow> bool" where
  "placed ids es i e ids' es' \<longleftrightarrow> ids_ok ids es \<and> ids_ok ids' es' \<and> \<not> live_slot ids es i
     \<and> (\<forall>j. live_slot ids' es' j \<longleftrightarrow> j = i \<or> live_slot ids es j)
     \<and> (\<forall>j. live_slot ids es j \<longrightarrow> es' ! unat j = es ! unat j) \<and> es' ! unat i = e
     \<and> ids (entry_key e) = None \<and> ids' = ids(entry_key e \<mapsto> i)"

lemma placedI:
  assumes "ids_ok ids es" "unat i \<le> length es" "\<not> live_slot ids es i" "ids (entry_key e) = None"
    "unat i < length es \<or> length es < 2 ^ 32"
  shows "placed ids es i e (ids(entry_key e \<mapsto> i)) (put_slot i e es)"
proof -
  have "put_slot i e es ! unat j = es ! unat j" if "live_slot ids es j" for j
    using that assms(3) put_slot_nth(3) [OF assms(2), of j e] by (cases "j = i") (auto simp: live_slot_def)
  then show ?thesis
    unfolding placed_def using live_insert [OF assms] put_slot_nth(2) [OF assms(2), of e] assms by blast
qed

lemma placedD:
  assumes "placed ids es i e ids' es'"
  shows "ids_ok ids es" "ids_ok ids' es'" "\<not> live_slot ids es i" "live_slot ids' es' j \<longleftrightarrow> j = i \<or> live_slot ids es j"
    "live_slot ids es j \<Longrightarrow> es' ! unat j = es ! unat j" "es' ! unat i = e"
    "ids (entry_key e) = None" "ids' = ids(entry_key e \<mapsto> i)"
  using assms unfolding placed_def by blast+

lemma placed_links:
  assumes pl: "placed ids es i e ids' es'" and ch: "cm_inv ch" and l: "links_ok ids es ch"
    and r: "link_child (pe_volumeRowId e) rec i ch = Inr ch'" and e: "pe_parentFrn e = er_parentId rec" "pe_frn e = er_id rec"
  shows "cm_inv ch'" "links_ok ids' es' ch'"
proof -
  let ?key = "key_of (pe_volumeRowId e) (pe_parentFrn e)"
  note P = placedD [OF pl]
  have new: "child_of e k \<longleftrightarrow> pe_parentFrn e \<noteq> pe_frn e \<and> k = ?key" for k by (simp add: child_of_def)
  have target: "{j. live_slot ids' es' j \<and> child_of (es' ! unat j) k} =
      {j. live_slot ids es j \<and> child_of (es ! unat j) k} \<union> (if child_of e k then {i} else {})" for k
    using P(3-6) by auto
  have ch': "cm_children ch' k = cm_children ch k @ (if child_of e k then [i] else [])" and inv: "cm_inv ch'" for k
    using r ch children_insert [OF ch, of ?key i ch'] e by (auto simp: link_child_def new split: if_splits)
  show "cm_inv ch'" by (rule inv)
  show "links_ok ids' es' ch'"
    unfolding links_ok_def target using links_okD [OF l] P(3) by (auto simp: ch')
qed

definition pool_grows :: "NamePool \<Rightarrow> NamePool \<Rightarrow> bool" where
  "pool_grows names names' \<longleftrightarrow> (\<forall>j \<in> np_known names. j \<in> np_known names' \<and> Get names' j = Get names j)"

text \<open>A name fits when it is already interned or the pool has room for it.\<close>

definition np_fits :: "NamePool \<Rightarrow> u16string \<Rightarrow> u16string list \<Rightarrow> bool" where
  "np_fits names name later \<longleftrightarrow> np_room names (name # later) \<or> name \<in> set (pool_names names) \<and> np_room names later"

lemma Intern_known:
  assumes inv: "np_inv names" and n: "name \<in> set (pool_names names)" and r: "Intern names name = (i, names')"
  shows "np_inv names'" "np_table names' = np_table names" "np_arena names' = np_arena names" "i \<in> np_known names'" "Get names' i = name"
proof -
  obtain j where j: "j < length (np_table names)" "pool_names names ! j = name" using n by (metis in_set_conv_nth length_pool_names)
  have "j < 2 ^ 32" using j(1) inv by (simp add: np_inv_def)
  then have u: "unat (of_nat j :: u32) = j" by (rule unat_of_nat_u32)
  have "of_nat j \<in> set (np_bucket names (HashName name))" using inv j by (auto simp: np_inv_def)
  then have "find_candidate names name (np_bucket names (HashName name)) \<noteq> None"
    using find_candidate_None [of names name _ "of_nat j"] np_inv_slot [OF inv j(1)] j u by auto
  then obtain c where c: "find_candidate names name (np_bucket names (HashName name)) = Some c" by blast
  note h = Intern_hit [OF inv c r]
  show "np_inv names'" "np_table names' = np_table names" "np_arena names' = np_arena names" using h by simp_all
  show "i \<in> np_known names'" using h by (simp add: np_known_def)
  then show "Get names' i = name" using h by (simp add: Get_known del: pool_names_nth)
qed

lemma Intern_spec:
  assumes "np_inv names" "np_fits names name later" "Intern names name = (i, names')"
  shows "np_inv names'" "np_room names' later" "i \<in> np_known names'" "Get names' i = name" "pool_grows names names'"
proof -
  have "np_inv names' \<and> np_room names' later \<and> i \<in> np_known names' \<and> Get names' i = name \<and> pool_grows names names'"
  proof (cases "np_room names (name # later)")
    case True
    then show ?thesis
      using pool.intern_inv [OF assms(1) True assms(3)] pool.intern_view [OF assms(1) True assms(3)]
        pool.intern_stable [OF assms(1) True assms(3)] by (auto simp: pool_grows_def)
  next
    case False
    then have n: "name \<in> set (pool_names names)" "np_room names later" using assms(2) by (auto simp: np_fits_def)
    then show ?thesis
      using Intern_known [OF assms(1) n(1) assms(3)] by (simp add: np_room_def pool_grows_def np_known_def Get_def)
  qed
  then show "np_inv names'" "np_room names' later" "i \<in> np_known names'" "Get names' i = name" "pool_grows names names'" by blast+
qed

lemma placed_names:
  assumes pl: "placed ids es i e ids' es'" and g: "pool_grows names names'" and n: "names_ok ids es names"
    and e: "pe_nameId e \<in> np_known names'" "pe_nameAsciiLower e = IsAsciiLower (entry_name names' e)"
      "pe_nameIsAscii e = IsAscii (entry_name names' e)"
  shows "names_ok ids' es' names'" "slot_names ids' es' names' = (slot_names ids es names)(i \<mapsto> entry_name names' e)"
proof -
  note P = placedD [OF pl]
  have same: "entry_name names' (es ! unat j) = entry_name names (es ! unat j)" if "live_slot ids es j" for j
    using n g that by (simp add: names_ok_def pool_grows_def entry_name_def)
  show "names_ok ids' es' names'"
    using n g e P(3-6) same by (auto simp: names_ok_def pool_grows_def)
  show "slot_names ids' es' names' = (slot_names ids es names)(i \<mapsto> entry_name names' e)"
    using P(3-6) same by (auto simp: slot_names_def fun_eq_iff)
qed

definition recs_of :: "(EntryKey \<rightharpoonup> u32) \<Rightarrow> ProjectionEntry list \<Rightarrow> NamePool \<Rightarrow> EntryKey \<rightharpoonup> EntryRecord" where
  "recs_of ids es names k = map_option (\<lambda>i. to_record names (es ! unat i)) (ids k)"

lemma rows_recs: "rows p = recs_of (ids_of p) (pj_entries p) (pj_namePool p)"
  by (simp add: rows_def recs_of_def EntryAt_def fun_eq_iff)

lemma placed_recs:
  assumes pl: "placed ids es i e ids' es'" and g: "pool_grows names names'" and n: "names_ok ids es names"
  shows "recs_of ids' es' names' = (recs_of ids es names)(entry_key e \<mapsto> to_record names' e)"
proof
  fix k
  note P = placedD [OF pl]
  have "to_record names' (es' ! unat j) = to_record names (es ! unat j)" if "ids k = Some j" for j
    using ids_okD(3) [OF P(1) that] P(5) [of j] n g by (simp add: to_record_def entry_name_def names_ok_def pool_grows_def)
  then show "recs_of ids' es' names' k = ((recs_of ids es names)(entry_key e \<mapsto> to_record names' e)) k"
    using P(6,8) by (cases "ids k") (auto simp: recs_of_def)
qed

lemma fill_entry_simps [simp]:
  "pe_volumeRowId (fill_entry rec n e) = pe_volumeRowId e" "pe_frn (fill_entry rec n e) = pe_frn e"
  "pe_parentFrn (fill_entry rec n e) = er_parentId rec" "pe_nameId (fill_entry rec n e) = n"
  "pe_nameAsciiLower (fill_entry rec n e) = IsAsciiLower (er_name rec)" "pe_nameIsAscii (fill_entry rec n e) = IsAscii (er_name rec)"
  "entry_key (fill_entry rec n e) = entry_key e" "entry_name names (fill_entry rec n e) = Get names n"
  by (simp_all add: fill_entry_def entry_key_def entry_name_def)

lemma to_record_fill: "pe_frn e = er_id rec \<Longrightarrow> Get names n = er_name rec \<Longrightarrow> to_record names (fill_entry rec n e) = rec"
  by (cases rec) (simp add: to_record_def fill_entry_def entry_name_def)

lemma add_filename_simps [simp]:
  "pj_namePool (add_filename cso i p) = pj_namePool p" "pj_entries (add_filename cso i p) = pj_entries p"
  "pj_freeList (add_filename cso i p) = pj_freeList p" "pj_idToIndex (add_filename cso i p) = pj_idToIndex p"
  "pj_parentToChildren (add_filename cso i p) = pj_parentToChildren p" "pj_lastAccessTimes (add_filename cso i p) = pj_lastAccessTimes p"
  "pj_denseIterationOrderValid (add_filename cso i p) = pj_denseIterationOrderValid p"
  "pj_filenameIndex (add_filename cso i p) =
     AddFilenameIndexEntry cso i (Get (pj_namePool p) (pe_nameId (EntryAt p i))) (pj_filenameIndex p)"
  by (simp_all add: add_filename_def)

lemma update_row_spec:
  assumes ok: "proj_ok cso p" and k: "ids_of p (key_of vol (er_id rec)) = Some i"
    and room: "np_fits (pj_namePool p) (er_name rec) later" and r: "update_row cso vol rec i p = Inr p'"
  shows "proj_ok cso p' \<and> rows p' = (rows p)(key_of vol (er_id rec) \<mapsto> rec) \<and> np_room (pj_namePool p') later
    \<and> length (pj_entries p') = length (pj_entries p)"
proof -
  let ?k = "key_of vol (er_id rec)" and ?ids = "ids_of p" and ?es = "pj_entries p" and ?names = "pj_namePool p" and ?e = "EntryAt p i"
  note D = proj_okD [OF ok] and i = ids_okD [OF proj_okD(3) [OF ok] k]
  obtain n names where int: "Intern ?names (er_name rec) = (n, names)" by fastforce
  note N = Intern_spec [OF D(1) room int]
  let ?e' = "fill_entry rec n ?e" and ?gone = "?ids(?k := None)"
  have e: "entry_key ?e = ?k" using i(2) by (simp add: EntryAt_def)
  then have e_id: "pe_volumeRowId ?e = vol" "pe_frn ?e = er_id rec" by (simp_all add: entry_key_def)
  have ids: "?gone(entry_key ?e' \<mapsto> i) = ?ids" using k e by auto
  have es: "put_slot i ?e' ?es = ?es[unat i := ?e']" using i(1) by (simp add: put_slot_def)
  have pl: "placed ?gone ?es i ?e' ?ids (?es[unat i := ?e'])"
    using placedI [OF live_delete(1) [OF D(3) k], of i ?e'] live_delete(2) [OF D(3) k, of i] i(1) e unfolding ids es by simp
  have n0: "names_ok ?gone ?es ?names" using D(4) live_delete(2) [OF D(3) k] by (simp add: names_ok_def)
  note names = placed_names [OF pl N(5) n0] and recs = placed_recs [OF pl N(5) n0]
  have live: "live_slot ?ids (?es[unat i := ?e']) j \<longleftrightarrow> live_slot ?ids ?es j" for j
    by (rule live_update) (simp add: e i(2))
  obtain ch where ch: "(if pe_parentFrn ?e \<noteq> er_parentId rec
      then link_child vol rec i (cm_remove (pj_parentToChildren p) (key_of vol (pe_parentFrn ?e)) i) else Inr (pj_parentToChildren p)) = Inr ch"
    and p': "p' = add_filename cso i (TouchIndex i (p\<lparr>pj_namePool := names,
        pj_filenameIndex := RemoveFilenameIndexEntry cso i (Get ?names (pe_nameId ?e)) (pj_filenameIndex p),
        pj_parentToChildren := ch, pj_entries := ?es[unat i := ?e']\<rparr>))"
    using r by (auto simp: update_row_def int Let_def RemoveFilenameIndexEntry_def bind_res_def split: sum.splits)
  have links: "cm_inv ch \<and> links_ok ?ids (?es[unat i := ?e']) ch"
  proof (cases "pe_parentFrn ?e = er_parentId rec")
    case True
    then have "child_of (?es[unat i := ?e'] ! unat j) k' = child_of (?es ! unat j) k'" if "unat j < length ?es" for j :: u32 and k'
      using that by (cases "unat i = unat j") (auto simp: child_of_def EntryAt_def)
    then show ?thesis using ch D(6,8) True by (auto simp: links_ok_def live) (auto simp: live_slot_def)
  next
    case False
    note rm = links_delete [OF D(3) k D(6,8) refl] and inv = children_remove(1) [OF D(6) links_okD(1) [OF D(8)]]
    have "link_child (pe_volumeRowId ?e') rec i (cm_remove (pj_parentToChildren p) (key_of vol (pe_parentFrn ?e)) i) = Inr ch"
      using ch False e_id by simp
    from placed_links [OF pl inv _ this] rm e_id show ?thesis by (simp add: EntryAt_def)
  qed
  have "slot_names ?ids ?es ?names i = Some (Get ?names (pe_nameId ?e))"
    using i(3) by (simp add: slot_names_def entry_name_def EntryAt_def)
  from Add_ok [OF Remove_ok [OF D(9) this], of i "er_name rec"]
  have "index_ok cso ((slot_names ?ids ?es ?names)(i \<mapsto> er_name rec)) (AddFilenameIndexEntry cso i (er_name rec)
      (RemoveFilenameIndexEntry cso i (Get ?names (pe_nameId ?e)) (pj_filenameIndex p)))" by simp
  moreover have "slot_names ?ids (?es[unat i := ?e']) names = (slot_names ?ids ?es ?names)(i \<mapsto> er_name rec)"
    using names(2) N(3,4) live_delete(2) [OF D(3) k] by (auto simp: slot_names_def fun_eq_iff)
  moreover have "free_ok ?ids (?es[unat i := ?e']) (pj_freeList p)" using D(7) by (simp add: free_ok_def live)
  moreover have "pe_nameId (EntryAt p' i) = n" using i(1) by (simp add: p' EntryAt_def)
  ultimately have "proj_ok cso p'"
    using links names(1) N D(1,2,5) ids_ok_update [OF D(3), of ?e' i] e ok
    by (simp add: proj_ok_def tables_ok_def p' EntryAt_def i)
  moreover have "rows p' = (rows p)(?k \<mapsto> rec)"
    using recs e to_record_fill [OF e_id(2) N(4)] by (simp add: rows_recs p' recs_of_def fun_eq_iff)
  ultimately show ?thesis using N(2) by (simp add: p')
qed

lemma take_slot_spec:
  assumes ok: "ids_ok ids es" and free: "free_ok ids es (pj_freeList p)" and es: "es = pj_entries p"
    and room: "pj_freeList p \<noteq> [] \<or> length es < 2 ^ 32" and r: "take_slot e p = (i, p')"
  shows "unat i \<le> length es" "\<not> live_slot ids es i" "unat i < length es \<or> length es < 2 ^ 32"
    "p' = p\<lparr>pj_freeList := butlast (pj_freeList p), pj_entries := put_slot i e es\<rparr>"
    "distinct (butlast (pj_freeList p)) \<and> set (butlast (pj_freeList p)) = {j. unat j < length es \<and> j \<noteq> i \<and> \<not> live_slot ids es j}"
proof -
  have "unat i \<le> length es \<and> \<not> live_slot ids es i \<and> (unat i < length es \<or> length es < 2 ^ 32)
    \<and> p' = p\<lparr>pj_freeList := butlast (pj_freeList p), pj_entries := put_slot i e es\<rparr>
    \<and> distinct (butlast (pj_freeList p)) \<and> set (butlast (pj_freeList p)) = {j. unat j < length es \<and> j \<noteq> i \<and> \<not> live_slot ids es j}"
  proof (cases "pj_freeList p = []")
    case True
    then have i: "i = of_nat (length es)" "unat i = length es" using r room unat_of_nat_u32 by (auto simp: take_slot_def es)
    then show ?thesis using True free r room by (auto simp: take_slot_def es put_slot_def free_ok_def live_slot_def)
  next
    case False
    then obtain fs where fs: "pj_freeList p = fs @ [i]" using r by (cases "pj_freeList p" rule: rev_cases) (auto simp: take_slot_def)
    then have "unat i < length es" "\<not> live_slot ids es i" using free by (auto simp: free_ok_def)
    then show ?thesis using fs free r by (auto simp: take_slot_def es put_slot_def free_ok_def)
  qed
  then show "unat i \<le> length es" "\<not> live_slot ids es i" "unat i < length es \<or> length es < 2 ^ 32"
    "p' = p\<lparr>pj_freeList := butlast (pj_freeList p), pj_entries := put_slot i e es\<rparr>"
    "distinct (butlast (pj_freeList p)) \<and> set (butlast (pj_freeList p)) = {j. unat j < length es \<and> j \<noteq> i \<and> \<not> live_slot ids es j}"
    by blast+
qed

lemma reset_time_simps [simp]:
  "pj_namePool (reset_time i p) = pj_namePool p" "pj_entries (reset_time i p) = pj_entries p"
  "pj_freeList (reset_time i p) = pj_freeList p" "pj_idToIndex (reset_time i p) = pj_idToIndex p"
  "pj_parentToChildren (reset_time i p) = pj_parentToChildren p" "pj_filenameIndex (reset_time i p) = pj_filenameIndex p"
  "pj_denseIterationOrderValid (reset_time i p) = pj_denseIterationOrderValid p"
  "length (pj_lastAccessTimes (reset_time i p)) = max (length (pj_lastAccessTimes p)) (Suc (unat i))"
  by (auto simp: reset_time_def Let_def)

lemma insert_row_spec:
  assumes ok: "proj_ok cso p" and k: "ids_of p (key_of vol (er_id rec)) = None"
    and room: "np_fits (pj_namePool p) (er_name rec) later" "pj_freeList p \<noteq> [] \<or> length (pj_entries p) < 2 ^ 32"
    and r: "insert_row cso vol rec p = Inr p'"
  shows "proj_ok cso p' \<and> rows p' = (rows p)(key_of vol (er_id rec) \<mapsto> rec) \<and> np_room (pj_namePool p') later
    \<and> length (pj_entries p') \<le> Suc (length (pj_entries p))"
proof -
  let ?k = "key_of vol (er_id rec)" and ?ids = "ids_of p" and ?es = "pj_entries p" and ?names = "pj_namePool p"
  note D = proj_okD [OF ok]
  obtain n names where int: "Intern ?names (er_name rec) = (n, names)" by fastforce
  note N = Intern_spec [OF D(1) room(1) int]
  obtain e where e_def: "e = fill_entry rec n (default_entry\<lparr>pe_volumeRowId := vol, pe_frn := er_id rec\<rparr>)" by simp
  then have e: "entry_key e = ?k" "pe_volumeRowId e = vol" "pe_frn e = er_id rec" "pe_parentFrn e = er_parentId rec" "pe_nameId e = n"
    "entry_name names e = er_name rec" "pe_nameAsciiLower e = IsAsciiLower (er_name rec)" "pe_nameIsAscii e = IsAscii (er_name rec)"
    "to_record names e = rec"
    using N(4) to_record_fill [of _ rec names n] by (simp_all add: entry_key_def)
  let ?p1 = "p\<lparr>pj_namePool := names, pj_denseIterationOrderValid := False\<rparr>"
  obtain i p2 where tk: "take_slot e ?p1 = (i, p2)" by fastforce
  have fr: "free_ok ?ids ?es (pj_freeList ?p1)" "?es = pj_entries ?p1" "pj_freeList ?p1 \<noteq> [] \<or> length ?es < 2 ^ 32"
    using D(7) room(2) by simp_all
  note T = take_slot_spec [OF D(3) fr tk]
  let ?ids' = "?ids(?k \<mapsto> i)" and ?es' = "put_slot i e ?es"
  have pl: "placed ?ids ?es i e ?ids' ?es'" using placedI [OF D(3) T(1,2), of e] T(3) k e(1) by simp
  note names = placed_names [OF pl N(5) D(4)] and recs = placed_recs [OF pl N(5) D(4)]
  obtain ids ch where ids: "id_insert (pj_idToIndex p) ?k i = Inr ids" and ch: "link_child vol rec i (pj_parentToChildren p) = Inr ch"
    and p': "p' = add_filename cso i (TouchIndex i ((reset_time i p2)\<lparr>pj_idToIndex := ids, pj_parentToChildren := ch\<rparr>))"
    using r unfolding insert_row_def int Let_def prod.case e_def [symmetric] tk
    by (auto simp: T(4) bind_res_def split: sum.splits)
  have map: "fm_inv EntryKeyHash ids" "fm_map ids = ?ids'" using fmap.upd_inv [OF D(2) ids] fmap.upd_map [OF D(2) ids] by blast+
  note len = put_slot_nth(1) [OF T(1), of e] and links = placed_links [OF pl D(6,8) _ e(4,3), unfolded e(2), OF ch]
  have "unat j < length ?es' \<and> j \<noteq> i \<longleftrightarrow> unat j < length ?es \<and> j \<noteq> i" for j
    using T(1) unfolding len word_unat_eq_iff by linarith
  then have "free_ok ?ids' ?es' (butlast (pj_freeList p))" using T(5) by (auto simp: free_ok_def placedD(4) [OF pl])
  moreover have "index_ok cso (slot_names ?ids' ?es' names) (AddFilenameIndexEntry cso i (er_name rec) (pj_filenameIndex p))"
    using Add_ok [OF D(9), of i "er_name rec"] T(2) names(2) N(3) e by (simp add: slot_names_def [of ?ids])
  moreover have "pe_nameId (EntryAt p' i) = n" using placedD(6) [OF pl] e by (simp add: p' EntryAt_def T(4))
  ultimately have "proj_ok cso p'"
    using links names(1) N D(5) map placedD(2) [OF pl] len e placedD(6) [OF pl]
    by (simp add: proj_ok_def tables_ok_def p' EntryAt_def T(4))
  moreover have "rows p' = (rows p)(?k \<mapsto> rec)" using recs e by (simp add: rows_recs p' map T(4))
  ultimately show ?thesis using N(2) len T(1) by (simp add: p' T(4))
qed

section \<open>Upserts as map updates\<close>

definition room_for :: "Projection \<Rightarrow> u16string list \<Rightarrow> bool" where
  "room_for p names \<longleftrightarrow> np_room (pj_namePool p) names \<and> length (pj_entries p) + length names \<le> 2 ^ 32"

lemma Upsert_spec:
  assumes ok: "proj_ok cso p" and fits: "np_fits (pj_namePool p) (er_name rec) later" and len: "length (pj_entries p) + Suc (length later) \<le> 2 ^ 32"
  shows "case Upsert cso vol rec p of Inl err \<Rightarrow> err \<noteq> out_of_range
    | Inr p' \<Rightarrow> proj_ok cso p' \<and> rows p' = (rows p)(key_of vol (er_id rec) \<mapsto> rec) \<and> room_for p' later"
proof (cases "Upsert cso vol rec p")
  case (Inl err)
  have bad: "link_child vol rec i ch \<noteq> Inl out_of_range" if "cm_inv ch" for i ch
    using cm_insert_spec [OF that, of "key_of vol (er_parentId rec)" i] by (auto simp: link_child_def)
  note D = proj_okD [OF ok]
  have rm: "cm_inv (cm_remove (pj_parentToChildren p) key i)" for key i using children_remove(1) [OF D(6) links_okD(1) [OF D(8)]] .
  show ?thesis
  proof (cases "ids_of p (key_of vol (er_id rec))")
    case None
    then have "insert_row cso vol rec p = Inl err" using Inl by (simp add: Upsert_def id_find_rows [OF ok])
    then show ?thesis
      using bad [OF D(6)] fmap.upd_bad [OF D(2)]
      by (auto simp: Inl insert_row_def take_slot_def Let_def bind_res_def split: sum.splits prod.splits if_splits)
  next
    case (Some i)
    then have "update_row cso vol rec i p = Inl err" using Inl by (simp add: Upsert_def id_find_rows [OF ok])
    then show ?thesis using bad [OF rm] by (auto simp: Inl update_row_def Let_def bind_res_def split: sum.splits prod.splits if_splits)
  qed
next
  case (Inr p')
  show ?thesis
  proof (cases "ids_of p (key_of vol (er_id rec))")
    case None
    then have "insert_row cso vol rec p = Inr p'" using Inr by (simp add: Upsert_def id_find_rows [OF ok])
    from insert_row_spec [OF ok None fits _ this] len Inr show ?thesis by (auto simp: room_for_def)
  next
    case (Some i)
    then have "update_row cso vol rec i p = Inr p'" using Inr by (simp add: Upsert_def id_find_rows [OF ok])
    from update_row_spec [OF ok Some fits this] len Inr show ?thesis by (auto simp: room_for_def)
  qed
qed

text \<open>What a partial update promises: present fields from the update, absent ones from the row, or zero without one.\<close>

definition blank_record :: "FileId \<Rightarrow> EntryRecord" where
  "blank_record i = \<lparr>er_id = i, er_parentId = default_FileId, er_name = [], er_sizeBytes = 0, er_allocatedSizeBytes = 0,
     er_allocatedSizeKnown = False, er_creationTime = 0, er_lastModifiedTime = 0, er_lastAccessTime = 0, er_attributes = 0\<rparr>"

definition merge_record :: "EntryFieldMask \<Rightarrow> EntryRecord \<Rightarrow> EntryRecord option \<Rightarrow> EntryRecord" where
  "merge_record fs rec old =
     (let o' = (case old of None \<Rightarrow> blank_record (er_id rec) | Some r \<Rightarrow> r); has = HasEntryField fs
      in \<lparr>er_id = er_id rec,
          er_parentId = er_parentId (if has kEntryFieldParentId then rec else o'),
          er_name = er_name (if has kEntryFieldName then rec else o'),
          er_sizeBytes = er_sizeBytes (if has kEntryFieldSizeBytes then rec else o'),
          er_allocatedSizeBytes = er_allocatedSizeBytes (if has kEntryFieldAllocatedSizeBytes then rec else o'),
          er_allocatedSizeKnown = er_allocatedSizeKnown (if has kEntryFieldAllocatedSizeBytes then rec else o'),
          er_creationTime = er_creationTime (if has kEntryFieldCreationTime then rec else o'),
          er_lastModifiedTime = er_lastModifiedTime (if has kEntryFieldLastModifiedTime then rec else o'),
          er_lastAccessTime = er_lastAccessTime (if has kEntryFieldLastAccessTime then rec else o'),
          er_attributes = er_attributes (if has kEntryFieldAttributes then rec else o')\<rparr>)"

lemma merge_all: "merge_record kEntryFieldMaskAll rec old = rec"
  by (simp add: merge_record_def)

lemma merge_record_simps:
  "er_id (merge_record fs rec old) = er_id rec"
  "er_name (merge_record fs rec old) =
     (if HasEntryField fs kEntryFieldName then er_name rec else case old of None \<Rightarrow> [] | Some r \<Rightarrow> er_name r)"
  by (simp_all add: merge_record_def Let_def blank_record_def split: option.split)

lemma merged_eq:
  assumes "map_option (to_record names) existing = old"
  shows "clear_absent fs (existing = None) (overlay fs rec
     (case existing of None \<Rightarrow> rec | Some e \<Rightarrow> keep_existing names e rec)) = merge_record fs rec old"
proof (cases existing)
  case None
  then have "old = None" using assms by simp
  then show ?thesis using None
    by (intro EntryRecord.equality) (simp_all add: clear_absent_def overlay_def merge_record_def blank_record_def Let_def)
next
  case (Some e)
  then have "old = Some (to_record names e)" using assms by simp
  then show ?thesis using Some
    by (intro EntryRecord.equality)
      (simp_all add: clear_absent_def overlay_def merge_record_def keep_existing_def to_record_def entry_name_def Let_def)
qed

lemma merged_fits:
  assumes "proj_ok cso p" "np_room (pj_namePool p) (er_name rec # later)" "rows p k = old"
  shows "np_fits (pj_namePool p) (er_name (merge_record fs rec old)) later"
proof (cases old)
  case None
  then show ?thesis using assms(2) by (auto simp: merge_record_simps np_fits_def np_room_def)
next
  case (Some o')
  then obtain i where i: "ids_of p k = Some i" "o' = to_record (pj_namePool p) (EntryAt p i)" using assms(3) by (auto simp: rows_def)
  then have "pe_nameId (EntryAt p i) \<in> np_known (pj_namePool p)"
    using proj_okD(3,4) [OF assms(1)] ids_okD(3) by (auto simp: names_ok_def EntryAt_def)
  then have "er_name o' \<in> set (pool_names (pj_namePool p))"
    using i(2) nth_mem by (auto simp: to_record_def entry_name_def Get_known np_known_def simp del: pool_names_nth)
  then show ?thesis using assms(2) Some by (auto simp: merge_record_simps np_fits_def np_room_def)
qed

lemma UpsertPartial_spec:
  assumes ok: "proj_ok cso p" and room: "room_for p (er_name rec # later)" and k: "k = key_of vol (er_id rec)"
  shows "case UpsertPartial cso vol rec fs p of Inl err \<Rightarrow> err \<noteq> out_of_range
    | Inr p' \<Rightarrow> proj_ok cso p' \<and> rows p' = (rows p)(k \<mapsto> merge_record fs rec (rows p k)) \<and> room_for p' later"
proof (cases "fs = kEntryFieldMaskAll")
  case True
  then show ?thesis
    unfolding True merge_all k using Upsert_spec [OF ok, of rec later vol] room by (simp add: UpsertPartial_def room_for_def np_fits_def)
next
  case False
  obtain r p1 where f: "Find vol (er_id rec) p = (r, p1)" by fastforce
  note F = Find_rows [OF ok f]
  have es: "pj_entries p1 = pj_entries p" using f by (auto simp: Find_def split: option.splits)
  let ?rec = "merge_record fs rec (rows p k)"
  have "UpsertPartial cso vol rec fs p = Upsert cso vol ?rec p1"
    using False merged_eq [OF F(1), of fs rec] unfolding UpsertPartial_def f prod.case Let_def F(4) k by simp
  moreover have "er_id ?rec = er_id rec" by (simp add: merge_record_simps)
  moreover have "np_fits (pj_namePool p1) (er_name ?rec) later"
    using merged_fits [OF ok _ refl, of rec later fs k] room F(4) by (simp add: room_for_def)
  ultimately show ?thesis
    using Upsert_spec [OF F(2), of ?rec later vol] room es unfolding F(3) k merge_record_simps(1) by (simp add: room_for_def [of p])
qed

section \<open>The accelerator and batch removal\<close>

lemma fm_entries_iff:
  assumes "fm_inv hasher m"
  shows "(k, v) \<in> set (fm_entries m) \<longleftrightarrow> fm_map m k = Some v"
  using distinct_fm_entries [OF assms] by (simp add: fm_map_def)

lemma slot_rows:
  assumes "proj_ok cso p"
  defines "xs \<equiv> map (\<lambda>(key, index). (index, Get (pj_namePool p) (pe_nameId (EntryAt p index)))) (fm_entries (pj_idToIndex p))"
  shows "distinct (map fst xs)" "map_of xs = slot_names (ids_of p) (pj_entries p) (pj_namePool p)"
proof -
  note D = proj_okD [OF assms(1)] and iff = fm_entries_iff [OF proj_okD(2) [OF assms(1)]]
  have "inj_on snd (set (fm_entries (pj_idToIndex p)))"
    using iff ids_okD(2) [OF D(3)] by (auto simp: inj_on_def) metis+
  moreover have "map fst xs = map snd (fm_entries (pj_idToIndex p))" by (auto simp: xs_def)
  ultimately show d: "distinct (map fst xs)" using distinct_fm_entries [OF D(2)] by (simp add: distinct_map)
  have "map_of xs i = Some n \<longleftrightarrow> slot_names (ids_of p) (pj_entries p) (pj_namePool p) i = Some n" for i n
  proof -
    have "map_of xs i = Some n \<longleftrightarrow> (i, n) \<in> set xs" using d by (rule map_of_eq_Some_iff)
    also have "\<dots> \<longleftrightarrow> (\<exists>k. ids_of p k = Some i) \<and> n = entry_name (pj_namePool p) (pj_entries p ! unat i)"
      by (force simp: xs_def iff entry_name_def EntryAt_def)
    finally show ?thesis by (auto simp: slot_names_def live_slot_iff [OF D(3)])
  qed
  then show "map_of xs = slot_names (ids_of p) (pj_entries p) (pj_namePool p)" by (metis ext not_Some_eq)
qed

lemma filenames_ok:
  assumes "proj_ok cso p"
  shows "proj_ok cso (invalidate_filenames p)" "proj_ok cso (rebuild_filenames cso p)"
    "rows (invalidate_filenames p) = rows p" "rows (rebuild_filenames cso p) = rows p"
    "ids_of (invalidate_filenames p) = ids_of p" "ids_of (rebuild_filenames cso p) = ids_of p"
    "fx_valid (pj_filenameIndex (rebuild_filenames cso p))"
proof -
  note S = slot_rows [OF assms] and R = Rebuild_ok [OF slot_rows(1) [OF assms]]
  have "\<not> fx_building (pj_filenameIndex p)" using proj_okD(9) [OF assms] by (simp add: index_ok_def)
  then show "proj_ok cso (invalidate_filenames p)"
    using assms by (simp add: proj_ok_def tables_ok_def invalidate_filenames_def Invalidate_ok)
  show "proj_ok cso (rebuild_filenames cso p)"
    using assms R unfolding S(2) by (simp add: proj_ok_def tables_ok_def rebuild_filenames_def)
  show "rows (invalidate_filenames p) = rows p" "rows (rebuild_filenames cso p) = rows p"
    "ids_of (invalidate_filenames p) = ids_of p" "ids_of (rebuild_filenames cso p) = ids_of p"
    "fx_valid (pj_filenameIndex (rebuild_filenames cso p))"
    using R by (simp_all add: rows_recs invalidate_filenames_def rebuild_filenames_def)
qed

lemma Remove_fold:
  "proj_ok cso p \<Longrightarrow> proj_ok cso (fold (Remove cso vol) frns p)
     \<and> rows (fold (Remove cso vol) frns p) = rows p |` (- key_of vol ` set frns)
     \<and> ids_of (fold (Remove cso vol) frns p) = ids_of p |` (- key_of vol ` set frns)"
proof (induction frns arbitrary: p)
  case (Cons f fs)
  note R = Remove_spec [OF Cons.prems, of vol f]
  then show ?case using Cons.IH [OF R(1)] unfolding R(2,3) by (auto simp: restrict_map_def fun_eq_iff)
qed (simp add: restrict_map_def)

lemma RemoveBatch_spec:
  assumes ok: "proj_ok cso p"
  shows "proj_ok cso (RemoveBatch cso vol frns keep p)"
    "rows (RemoveBatch cso vol frns keep p) = rows p |` (- key_of vol ` set frns)"
    "ids_of (RemoveBatch cso vol frns keep p) = ids_of p |` (- key_of vol ` set frns)"
    "frns \<noteq> [] \<Longrightarrow> \<not> keep \<Longrightarrow> \<not> fx_valid (pj_filenameIndex (RemoveBatch cso vol frns keep p))"
proof -
  let ?p1 = "if length frns > kPerEntryFilenameRemovalThreshold \<and> fx_valid (pj_filenameIndex p) then invalidate_filenames p else p"
  have p1: "proj_ok cso ?p1" "rows ?p1 = rows p" "ids_of ?p1 = ids_of p" using ok filenames_ok [OF ok] by auto
  note F = Remove_fold [OF p1(1), of vol frns]
  then show "proj_ok cso (RemoveBatch cso vol frns keep p)"
    "rows (RemoveBatch cso vol frns keep p) = rows p |` (- key_of vol ` set frns)"
    "ids_of (RemoveBatch cso vol frns keep p) = ids_of p |` (- key_of vol ` set frns)"
    using p1 filenames_ok filenames_ok(1) [OF filenames_ok(2)] ok by (auto simp: RemoveBatch_def Let_def restrict_map_def)
  show "frns \<noteq> [] \<Longrightarrow> \<not> keep \<Longrightarrow> \<not> fx_valid (pj_filenameIndex (RemoveBatch cso vol frns keep p))"
    by (simp add: RemoveBatch_def Let_def invalidate_filenames_def InvalidateFilenameIndex_def)
qed

lemma RemoveVolume_spec:
  assumes ok: "proj_ok cso p"
  shows "proj_ok cso (RemoveVolume cso vol keep p)"
    "rows (RemoveVolume cso vol keep p) = rows p |` {k. ek_volumeRowId k \<noteq> vol}"
proof -
  let ?frns = "map (\<lambda>(key, index). ek_frn key) (filter (\<lambda>(key, index). ek_volumeRowId key = vol) (fm_entries (pj_idToIndex p)))"
  have "f \<in> set ?frns \<longleftrightarrow> ids_of p (key_of vol f) \<noteq> None" for f
  proof -
    have "f \<in> set ?frns \<longleftrightarrow> (\<exists>k i. ids_of p k = Some i \<and> ek_volumeRowId k = vol \<and> ek_frn k = f)"
      by (auto simp: fm_entries_iff [OF proj_okD(2) [OF ok]] image_iff)
    moreover have "ek_volumeRowId k = vol \<and> ek_frn k = f \<longleftrightarrow> k = key_of vol f" for k by (cases k) auto
    ultimately show ?thesis by (simp only: ex_simps) auto
  qed
  then have "k \<in> key_of vol ` set ?frns \<longleftrightarrow> ids_of p k \<noteq> None \<and> ek_volumeRowId k = vol" for k
    by (cases k) (auto simp: image_iff simp del: set_map set_filter)
  then have "rows p |` (- key_of vol ` set ?frns) = rows p |` {k. ek_volumeRowId k \<noteq> vol}"
    by (simp add: fun_eq_iff restrict_map_def rows_def del: set_map set_filter)
  then show "proj_ok cso (RemoveVolume cso vol keep p)"
    "rows (RemoveVolume cso vol keep p) = rows p |` {k. ek_volumeRowId k \<noteq> vol}"
    using RemoveBatch_spec(1-3) [OF ok, of vol ?frns keep] unfolding RemoveVolume_def by auto
qed

section \<open>Sequences of changes\<close>

text \<open>
  The contract that ingestion relies on: an upsert merges a change into the row of its key, a removal drops the row, and
  both keep the invariant. A change is \<open>Inl\<close> an upsert or \<open>Inr\<close> the key to remove.
\<close>

fun run_changes :: "('c \<Rightarrow> 'p \<Rightarrow> 'e + 'p) \<Rightarrow> ('k \<Rightarrow> 'p \<Rightarrow> 'p) \<Rightarrow> ('c + 'k) list \<Rightarrow> 'p \<Rightarrow> 'e + 'p" where
  "run_changes put del [] p = Inr p"
| "run_changes put del (Inl c # cs) p = bind_res (put c p) (run_changes put del cs)"
| "run_changes put del (Inr k # cs) p = run_changes put del cs (del k p)"

fun spec_changes :: "('c \<Rightarrow> 'k) \<Rightarrow> ('c \<Rightarrow> 'r option \<Rightarrow> 'r) \<Rightarrow> ('c + 'k) list \<Rightarrow> ('k \<rightharpoonup> 'r) \<Rightarrow> ('k \<rightharpoonup> 'r)" where
  "spec_changes key merge [] f = f"
| "spec_changes key merge (Inl c # cs) f = spec_changes key merge cs (f(key c \<mapsto> merge c (f (key c))))"
| "spec_changes key merge (Inr k # cs) f = spec_changes key merge cs (f(k := None))"

fun change_names :: "('c \<Rightarrow> 'n) \<Rightarrow> ('c + 'k) list \<Rightarrow> 'n list" where
  "change_names name [] = []"
| "change_names name (Inl c # cs) = name c # change_names name cs"
| "change_names name (Inr k # cs) = change_names name cs"

locale row_table =
  fixes invar :: "'p \<Rightarrow> bool"
    and room :: "'p \<Rightarrow> 'n list \<Rightarrow> bool"
    and content :: "'p \<Rightarrow> 'k \<rightharpoonup> 'r"
    and put :: "'c \<Rightarrow> 'p \<Rightarrow> 'e + 'p"
    and del :: "'k \<Rightarrow> 'p \<Rightarrow> 'p"
    and key :: "'c \<Rightarrow> 'k"
    and name :: "'c \<Rightarrow> 'n"
    and merge :: "'c \<Rightarrow> 'r option \<Rightarrow> 'r"
    and bad :: 'e
  assumes put_spec: "invar p \<Longrightarrow> room p (name c # later) \<Longrightarrow> case put c p of Inl e \<Rightarrow> e \<noteq> bad
      | Inr p' \<Rightarrow> invar p' \<and> content p' = (content p)(key c \<mapsto> merge c (content p (key c))) \<and> room p' later"
    and del_spec: "invar p \<Longrightarrow> invar (del k p) \<and> content (del k p) = (content p)(k := None)"
    and del_room: "invar p \<Longrightarrow> room p later \<Longrightarrow> room (del k p) later"
begin

lemma run_changes_spec:
  "invar p \<Longrightarrow> room p (change_names name cs @ later) \<Longrightarrow> case run_changes put del cs p of Inl e \<Rightarrow> e \<noteq> bad
     | Inr p' \<Rightarrow> invar p' \<and> content p' = spec_changes key merge cs (content p) \<and> room p' later"
proof (induction cs arbitrary: p)
  case (Cons x cs)
  show ?case
  proof (cases x)
    case (Inl c)
    then have r: "room p (name c # change_names name cs @ later)" using Cons.prems(2) by simp
    note P = put_spec [OF Cons.prems(1) r]
    show ?thesis
    proof (cases "put c p")
      case (Inr p1)
      then have p1: "invar p1" "room p1 (change_names name cs @ later)"
        "content p1 = (content p)(key c \<mapsto> merge c (content p (key c)))" using P by simp_all
      show ?thesis using Cons.IH [OF p1(1,2)] unfolding p1(3) \<open>x = Inl c\<close> spec_changes.simps by (simp add: Inr)
    qed (use P Inl in simp)
  next
    case (Inr k)
    then have p1: "invar (del k p)" "room (del k p) (change_names name cs @ later)" "content (del k p) = (content p)(k := None)"
      using del_spec [OF Cons.prems(1), of k] del_room [OF Cons.prems(1), of "change_names name cs @ later" k] Cons.prems(2) by simp_all
    show ?thesis using Cons.IH [OF p1(1,2)] unfolding p1(3) Inr spec_changes.simps by simp
  qed
qed simp

end

abbreviation put_change :: "ordinal \<Rightarrow> VolumeRowId \<times> EntryRecord \<times> EntryFieldMask \<Rightarrow> Projection \<Rightarrow> MapError + Projection" where
  "put_change cso \<equiv> \<lambda>(vol, rec, fs). UpsertPartial cso vol rec fs"

abbreviation drop_change :: "ordinal \<Rightarrow> EntryKey \<Rightarrow> Projection \<Rightarrow> Projection" where
  "drop_change cso k \<equiv> Remove cso (ek_volumeRowId k) (ek_frn k)"

abbreviation change_key :: "VolumeRowId \<times> EntryRecord \<times> EntryFieldMask \<Rightarrow> EntryKey" where
  "change_key \<equiv> \<lambda>(vol, rec, fs). key_of vol (er_id rec)"

abbreviation change_merge :: "VolumeRowId \<times> EntryRecord \<times> EntryFieldMask \<Rightarrow> EntryRecord option \<Rightarrow> EntryRecord" where
  "change_merge \<equiv> \<lambda>(vol, rec, fs). merge_record fs rec"

abbreviation change_name :: "VolumeRowId \<times> EntryRecord \<times> EntryFieldMask \<Rightarrow> u16string" where
  "change_name \<equiv> \<lambda>(vol, rec, fs). er_name rec"

interpretation row_store: row_table "proj_ok cso" room_for rows "put_change cso" "drop_change cso"
  change_key change_name change_merge out_of_range
  for cso
proof
  fix p :: Projection and c :: "VolumeRowId \<times> EntryRecord \<times> EntryFieldMask" and later k
  assume ok: "proj_ok cso p"
  obtain vol rec fs where c: "c = (vol, rec, fs)" by (cases c)
  show "case put_change cso c p of Inl e \<Rightarrow> e \<noteq> out_of_range | Inr p' \<Rightarrow> proj_ok cso p' \<and>
      rows p' = (rows p)(change_key c \<mapsto> change_merge c (rows p (change_key c))) \<and> room_for p' later"
    if "room_for p (change_name c # later)"
    using UpsertPartial_spec [OF ok, of rec later _ vol fs] that unfolding c prod.case by blast
  have k: "key_of (ek_volumeRowId k) (ek_frn k) = k" by simp
  show "proj_ok cso (drop_change cso k p) \<and> rows (drop_change cso k p) = (rows p)(k := None)"
    using Remove_spec(1,2) [OF ok, of "ek_volumeRowId k" "ek_frn k"] unfolding k by blast
  show "room_for (drop_change cso k p) later" if "room_for p later"
    using that Remove_spec(4,5) [OF ok, of "ek_volumeRowId k" "ek_frn k"] by (simp add: room_for_def)
qed

lemma new_room: "sum_list (map length names) < 2 ^ 32 \<Longrightarrow> length names \<le> 2 ^ 32 \<Longrightarrow> room_for new_projection names"
  by (simp add: room_for_def new_projection_def np_room_def np_empty_def)

lemma Child_rows:
  assumes ok: "proj_ok cso p"
  shows "distinct (fst (ChildIndices vol frn p))"
    "(\<lambda>i. entry_key (EntryAt p i)) ` set (fst (ChildIndices vol frn p)) =
       {k. \<exists>r. rows p k = Some r \<and> ek_volumeRowId k = vol \<and> er_parentId r = frn \<and> er_id r \<noteq> frn}"
proof -
  let ?k = "key_of vol frn"
  note D = proj_okD [OF ok]
  have c: "fst (ChildIndices vol frn p) = cm_children (pj_parentToChildren p) ?k"
    using cm_find_eq [OF D(6), of ?k] by (simp add: ChildIndices_def Let_def split: option.split)
  show "distinct (fst (ChildIndices vol frn p))" using c links_okD(1) [OF D(8)] by simp
  show "(\<lambda>i. entry_key (EntryAt p i)) ` set (fst (ChildIndices vol frn p)) =
       {k. \<exists>r. rows p k = Some r \<and> ek_volumeRowId k = vol \<and> er_parentId r = frn \<and> er_id r \<noteq> frn}" (is "?L = ?R")
  proof (intro set_eqI iffI)
    fix k assume "k \<in> ?L"
    then obtain i where "live_slot (ids_of p) (pj_entries p) i" "child_of (EntryAt p i) ?k" "k = entry_key (EntryAt p i)"
      unfolding c links_okD(2) [OF D(8)] by (auto simp: EntryAt_def)
    then show "k \<in> ?R" by (auto simp: live_slot_def rows_def EntryAt_def child_of_def entry_key_def to_record_def)
  next
    fix k assume "k \<in> ?R"
    then obtain i where i: "ids_of p k = Some i" "ek_volumeRowId k = vol" "pe_parentFrn (EntryAt p i) = frn" "pe_frn (EntryAt p i) \<noteq> frn"
      by (auto simp: rows_def to_record_def)
    then have "live_slot (ids_of p) (pj_entries p) i" "entry_key (EntryAt p i) = k" using ids_okD [OF D(3) i(1)] by (simp_all add: EntryAt_def)
    then have "i \<in> set (fst (ChildIndices vol frn p))" "k = entry_key (EntryAt p i)"
      unfolding c links_okD(2) [OF D(8)] using i by (auto simp: child_of_def entry_key_def EntryAt_def)
    then show "k \<in> ?L" by blast
  qed
qed

section \<open>Properties\<close>

abbreviation apply_changes :: "ordinal \<Rightarrow> (VolumeRowId \<times> EntryRecord \<times> EntryFieldMask + EntryKey) list \<Rightarrow> Projection \<Rightarrow> MapError + Projection" where
  "apply_changes cso \<equiv> run_changes (put_change cso) (drop_change cso)"

abbreviation expected_rows :: "(VolumeRowId \<times> EntryRecord \<times> EntryFieldMask + EntryKey) list \<Rightarrow> EntryKey \<rightharpoonup> EntryRecord" where
  "expected_rows cs \<equiv> spec_changes change_key change_merge cs Map.empty"

text \<open>Changes whose names and rows stay within the 32 bit indices of a new projection.\<close>

definition fits_new :: "(VolumeRowId \<times> EntryRecord \<times> EntryFieldMask + EntryKey) list \<Rightarrow> bool" where
  "fits_new cs \<longleftrightarrow> sum_list (map length (change_names change_name cs)) < 2 ^ 32 \<and> length (change_names change_name cs) \<le> 2 ^ 32"

lemma apply_changes_spec:
  assumes "fits_new cs"
  shows "case apply_changes cso cs new_projection of Inl e \<Rightarrow> e \<noteq> out_of_range
     | Inr p \<Rightarrow> proj_ok cso p \<and> rows p = expected_rows cs"
  using row_store.run_changes_spec [OF new_projection_ok(1) [of cso], where cs = cs and later = "[]"]
    new_room [of "change_names change_name cs"] assms
  by (auto simp: fits_new_def new_projection_ok(2) split: sum.splits)

text \<open>
  C3. The projection implements a map from identities to records. After any sequence of partial upserts and removals on
  a new projection, within its 32 bit indices, that returns: \<open>Find\<close> answers the record that the sequence leaves for
  the identity, each partial update merged field by field into the row before it; \<open>ChildIndices\<close> lists exactly the
  rows whose parent is the given directory, each once, a volume root not under itself; and the entry
  count is the number of rows. A sequence that does not return ended in a C++ exception of a hash table, never in
  an access past the end of an array.
\<close>

theorem Projection_refines_map:
  assumes "fits_new cs"
  shows "case apply_changes cso cs new_projection of Inl e \<Rightarrow> e = length_error \<or> e = runtime_error
     | Inr p \<Rightarrow> (\<forall>vol frn. map_option (to_record (pj_namePool p)) (fst (Find vol frn p)) = expected_rows cs (key_of vol frn)
          \<and> distinct (fst (ChildIndices vol frn p))
          \<and> (\<lambda>i. entry_key (EntryAt p i)) ` set (fst (ChildIndices vol frn p)) =
              {k. \<exists>r. expected_rows cs k = Some r \<and> ek_volumeRowId k = vol \<and> er_parentId r = frn \<and> er_id r \<noteq> frn})
        \<and> fm_count (pj_idToIndex p) = card (dom (expected_rows cs))"
proof (cases "apply_changes cso cs new_projection")
  case (Inl e)
  then show ?thesis using apply_changes_spec [OF assms, of cso] by (cases e) auto
next
  case (Inr p)
  then have p: "proj_ok cso p" "rows p = expected_rows cs" using apply_changes_spec [OF assms, of cso] by simp_all
  have find: "map_option (to_record (pj_namePool p)) (fst (Find vol frn p)) = rows p (key_of vol frn)" for vol frn
    using Find_rows(1) [OF p(1), of vol frn] by (metis prod.collapse)
  have "dom (rows p) = dom (ids_of p)" by (auto simp: rows_def)
  then have "fm_count (pj_idToIndex p) = card (dom (rows p))" using fm_map_dom_count [OF proj_okD(2) [OF p(1)]] by simp
  then show ?thesis using find Child_rows [OF p(1)] unfolding Inr sum.case p(2) by blast
qed

text \<open>
  C4. Searching by name loses nothing. After any such sequence, when the filename accelerator offers candidates for
  the fold of an ASCII needle, every row whose name contains the needle under the platform's ordinal comparison is
  among them, names that reach ASCII only through other code units included, and every candidate is a live row.
\<close>

theorem Projection_candidates_complete:
  assumes "ascii_ordinal cso" "unitwise_ordinal cso" "fits_new cs" "apply_changes cso cs new_projection = Inr p"
    "IsAscii needle" "FilenameCandidateIndices (pj_filenameIndex p) (FoldAscii needle) maximumCandidates = Some slots"
  shows "{k. \<exists>r. expected_rows cs k = Some r \<and> OrdinalContains16 cso (er_name r) needle}
      \<subseteq> (\<lambda>i. entry_key (EntryAt p i)) ` set slots
    \<and> (\<lambda>i. entry_key (EntryAt p i)) ` set slots \<subseteq> dom (expected_rows cs)
    \<and> (maximumCandidates \<noteq> 0 \<longrightarrow> length slots \<le> maximumCandidates)"
proof -
  have p: "proj_ok cso p" "rows p = expected_rows cs" using apply_changes_spec [OF assms(3), of cso] assms(4) by simp_all
  let ?names = "slot_names (ids_of p) (pj_entries p) (pj_namePool p)"
  note D = proj_okD [OF p(1)] and C = candidates_complete [OF assms(1,2) proj_okD(9) [OF p(1)] assms(5,6)]
  have hit: "k \<in> (\<lambda>i. entry_key (EntryAt p i)) ` set slots"
    if r: "rows p k = Some r" "OrdinalContains16 cso (er_name r) needle" for k r
  proof -
    obtain i where i: "ids_of p k = Some i" "r = to_record (pj_namePool p) (EntryAt p i)" using r(1) by (auto simp: rows_def)
    note I = ids_okD [OF D(3) i(1)]
    have "?names i = Some (er_name r)" using I(3) i(2) by (simp add: slot_names_def to_record_def EntryAt_def)
    then have "i \<in> set slots" using C r(2) by blast
    then show ?thesis using I(2) by (force simp: EntryAt_def)
  qed
  moreover have "entry_key (EntryAt p i) \<in> dom (rows p)" if "i \<in> set slots" for i
  proof -
    have "i \<in> dom ?names" using C that by blast
    then show ?thesis by (auto simp: slot_names_def live_slot_def rows_def EntryAt_def split: if_splits)
  qed
  ultimately show ?thesis using C unfolding p(2) by blast
qed

text \<open>A volume root \<open>AbCd\<close>, its own parent, is placed without an exception.\<close>

definition sample_record :: EntryRecord where
  "sample_record = (blank_record default_FileId)\<lparr>er_name := [65, 98, 67, 100], er_sizeBytes := 7\<rparr>"

definition sample_changes :: "(VolumeRowId \<times> EntryRecord \<times> EntryFieldMask + EntryKey) list" where
  "sample_changes = [Inl (1, sample_record, kEntryFieldMaskAll)]"

lemma sample_fits: "fits_new sample_changes"
  by (simp add: fits_new_def sample_changes_def sample_record_def)

lemma sample_rows: "expected_rows sample_changes = [key_of 1 default_FileId \<mapsto> sample_record]"
  by (simp add: sample_changes_def merge_all) (simp add: sample_record_def blank_record_def)

lemma sample_run:
  "\<exists>p. apply_changes cso sample_changes new_projection = Inr p
     \<and> pj_filenameIndex p = AddFilenameIndexEntry cso 0 (er_name sample_record) empty_index"
proof -
  let ?k = "key_of 1 default_FileId"
  obtain n names where int: "Intern np_empty (er_name sample_record) = (n, names)" by fastforce
  have "np_fits np_empty (er_name sample_record) []" by (simp add: np_fits_def np_room_def np_empty_def sample_record_def)
  then have name: "Get names n = er_name sample_record" using Intern_spec(4) [OF np_empty_inv _ int] by blast
  have self: "er_parentId sample_record = er_id sample_record" "er_id sample_record = default_FileId"
    by (simp_all add: sample_record_def blank_record_def)
  obtain ids where ids: "id_insert fm_empty ?k 0 = Inr ids"
    using fm_insert_room [OF fm_empty_inv(1), of EntryKeyHash default_EntryKey 0 ?k 0] by (auto simp: fm_empty_def)
  have "apply_changes cso sample_changes new_projection = bind_res (insert_row cso 1 sample_record new_projection) Inr"
    by (simp add: sample_changes_def UpsertPartial_def Upsert_def self bind_res_def fm_find_eq new_projection_def split: sum.split)
  moreover have "\<exists>p. insert_row cso 1 sample_record new_projection = Inr p
      \<and> pj_filenameIndex p = AddFilenameIndexEntry cso 0 (er_name sample_record) empty_index"
    by (simp add: insert_row_def int take_slot_def link_child_def self ids name EntryAt_def Let_def new_projection_def reset_time_def)
  ultimately show ?thesis by auto
qed

theorem Projection_refines_map_witness:
  "fits_new sample_changes \<and> (\<exists>p. apply_changes fold_ordinal sample_changes new_projection = Inr p
     \<and> map_option (to_record (pj_namePool p)) (fst (Find 1 default_FileId p)) = Some sample_record
     \<and> (\<lambda>i. entry_key (EntryAt p i)) ` set (fst (ChildIndices 1 default_FileId p)) = {} \<and> fm_count (pj_idToIndex p) = 1)"
proof -
  obtain p where p: "apply_changes fold_ordinal sample_changes new_projection = Inr p" using sample_run by blast
  have "er_id sample_record = default_FileId" by (simp add: sample_record_def blank_record_def)
  then have none: "{k. \<exists>r. expected_rows sample_changes k = Some r \<and> ek_volumeRowId k = 1 \<and> er_parentId r = default_FileId \<and> er_id r \<noteq> default_FileId} = {}"
    by (auto simp: sample_rows split: if_splits)
  show ?thesis
    using Projection_refines_map [OF sample_fits, of fold_ordinal, unfolded p sum.case, THEN conjunct1, rule_format, of 1 default_FileId, unfolded none]
      Projection_refines_map [OF sample_fits, of fold_ordinal, unfolded p sum.case, THEN conjunct2] sample_fits p by (auto simp: sample_rows)
qed

theorem Projection_candidates_complete_witness:
  "\<exists>p. apply_changes fold_ordinal sample_changes new_projection = Inr p
     \<and> FilenameCandidateIndices (pj_filenameIndex p) (FoldAscii [66, 99, 68]) 5 = Some [0]
     \<and> OrdinalContains16 fold_ordinal (er_name sample_record) [66, 99, 68] \<and> key_of 1 default_FileId = entry_key (EntryAt p 0)"
proof -
  obtain p where p: "apply_changes fold_ordinal sample_changes new_projection = Inr p"
    and fx: "pj_filenameIndex p = AddFilenameIndexEntry fold_ordinal 0 (er_name sample_record) empty_index"
    using sample_run by blast
  have c: "FilenameCandidateIndices (pj_filenameIndex p) (FoldAscii [66, 99, 68]) 5 = Some [0]" unfolding fx by code_simp
  have m: "OrdinalContains16 fold_ordinal (er_name sample_record) [66, 99, 68]" by code_simp
  have "IsAscii [66, 99, 68]" by (simp add: IsAscii_def)
  from Projection_candidates_complete [OF fold_ordinal_ok fold_ordinal_unitwise sample_fits p this c] m
  have "key_of 1 default_FileId \<in> (\<lambda>i. entry_key (EntryAt p i)) ` set [0]" by (auto simp: sample_rows)
  then show ?thesis using p c m by auto
qed

end
