(* ===== verification/Residency.thy ===== *)
theory Residency
  imports Projection
begin

text \<open>
  Memory residency of the projection (\<open>indexstore/src/Projection.cpp\<close>): eviction of the least recently used subtree or of a
  whole volume, compaction of what is left, and enforcement of the memory limit.

  \<open>est\<close> is \<open>EstimatedMemoryBytes\<close>: it sums capacities that the standard containers choose, so it is a parameter, a
  function of the state. A loop whose end is not evident returns \<open>None\<close> for running forever.
\<close>

section \<open>Compaction\<close>

record Compacted =
  ct_entries :: "ProjectionEntry list"
  ct_accessTimes :: "u64 list"
  ct_ids :: "(EntryKey, u32) FlatHashMap"
  ct_children :: FlatChildrenMap
  ct_names :: NamePool

definition access_time :: "Projection \<Rightarrow> u32 \<Rightarrow> u64" where
  "access_time p index = (if unat index < length (pj_lastAccessTimes p) then pj_lastAccessTimes p ! unat index else 0)"

fun compact_rows :: "Projection \<Rightarrow> (EntryKey \<times> u32) list \<Rightarrow> Compacted \<Rightarrow> MapError + Compacted" where
  "compact_rows p [] c = Inr c"
| "compact_rows p ((key, oldIndex) # rest) c =
     (let old = EntryAt p oldIndex;
          (nameId, names) = Intern (ct_names c) (Get (pj_namePool p) (pe_nameId old));
          entry = old\<lparr>pe_nameId := nameId\<rparr>;
          newIndex = of_nat (length (ct_entries c))
      in bind_res (id_insert (ct_ids c) key newIndex)
           (\<lambda>ids. bind_res
              (if pe_parentFrn entry \<noteq> pe_frn entry
               then cm_insert (ct_children c) (key_of (pe_volumeRowId entry) (pe_parentFrn entry)) newIndex
               else Inr (ct_children c))
              (\<lambda>children. compact_rows p rest
                 \<lparr>ct_entries = ct_entries c @ [entry], ct_accessTimes = ct_accessTimes c @ [access_time p oldIndex],
                  ct_ids = ids, ct_children = children, ct_names = names\<rparr>)))"

definition CompactStorage :: "Projection \<Rightarrow> MapError + Projection" where
  "CompactStorage p0 =
     (let p = invalidate_filenames p0 in
      bind_res (fm_reserve EntryKeyHash default_EntryKey 0 fm_empty (of_nat (fm_count (pj_idToIndex p))))
        (\<lambda>ids. bind_res
           (compact_rows p (fm_entries (pj_idToIndex p))
              \<lparr>ct_entries = [], ct_accessTimes = [], ct_ids = ids, ct_children = cm_empty, ct_names = np_empty\<rparr>)
           (\<lambda>c. Inr (p\<lparr>pj_entries := ct_entries c, pj_lastAccessTimes := ct_accessTimes c, pj_freeList := [],
                       pj_idToIndex := ct_ids c, pj_parentToChildren := ct_children c, pj_namePool := ct_names c,
                       pj_denseIterationOrderValid := True\<rparr>))))"

section \<open>Eviction\<close>

definition is_directory :: "ProjectionEntry \<Rightarrow> bool" where
  "is_directory e \<longleftrightarrow> pe_attributes e AND kFileAttributeDirectory \<noteq> 0"

text \<open>One candidate per class while the table is visited: key and timestamp.\<close>

record LruState =
  lru_oldest :: "(EntryKey \<times> u64) option"
  lru_oldestDirectory :: "(EntryKey \<times> u64) option"
  lru_rootFallback :: "(EntryKey \<times> u64) option"

definition older :: "EntryKey \<Rightarrow> u64 \<Rightarrow> (EntryKey \<times> u64) option \<Rightarrow> (EntryKey \<times> u64) option" where
  "older key timestamp best =
     (case best of None \<Rightarrow> Some (key, timestamp)
      | Some (k, t) \<Rightarrow> if timestamp < t then Some (key, timestamp) else best)"

definition lru_visit :: "Projection \<Rightarrow> EntryKey \<times> u32 \<Rightarrow> LruState \<Rightarrow> LruState" where
  "lru_visit p kv s =
     (case kv of (key, index) \<Rightarrow>
        let entry = EntryAt p index; timestamp = access_time p index in
        if pe_parentFrn entry = pe_frn entry then s\<lparr>lru_rootFallback := older key timestamp (lru_rootFallback s)\<rparr>
        else if is_directory entry then s\<lparr>lru_oldestDirectory := older key timestamp (lru_oldestDirectory s)\<rparr>
        else s\<lparr>lru_oldest := older key timestamp (lru_oldest s)\<rparr>)"

definition LeastRecentlyUsedEntry :: "Projection \<Rightarrow> EntryKey option" where
  "LeastRecentlyUsedEntry p =
     (let s = fold (lru_visit p) (fm_entries (pj_idToIndex p))
                \<lparr>lru_oldest = None, lru_oldestDirectory = None, lru_rootFallback = None\<rparr>
      in map_option fst (if lru_oldestDirectory s \<noteq> None then lru_oldestDirectory s
                         else if lru_oldest s \<noteq> None then lru_oldest s else lru_rootFallback s))"

text \<open>The traversal of \<open>EvictSubtree\<close>; the head of \<open>pending\<close> is the back of the vector.\<close>

definition push_children :: "Projection \<Rightarrow> EntryKey \<Rightarrow> ProjectionEntry \<Rightarrow> EntryKey list \<Rightarrow> EntryKey list" where
  "push_children p current entry pending =
     (if \<not> is_directory entry then pending
      else rev (map (\<lambda>child. key_of (pe_volumeRowId (EntryAt p child)) (pe_frn (EntryAt p child)))
                  (filter (\<lambda>child. unat child < length (pj_entries p)) (cm_find (pj_parentToChildren p) current))) @ pending)"

partial_function (option) subtree_walk ::
  "Projection \<Rightarrow> EntryKey list \<Rightarrow> EntryKey set \<Rightarrow> EntryKey list \<Rightarrow> EntryKey list option" where
  "subtree_walk p pending visited removalOrder =
     (case pending of
        [] \<Rightarrow> Some removalOrder
      | current # rest \<Rightarrow>
          if current \<in> visited then subtree_walk p rest visited removalOrder
          else case id_find (pj_idToIndex p) current of
              None \<Rightarrow> subtree_walk p rest (insert current visited) removalOrder
            | Some index \<Rightarrow>
                subtree_walk p (push_children p current (EntryAt p index) rest) (insert current visited) (removalOrder @ [current]))"

definition EvictSubtree :: "ordinal \<Rightarrow> EntryKey \<Rightarrow> Projection \<Rightarrow> Projection option" where
  "EvictSubtree cso rootKey p =
     (case id_find (pj_idToIndex p) rootKey of
        None \<Rightarrow> Some p
      | Some _ \<Rightarrow>
          map_option (\<lambda>removalOrder.
            let p1 = (if length removalOrder > kPerEntryFilenameRemovalThreshold
                      then (invalidate_filenames p)\<lparr>pj_denseIterationOrderValid := False,
                              pj_idToIndex := fold (\<lambda>key ids. id_erase ids key) removalOrder (pj_idToIndex p)\<rparr>
                      else fold (\<lambda>key. Remove cso (ek_volumeRowId key) (ek_frn key)) (rev removalOrder) p)
            in p1\<lparr>pj_evictedVolumes := insert (ek_volumeRowId rootKey) (pj_evictedVolumes p1),
                  pj_subtreeEvictionCount := pj_subtreeEvictionCount p1 + 1\<rparr>)
            (subtree_walk p [rootKey] {} []))"

definition EvictVolume :: "VolumeRowId \<Rightarrow> Projection \<Rightarrow> MapError + Projection" where
  "EvictVolume vol p =
     (let keys = map fst (filter (\<lambda>(key, index). ek_volumeRowId key = vol) (fm_entries (pj_idToIndex p))) in
      if keys = [] then Inr p
      else CompactStorage ((invalidate_filenames p)\<lparr>pj_denseIterationOrderValid := False,
             pj_idToIndex := fold (\<lambda>key ids. id_erase ids key) keys (pj_idToIndex p),
             pj_evictedVolumes := insert vol (pj_evictedVolumes p),
             pj_subtreeEvictionCount := pj_subtreeEvictionCount p + 1\<rparr>))"

section \<open>The memory limit\<close>

type_synonym Estimate = "Projection \<Rightarrow> nat"

definition IsMemoryPressureHigh :: "Estimate \<Rightarrow> Projection \<Rightarrow> bool" where
  "IsMemoryPressureHigh est p =
     (if pj_maximumMemoryBytes p = 0 then False
      else est p \<ge> pj_maximumMemoryBytes p - pj_maximumMemoryBytes p div 5)"

definition NeedsReload :: "Projection \<Rightarrow> VolumeRowId \<Rightarrow> bool" where
  "NeedsReload p vol \<longleftrightarrow> vol \<in> pj_evictedVolumes p"

definition note_eviction :: "Estimate \<Rightarrow> nat \<Rightarrow> Projection \<Rightarrow> Projection" where
  "note_eviction est before p = p\<lparr>pj_lastEvictionBytesBefore := before, pj_lastEvictionBytesAfter := est p\<rparr>"

text \<open>One victim: \<open>EvictSubtree\<close>, \<open>CompactStorage\<close> and the two statistics.\<close>

definition evict_victim :: "ordinal \<Rightarrow> Estimate \<Rightarrow> EntryKey \<Rightarrow> Projection \<Rightarrow> (MapError + Projection) option" where
  "evict_victim cso est victim p =
     map_option (\<lambda>p1. bind_res (CompactStorage p1) (\<lambda>p2. Inr (note_eviction est (est p) p2))) (EvictSubtree cso victim p)"

definition EnforceMemoryLimitOnceTo :: "ordinal \<Rightarrow> Estimate \<Rightarrow> nat \<Rightarrow> Projection \<Rightarrow> (MapError + bool \<times> Projection) option" where
  "EnforceMemoryLimitOnceTo cso est targetBytes p =
     (if \<not> pj_enforcingMemoryLimit p \<or> est p \<le> targetBytes then Some (Inr (False, p))
      else case LeastRecentlyUsedEntry p of
          None \<Rightarrow> Some (Inr (False, p))
        | Some victim \<Rightarrow> map_option (\<lambda>r. bind_res r (\<lambda>p1. Inr (True, p1))) (evict_victim cso est victim p))"

partial_function (option) enforce_to ::
  "ordinal \<Rightarrow> Estimate \<Rightarrow> nat \<Rightarrow> bool \<Rightarrow> Projection \<Rightarrow> (MapError + bool \<times> Projection) option" where
  "enforce_to cso est targetBytes evictedAny p =
     (if \<not> est p > targetBytes then Some (Inr (evictedAny, p))
      else case LeastRecentlyUsedEntry p of
          None \<Rightarrow> Some (Inr (evictedAny, p))
        | Some victim \<Rightarrow>
            (case evict_victim cso est victim p of
               None \<Rightarrow> None
             | Some (Inl e) \<Rightarrow> Some (Inl e)
             | Some (Inr p1) \<Rightarrow>
                 if est p1 \<ge> est p \<and> fm_count (pj_idToIndex p1) = 0 then Some (Inr (True, p1))
                 else enforce_to cso est targetBytes True p1))"

definition EnforceMemoryLimitTo :: "ordinal \<Rightarrow> Estimate \<Rightarrow> nat \<Rightarrow> Projection \<Rightarrow> (MapError + bool \<times> Projection) option" where
  "EnforceMemoryLimitTo cso est targetBytes p =
     (if \<not> pj_enforcingMemoryLimit p then Some (Inr (False, p)) else enforce_to cso est targetBytes False p)"

definition SetMaximumMemoryBytes :: "ordinal \<Rightarrow> Estimate \<Rightarrow> nat \<Rightarrow> Projection \<Rightarrow> (MapError + Projection) option" where
  "SetMaximumMemoryBytes cso est maximumBytes p =
     (let limit = (if maximumBytes = 0 then kDefaultMaximumMemoryBytes else maximumBytes) in
      map_option (\<lambda>r. bind_res r (\<lambda>(evicted, p1). Inr (p1\<lparr>pj_enforcingMemoryLimit := pj_enforcingMemoryLimit p\<rparr>)))
        (EnforceMemoryLimitTo cso est limit (p\<lparr>pj_maximumMemoryBytes := limit, pj_enforcingMemoryLimit := True\<rparr>)))"

definition kMaxEnforcementPasses :: nat where "kMaxEnforcementPasses = 8"

text \<open>The bounded passes of \<open>EnforceMemoryLimit\<close>, with \<open>n\<close> of them left.\<close>

fun enforce_passes :: "ordinal \<Rightarrow> Estimate \<Rightarrow> nat \<Rightarrow> nat \<Rightarrow> bool \<Rightarrow> Projection \<Rightarrow> (MapError + bool \<times> Projection) option" where
  "enforce_passes cso est lowWatermark 0 evictedAny p = Some (Inr (evictedAny, p))"
| "enforce_passes cso est lowWatermark (Suc n) evictedAny p =
     (if est p \<le> lowWatermark then Some (Inr (evictedAny, p))
      else case EnforceMemoryLimitOnceTo cso est lowWatermark p of
          None \<Rightarrow> None
        | Some (Inl e) \<Rightarrow> Some (Inl e)
        | Some (Inr (False, p1)) \<Rightarrow> Some (Inr (evictedAny, p1))
        | Some (Inr (True, p1)) \<Rightarrow>
            if est p1 \<ge> est p then Some (Inr (True, p1)) else enforce_passes cso est lowWatermark n True p1)"

partial_function (option) enforce_volumes ::
  "Estimate \<Rightarrow> nat \<Rightarrow> bool \<Rightarrow> Projection \<Rightarrow> (MapError + bool \<times> Projection) option" where
  "enforce_volumes est lowWatermark evictedAny p =
     (if \<not> est p > lowWatermark then Some (Inr (evictedAny, p))
      else case LeastRecentlyUsedEntry p of
          None \<Rightarrow> Some (Inr (evictedAny, p))
        | Some victim \<Rightarrow>
            (case EvictVolume (ek_volumeRowId victim) p of
               Inl e \<Rightarrow> Some (Inl e)
             | Inr p1 \<Rightarrow>
                 let p2 = note_eviction est (est p) p1 in
                 if pj_lastEvictionBytesAfter p2 \<ge> est p then Some (Inr (True, p2))
                 else enforce_volumes est lowWatermark True p2))"

definition EnforceMemoryLimit :: "ordinal \<Rightarrow> Estimate \<Rightarrow> Projection \<Rightarrow> (MapError + bool \<times> Projection) option" where
  "EnforceMemoryLimit cso est p =
     (if \<not> pj_enforcingMemoryLimit p then Some (Inr (False, p))
      else
        let lowWatermark = pj_maximumMemoryBytes p - pj_maximumMemoryBytes p div 5 in
        case enforce_passes cso est lowWatermark kMaxEnforcementPasses False p of
          None \<Rightarrow> None
        | Some (Inl e) \<Rightarrow> Some (Inl e)
        | Some (Inr (evictedAny, p1)) \<Rightarrow> enforce_volumes est lowWatermark evictedAny p1)"

section \<open>Compaction keeps every row\<close>

definition row_names :: "Projection \<Rightarrow> (EntryKey \<times> u32) list \<Rightarrow> u16string list" where
  "row_names p kvs = map (\<lambda>(key, index). entry_name (pj_namePool p) (EntryAt p index)) kvs"

text \<open>The names of the live rows, counted with repetitions, fit 32 bit offsets.\<close>

definition name_total :: "(EntryKey \<rightharpoonup> EntryRecord) \<Rightarrow> nat" where
  "name_total m = (\<Sum>k \<in> dom m. length (er_name (the (m k))))"

definition names_fit :: "Projection \<Rightarrow> bool" where
  "names_fit p \<longleftrightarrow> name_total (rows p) < 2 ^ 32"

definition times_of :: "Projection \<Rightarrow> EntryKey \<rightharpoonup> u64" where
  "times_of p k = map_option (access_time p) (ids_of p k)"

text \<open>The compacted tables hold the rows \<open>kvs\<close>, every slot of them live.\<close>

definition compacted :: "Projection \<Rightarrow> (EntryKey \<times> u32) list \<Rightarrow> Compacted \<Rightarrow> bool" where
  "compacted p kvs c \<longleftrightarrow> np_inv (ct_names c) \<and> fm_inv EntryKeyHash (ct_ids c) \<and> cm_inv (ct_children c)
     \<and> ids_ok (fm_map (ct_ids c)) (ct_entries c) \<and> names_ok (fm_map (ct_ids c)) (ct_entries c) (ct_names c)
     \<and> links_ok (fm_map (ct_ids c)) (ct_entries c) (ct_children c)
     \<and> length (ct_accessTimes c) = length (ct_entries c) \<and> length (ct_entries c) = length kvs
     \<and> length (np_arena (ct_names c)) \<le> sum_list (map length (row_names p kvs)) \<and> length (np_table (ct_names c)) \<le> length kvs
     \<and> (\<forall>i. unat i < length (ct_entries c) \<longrightarrow> live_slot (fm_map (ct_ids c)) (ct_entries c) i)
     \<and> recs_of (fm_map (ct_ids c)) (ct_entries c) (ct_names c) = rows p |` (fst ` set kvs)
     \<and> (\<lambda>k. map_option (\<lambda>i. ct_accessTimes c ! unat i) (fm_map (ct_ids c) k)) = times_of p |` (fst ` set kvs)"

lemma compactedD:
  assumes "compacted p kvs c"
  shows "np_inv (ct_names c)" "fm_inv EntryKeyHash (ct_ids c)" "cm_inv (ct_children c)"
    "ids_ok (fm_map (ct_ids c)) (ct_entries c)" "names_ok (fm_map (ct_ids c)) (ct_entries c) (ct_names c)"
    "links_ok (fm_map (ct_ids c)) (ct_entries c) (ct_children c)"
    "length (ct_accessTimes c) = length (ct_entries c)" "length (ct_entries c) = length kvs"
    "unat i < length (ct_entries c) \<Longrightarrow> live_slot (fm_map (ct_ids c)) (ct_entries c) i"
    "recs_of (fm_map (ct_ids c)) (ct_entries c) (ct_names c) = rows p |` (fst ` set kvs)"
    "(\<lambda>k. map_option (\<lambda>i. ct_accessTimes c ! unat i) (fm_map (ct_ids c) k)) = times_of p |` (fst ` set kvs)"
    "length (np_arena (ct_names c)) \<le> sum_list (map length (row_names p kvs))" "length (np_table (ct_names c)) \<le> length kvs"
  using assms unfolding compacted_def by blast+

lemma Intern_sizes:
  "Intern pool s = (i, pool') \<Longrightarrow> length (np_arena pool') \<le> length (np_arena pool) + length s \<and> length (np_table pool') \<le> Suc (length (np_table pool))"
  by (auto simp: Intern_def Let_def split: option.splits)

lemma tables_okD:
  assumes "tables_ok p"
  shows "np_inv (pj_namePool p)" "fm_inv EntryKeyHash (pj_idToIndex p)" "ids_ok (ids_of p) (pj_entries p)"
    "names_ok (ids_of p) (pj_entries p) (pj_namePool p)" "length (pj_lastAccessTimes p) = length (pj_entries p)"
  using assms by (simp_all add: tables_ok_def)

lemma compact_step:
  assumes ok: "tables_ok p" and c: "compacted p kvs c" and k: "ids_of p key = Some old" "key \<notin> fst ` set kvs"
    and room: "np_room (ct_names c) [entry_name (pj_namePool p) (EntryAt p old)]" "length kvs < 2 ^ 32"
    and int: "Intern (ct_names c) (entry_name (pj_namePool p) (EntryAt p old)) = (n, names)"
    and e: "e = (EntryAt p old)\<lparr>pe_nameId := n\<rparr>" and i: "i = of_nat (length (ct_entries c))"
    and ids: "id_insert (ct_ids c) key i = Inr ids"
    and ch: "(if pe_parentFrn e \<noteq> pe_frn e then cm_insert (ct_children c) (key_of (pe_volumeRowId e) (pe_parentFrn e)) i
              else Inr (ct_children c)) = Inr ch"
  shows "compacted p (kvs @ [(key, old)]) \<lparr>ct_entries = ct_entries c @ [e], ct_accessTimes = ct_accessTimes c @ [access_time p old],
      ct_ids = ids, ct_children = ch, ct_names = names\<rparr>"
proof -
  note C = compactedD [OF c] and O = ids_okD [OF tables_okD(3) [OF ok] k(1)]
  let ?ids = "fm_map (ct_ids c)" and ?es = "ct_entries c" and ?old = "EntryAt p old"
  have "np_fits (ct_names c) (entry_name (pj_namePool p) ?old) []" using room(1) by (simp add: np_fits_def)
  note N = Intern_spec [OF C(1) this int]
  have ui: "unat i = length ?es" unfolding i using room(2) C(8) by (intro unat_of_nat_u32) simp
  have key: "entry_key e = key" using O(2) by (simp add: e entry_key_def EntryAt_def)
  have "recs_of ?ids ?es (ct_names c) key = None" using C(10) k(2) by (simp add: restrict_map_def)
  then have none: "?ids (entry_key e) = None" by (simp add: recs_of_def key)
  have "placed ?ids ?es i e (?ids(entry_key e \<mapsto> i)) (put_slot i e ?es)"
    using none ui room(2) C(8) by (intro placedI [OF C(4)]) (auto simp: live_slot_def)
  then have pl: "placed ?ids ?es i e (?ids(key \<mapsto> i)) (?es @ [e])" using ui by (simp add: put_slot_def key)
  have map: "fm_inv EntryKeyHash ids" "fm_map ids = ?ids(key \<mapsto> i)" using fmap.upd_inv [OF C(2) ids] fmap.upd_map [OF C(2) ids] by blast+
  have "link_child (pe_volumeRowId e) (to_record names e) i (ct_children c) = Inr ch"
    using ch by (simp add: link_child_def to_record_def split: if_splits)
  note links = placed_links [OF pl C(3,6) this]
  have name: "entry_name names e = entry_name (pj_namePool p) ?old" using N(4) by (simp add: e entry_name_def)
  have flags: "pe_nameId e = n" "pe_nameAsciiLower e = pe_nameAsciiLower ?old" "pe_nameIsAscii e = pe_nameIsAscii ?old" by (simp_all add: e)
  have "pe_nameAsciiLower ?old = IsAsciiLower (entry_name (pj_namePool p) ?old)" "pe_nameIsAscii ?old = IsAscii (entry_name (pj_namePool p) ?old)"
    using O(3) tables_okD(4) [OF ok] by (simp_all add: names_ok_def EntryAt_def)
  then have names: "names_ok (?ids(key \<mapsto> i)) (?es @ [e]) names"
    using placed_names(1) [OF pl N(5) C(5)] N(3) flags name by simp
  have "to_record names e = to_record (pj_namePool p) ?old" using name by (simp add: to_record_def) (simp add: e)
  then have recs: "recs_of (?ids(key \<mapsto> i)) (?es @ [e]) names = rows p |` (fst ` set (kvs @ [(key, old)]))"
    using placed_recs [OF pl N(5) C(5)] C(10) k(1) by (auto simp: key rows_def restrict_map_def fun_eq_iff)
  have live: "live_slot (?ids(key \<mapsto> i)) (?es @ [e]) j" if "unat j < Suc (length ?es)" for j
    using that placedD(4) [OF pl, of j] C(9) [of j] ui by (cases "unat j < length ?es") (auto simp: word_unat_eq_iff)
  have times: "map_option (\<lambda>i. (ct_accessTimes c @ [access_time p old]) ! unat i) ((?ids(key \<mapsto> i)) k') =
      (times_of p |` (fst ` set (kvs @ [(key, old)]))) k'" for k'
  proof (cases "k' = key")
    case True
    then show ?thesis using k(1) ui C(7) by (simp add: times_of_def restrict_map_def nth_append)
  next
    case False
    then show ?thesis using fun_cong [OF C(11), of k'] ids_okD(1) [OF C(4), of k'] C(7)
      by (cases "?ids k'") (auto simp: restrict_map_def nth_append)
  qed
  show "compacted p (kvs @ [(key, old)]) \<lparr>ct_entries = ct_entries c @ [e], ct_accessTimes = ct_accessTimes c @ [access_time p old],
      ct_ids = ids, ct_children = ch, ct_names = names\<rparr>"
    unfolding compacted_def Compacted.simps map(2)
    by (intro conjI N(1) map(1) links placedD(2) [OF pl] names recs ext [OF times] allI impI live)
      (use C(12,13) Intern_sizes [OF int] in \<open>simp_all add: C(7,8) to_record_def row_names_def\<close>)
qed

lemma compact_rows_spec:
  assumes "tables_ok p" "compacted p kvs c" "distinct (map fst (kvs @ xs))" "\<forall>(k, i) \<in> set xs. ids_of p k = Some i"
    "sum_list (map length (row_names p (kvs @ xs))) < 2 ^ 32" "length kvs + length xs \<le> 2 ^ 32"
  shows "case compact_rows p xs c of Inl e \<Rightarrow> e \<noteq> out_of_range | Inr c' \<Rightarrow> compacted p (kvs @ xs) c'"
  using assms
proof (induction xs arbitrary: kvs c)
  case (Cons kv xs)
  obtain key old where kv: "kv = (key, old)" by (cases kv)
  obtain n names where int: "Intern (ct_names c) (entry_name (pj_namePool p) (EntryAt p old)) = (n, names)" by fastforce
  define e where "e = (EntryAt p old)\<lparr>pe_nameId := n\<rparr>"
  define i :: u32 where "i = of_nat (length (ct_entries c))"
  let ?link = "if pe_parentFrn e \<noteq> pe_frn e then cm_insert (ct_children c) (key_of (pe_volumeRowId e) (pe_parentFrn e)) i
    else Inr (ct_children c)"
  note C = compactedD [OF Cons.prems(2)]
  have step: "compact_rows p (kv # xs) c = bind_res (id_insert (ct_ids c) key i) (\<lambda>ids. bind_res ?link
      (\<lambda>ch. compact_rows p xs \<lparr>ct_entries = ct_entries c @ [e], ct_accessTimes = ct_accessTimes c @ [access_time p old],
         ct_ids = ids, ct_children = ch, ct_names = names\<rparr>))"
    using int unfolding kv e_def i_def by (simp add: entry_name_def Let_def)
  have bad: "?link \<noteq> Inl out_of_range" "id_insert (ct_ids c) key i \<noteq> Inl out_of_range"
    using cm_insert_spec [OF C(3), of "key_of (pe_volumeRowId e) (pe_parentFrn e)" i] fmap.upd_bad [OF C(2)] by auto
  show ?case
  proof (cases "id_insert (ct_ids c) key i")
    case (Inr ids)
    note ids = Inr
    show ?thesis
    proof (cases ?link)
      case (Inr ch)
      have k: "ids_of p key = Some old" "key \<notin> fst ` set kvs" using Cons.prems(3,4) kv by auto
      have room: "np_room (ct_names c) [entry_name (pj_namePool p) (EntryAt p old)]" "length kvs < 2 ^ 32"
        using Cons.prems(5,6) C(12,13) kv by (simp_all add: row_names_def np_room_def)
      note S = compact_step [OF Cons.prems(1,2) k room int e_def i_def ids Inr]
      have all: "(kvs @ [(key, old)]) @ xs = kvs @ kv # xs" by (simp add: kv)
      show ?thesis
        using Cons.IH [OF Cons.prems(1) S, unfolded all] Cons.prems(3-6) unfolding step ids Inr by (simp add: kv)
    qed (use bad in \<open>simp add: step ids\<close>)
  qed (use bad in \<open>simp add: step\<close>)
qed simp

lemma dom_rows: "dom (rows p) = dom (ids_of p)"
  by (auto simp: rows_def)

lemma finite_rows: "fm_inv EntryKeyHash (pj_idToIndex p) \<Longrightarrow> finite (dom (rows p))"
  by (simp add: dom_rows fm_map_def finite_dom_map_of)

lemma row_names_total:
  assumes "fm_inv EntryKeyHash (pj_idToIndex p)"
  shows "sum_list (map length (row_names p (fm_entries (pj_idToIndex p)))) = name_total (rows p)"
proof -
  let ?kvs = "fm_entries (pj_idToIndex p)"
  note iff = fm_entries_iff [OF assms] and d = distinct_fm_entries [OF assms]
  have "map length (row_names p ?kvs) = map (\<lambda>kv. length (er_name (the (rows p (fst kv))))) ?kvs"
    using iff by (auto simp: row_names_def rows_def to_record_def)
  then have "sum_list (map length (row_names p ?kvs)) = sum_list (map (\<lambda>k. length (er_name (the (rows p k)))) (map fst ?kvs))"
    by (simp add: comp_def)
  also have "\<dots> = (\<Sum>k \<in> set (map fst ?kvs). length (er_name (the (rows p k))))" using d by (rule sum_list_distinct_conv_sum_set)
  also have "set (map fst ?kvs) = dom (rows p)" using iff by (force simp: dom_rows)
  finally show ?thesis by (simp add: name_total_def)
qed

lemma name_total_mono: "finite (dom m) \<Longrightarrow> name_total (m |` A) \<le> name_total m"
  unfolding name_total_def by (intro order_trans [OF eq_refl sum_mono2 [of "dom m" "dom m \<inter> A"]] sum.cong) auto

lemma invalidate_simps [simp]:
  "pj_namePool (invalidate_filenames p) = pj_namePool p" "pj_entries (invalidate_filenames p) = pj_entries p"
  "pj_freeList (invalidate_filenames p) = pj_freeList p" "pj_idToIndex (invalidate_filenames p) = pj_idToIndex p"
  "pj_parentToChildren (invalidate_filenames p) = pj_parentToChildren p" "pj_lastAccessTimes (invalidate_filenames p) = pj_lastAccessTimes p"
  "pj_evictedVolumes (invalidate_filenames p) = pj_evictedVolumes p" "pj_enforcingMemoryLimit (invalidate_filenames p) = pj_enforcingMemoryLimit p"
  "pj_maximumMemoryBytes (invalidate_filenames p) = pj_maximumMemoryBytes p" "pj_bulkScanActive (invalidate_filenames p) = pj_bulkScanActive p"
  "EntryAt (invalidate_filenames p) = EntryAt p" "access_time (invalidate_filenames p) = access_time p"
  "pj_filenameIndex (invalidate_filenames p) = InvalidateFilenameIndex (pj_filenameIndex p)"
  by (simp_all add: invalidate_filenames_def EntryAt_def access_time_def fun_eq_iff)

lemma live_row_count:
  assumes "ids_ok ids es" "distinct (map fst xs)" "\<forall>(k, i) \<in> set xs. ids k = Some i"
  shows "length xs \<le> length es"
proof -
  have "inj_on (\<lambda>(k, i). unat i) (set xs)"
  proof (rule inj_onI)
    fix x y assume "x \<in> set xs" "y \<in> set xs" and u: "(case x of (k, i) \<Rightarrow> unat i) = (case y of (k, i) \<Rightarrow> unat i)"
    moreover obtain k i k' j where xy: "x = (k, i)" "y = (k', j)" by (metis surj_pair)
    ultimately have "ids k = Some i" "ids k' = Some j" using assms(3) by auto
    then show "x = y" using u xy ids_okD(2) [OF assms(1), of k i] ids_okD(2) [OF assms(1), of k' j] by (simp add: word_unat_eq_iff)
  qed
  then have "card (set xs) = card ((\<lambda>(k, i). unat i) ` set xs)" by (simp add: card_image)
  also have "\<dots> \<le> card {..<length es}" using assms(3) ids_okD(1) [OF assms(1)] by (intro card_mono) auto
  finally show ?thesis using assms(2) by (simp add: distinct_card distinct_map)
qed

text \<open>The settings that no eviction touches.\<close>

definition settings :: "Projection \<Rightarrow> bool \<times> nat \<times> bool" where
  "settings p = (pj_enforcingMemoryLimit p, pj_maximumMemoryBytes p, pj_bulkScanActive p)"

lemma CompactStorage_spec:
  assumes ok: "tables_ok p" and fx: "\<not> fx_building (pj_filenameIndex p)" and fit: "names_fit p"
  shows "case CompactStorage p of Inl e \<Rightarrow> e \<noteq> out_of_range
    | Inr p' \<Rightarrow> proj_ok cso p' \<and> rows p' = rows p \<and> times_of p' = times_of p \<and> pj_evictedVolumes p' = pj_evictedVolumes p
        \<and> settings p' = settings p \<and> fm_count (pj_idToIndex p') = fm_count (pj_idToIndex p)
        \<and> length (pj_entries p') = fm_count (pj_idToIndex p)
        \<and> length (np_arena (pj_namePool p')) \<le> name_total (rows p) \<and> length (np_table (pj_namePool p')) \<le> fm_count (pj_idToIndex p)"
proof -
  let ?p = "invalidate_filenames p" and ?kvs = "fm_entries (pj_idToIndex p)"
  note T = tables_okD [OF ok]
  have p: "tables_ok ?p" "rows ?p = rows p" "times_of ?p = times_of p" "pj_idToIndex ?p = pj_idToIndex p" "row_names ?p = row_names p"
    using ok by (simp_all add: tables_ok_def rows_recs times_of_def row_names_def fun_eq_iff)
  have kvs: "distinct (map fst ?kvs)" "\<forall>(k, i) \<in> set ?kvs. ids_of p k = Some i"
    using distinct_fm_entries [OF T(2)] fm_entries_iff [OF T(2)] by auto
  have len: "length ?kvs \<le> 2 ^ 32" using live_row_count [OF T(3) kvs] T(3) by (simp add: ids_ok_def)
  have dom: "fst ` set ?kvs = dom (ids_of p)" using fm_entries_iff [OF T(2)] by force
  have reserve: "case fm_reserve EntryKeyHash default_EntryKey 0 fm_empty (of_nat (fm_count (pj_idToIndex p)) :: u64) of
      Inl e \<Rightarrow> e = length_error | Inr m \<Rightarrow> fm_inv EntryKeyHash m \<and> fm_map m = (Map.empty :: EntryKey \<rightharpoonup> u32)"
  proof -
    have "unat (of_nat (fm_count (pj_idToIndex p)) :: u64) \<le> 2 ^ 62"
      using len length_fm_entries [OF T(2)] by (simp add: unat_of_nat take_bit_nat_eq_self)
    from fm_reserve_spec [OF fm_empty_inv(1) this, where hasher = EntryKeyHash and dk = default_EntryKey and dv = "0 :: u32"] show ?thesis
      by (auto split: sum.splits)
  qed
  show ?thesis
  proof (cases "fm_reserve EntryKeyHash default_EntryKey 0 fm_empty (of_nat (fm_count (pj_idToIndex p)) :: u64)
      :: MapError + (EntryKey, u32) FlatHashMap")
    case (Inl e)
    then show ?thesis using reserve p(4) by (simp add: CompactStorage_def)
  next
    case (Inr ids)
    let ?c = "\<lparr>ct_entries = [], ct_accessTimes = [], ct_ids = ids, ct_children = cm_empty, ct_names = np_empty\<rparr>"
    have "compacted ?p [] ?c"
      using reserve Inr
      by (simp add: compacted_def ids_ok_def names_ok_def links_ok_def live_slot_def recs_of_def [abs_def] cm_children_def
          restrict_map_def np_empty_def [THEN arg_cong [of _ _ np_arena]] np_empty_def [THEN arg_cong [of _ _ np_table]])
    from compact_rows_spec [OF p(1) this, of ?kvs, unfolded append_Nil]
    have R: "case compact_rows ?p ?kvs ?c of Inl e \<Rightarrow> e \<noteq> out_of_range | Inr c' \<Rightarrow> compacted ?p ?kvs c'"
      using kvs len fit p(4,5) row_names_total [OF T(2)] by (simp add: names_fit_def)
    show ?thesis
    proof (cases "compact_rows ?p ?kvs ?c")
      case (Inl e)
      then show ?thesis using R Inr p(4) by (simp add: CompactStorage_def)
    next
      fix c assume c: "compact_rows ?p ?kvs ?c = Inr c"
      then have C: "compacted ?p ?kvs c" using R by simp
      note D = compactedD [OF C, unfolded p(2,3) dom]
      have rows: "rows p |` dom (ids_of p) = rows p" "times_of p |` dom (ids_of p) = times_of p"
        by (auto simp: rows_def times_of_def fun_eq_iff restrict_map_def domIff)
      have acc: "map_option (\<lambda>i. if unat i < length (ct_entries c) then ct_accessTimes c ! unat i else 0) (fm_map (ct_ids c) k) = times_of p k" for k
        using fun_cong [OF D(11), of k] ids_okD(1) [OF D(4), of k] rows(2) by (cases "fm_map (ct_ids c) k") auto
      have "dom (fm_map (ct_ids c)) = dom (recs_of (fm_map (ct_ids c)) (ct_entries c) (ct_names c))" by (auto simp: recs_of_def)
      then have "dom (fm_map (ct_ids c)) = dom (ids_of p)" unfolding D(10) rows(1) by (auto simp: rows_def)
      then have "fm_count (ct_ids c) = fm_count (pj_idToIndex p)" using fm_map_dom_count [OF D(2)] fm_map_dom_count [OF T(2)] by simp
      moreover let ?q = "?p\<lparr>pj_entries := ct_entries c, pj_lastAccessTimes := ct_accessTimes c, pj_freeList := [],
        pj_idToIndex := ct_ids c, pj_parentToChildren := ct_children c, pj_namePool := ct_names c, pj_denseIterationOrderValid := True\<rparr>"
      have "times_of ?q k = times_of p k" for k
        using acc [of k] D(7) unfolding times_of_def [of ?q] by (simp add: access_time_def [abs_def] cong: if_cong)
      ultimately show ?thesis
        using c Inr D(1-10,12,13) rows(1) p(4,5) Invalidate_ok [OF fx] row_names_total [OF T(2)] length_fm_entries [OF T(2)]
        by (simp add: CompactStorage_def proj_ok_def tables_ok_def rows_recs free_ok_def ext settings_def)
    qed
  qed
qed

section \<open>Evicting a subtree\<close>

text \<open>The subtree of a row: the row itself, and below a directory every row that names it as parent.\<close>

inductive_set subtree :: "(EntryKey \<rightharpoonup> EntryRecord) \<Rightarrow> EntryKey \<Rightarrow> EntryKey set" for m root where
  root: "m root = Some r \<Longrightarrow> root \<in> subtree m root"
| child: "k \<in> subtree m root \<Longrightarrow> m k = Some d \<Longrightarrow> er_attributes d AND kFileAttributeDirectory \<noteq> 0 \<Longrightarrow>
     m c = Some r \<Longrightarrow> ek_volumeRowId c = ek_volumeRowId k \<Longrightarrow> er_parentId r = ek_frn k \<Longrightarrow> er_id r \<noteq> ek_frn k \<Longrightarrow>
     c \<in> subtree m root"

lemma subtree_dom: "k \<in> subtree m root \<Longrightarrow> k \<in> dom m"
  by (induction rule: subtree.induct) auto

lemma subtree_volume: "k \<in> subtree m root \<Longrightarrow> ek_volumeRowId k = ek_volumeRowId root"
  by (induction rule: subtree.induct) auto

definition directory_children :: "(EntryKey \<rightharpoonup> EntryRecord) \<Rightarrow> EntryKey \<Rightarrow> EntryKey set" where
  "directory_children m k = {c. \<exists>d r. m k = Some d \<and> er_attributes d AND kFileAttributeDirectory \<noteq> 0 \<and> m c = Some r
     \<and> ek_volumeRowId c = ek_volumeRowId k \<and> er_parentId r = ek_frn k \<and> er_id r \<noteq> ek_frn k}"

lemma subtree_children: "k \<in> subtree m root \<Longrightarrow> directory_children m k \<subseteq> subtree m root"
  by (auto simp: directory_children_def intro: subtree.child)

lemma subtree_least:
  assumes "root \<in> S" "\<And>k. k \<in> S \<Longrightarrow> directory_children m k \<subseteq> S" "k \<in> subtree m root"
  shows "k \<in> S"
  using assms(3)
proof (induction rule: subtree.induct)
  case (child k d c r)
  then have "c \<in> directory_children m k" by (auto simp: directory_children_def)
  then show ?case using assms(2) child.IH by blast
qed (use assms(1) in blast)

lemma push_children_set:
  assumes ok: "proj_ok cso p" and k: "ids_of p k = Some i"
  shows "set (push_children p k (EntryAt p i) pending) = set pending \<union> directory_children (rows p) k"
proof -
  note D = proj_okD [OF ok] and I = ids_okD [OF proj_okD(3) [OF ok] k]
  have kk: "key_of (ek_volumeRowId k) (ek_frn k) = k" by simp
  have c: "cm_find (pj_parentToChildren p) k = cm_children (pj_parentToChildren p) k" by (rule cm_find_eq [OF D(6)])
  have cs: "fst (ChildIndices (ek_volumeRowId k) (ek_frn k) p) = cm_children (pj_parentToChildren p) k"
    using c unfolding ChildIndices_def kk by (simp add: Let_def split: option.split)
  have "filter (\<lambda>j. unat j < length (pj_entries p)) (cm_children (pj_parentToChildren p) k) = cm_children (pj_parentToChildren p) k"
    using links_okD(2) [OF D(8), of k] by (auto simp: filter_id_conv live_slot_def)
  moreover have "rows p k = Some (to_record (pj_namePool p) (EntryAt p i))" using k by (simp add: rows_def)
  moreover have "(\<lambda>j. entry_key (EntryAt p j)) ` set (cm_children (pj_parentToChildren p) k) =
      {c. \<exists>r. rows p c = Some r \<and> ek_volumeRowId c = ek_volumeRowId k \<and> er_parentId r = ek_frn k \<and> er_id r \<noteq> ek_frn k}"
    using Child_rows(2) [OF ok, of "ek_volumeRowId k" "ek_frn k"] unfolding cs .
  ultimately show ?thesis
    by (auto simp: push_children_def c directory_children_def is_directory_def to_record_def entry_key_def)
qed

text \<open>The loop invariant of the traversal.\<close>

definition walk_inv :: "Projection \<Rightarrow> EntryKey \<Rightarrow> EntryKey list \<Rightarrow> EntryKey set \<Rightarrow> EntryKey list \<Rightarrow> bool" where
  "walk_inv p root pending visited order \<longleftrightarrow> distinct order \<and> set order = visited \<and> set pending \<subseteq> subtree (rows p) root
     \<and> visited \<subseteq> subtree (rows p) root \<and> root \<in> visited \<union> set pending
     \<and> (\<forall>k \<in> visited. directory_children (rows p) k \<subseteq> visited \<union> set pending)"

lemma walk_spec:
  assumes ok: "proj_ok cso p" and inv: "walk_inv p root pending visited order"
  shows "\<exists>order'. subtree_walk p pending visited order = Some order' \<and> distinct order' \<and> set order' = subtree (rows p) root"
  using inv
proof (induction "card (dom (ids_of p) - visited)" arbitrary: pending visited order rule: less_induct)
  case less
  note outer = less.hyps
  have fin: "finite (dom (ids_of p))" using finite_rows [OF proj_okD(2) [OF ok]] by (simp add: dom_rows)
  show ?case using less.prems
  proof (induction pending)
    case Nil
    then have W: "distinct order" "set order = visited" "visited \<subseteq> subtree (rows p) root" "root \<in> visited"
      "\<And>k. k \<in> visited \<Longrightarrow> directory_children (rows p) k \<subseteq> visited" by (simp_all add: walk_inv_def)
    have "subtree (rows p) root \<subseteq> visited" using subtree_least [OF W(4,5)] by blast
    then show ?case using W by (simp add: subtree_walk.simps [of p "[]"])
  next
    case (Cons k rest)
    show ?case
    proof (cases "k \<in> visited")
      case True
      then have "walk_inv p root rest visited order" using Cons.prems unfolding walk_inv_def by auto
      then show ?thesis using Cons.IH True by (simp add: subtree_walk.simps [of p "k # rest"])
    next
      case False
      have k: "k \<in> subtree (rows p) root" using Cons.prems by (simp add: walk_inv_def)
      then obtain i where i: "ids_of p k = Some i" using subtree_dom dom_rows by blast
      let ?pending = "push_children p k (EntryAt p i) rest"
      have "walk_inv p root ?pending (insert k visited) (order @ [k])"
        using Cons.prems False k subtree_children [OF k] unfolding walk_inv_def push_children_set [OF ok i] by auto
      moreover have "card (dom (ids_of p) - insert k visited) < card (dom (ids_of p) - visited)"
        using i False fin by (intro psubset_card_mono) auto
      ultimately have "\<exists>order'. subtree_walk p ?pending (insert k visited) (order @ [k]) = Some order' \<and> distinct order'
          \<and> set order' = subtree (rows p) root" using outer by blast
      then show ?thesis using False i by (simp add: subtree_walk.simps [of p "k # rest"] id_find_rows [OF ok])
    qed
  qed
qed

lemma erase_fold:
  "fm_inv EntryKeyHash ids \<Longrightarrow> fm_inv EntryKeyHash (fold (\<lambda>key ids. id_erase ids key) keys ids)
     \<and> fm_map (fold (\<lambda>key ids. id_erase ids key) keys ids) = fm_map ids |` (- set keys)"
proof (induction keys arbitrary: ids)
  case (Cons k ks)
  note E = fm_erase_inv [OF Cons.prems, of k]
  show ?case using Cons.IH [OF E(1)] unfolding E(2) by (auto simp: restrict_map_def fun_eq_iff)
qed (simp add: restrict_map_def)

lemma erase_rows:
  assumes ok: "tables_ok p" and ids: "fm_inv EntryKeyHash ids" "fm_map ids = ids_of p |` A"
  shows "tables_ok (p\<lparr>pj_idToIndex := ids\<rparr>)" "rows (p\<lparr>pj_idToIndex := ids\<rparr>) = rows p |` A"
proof -
  note T = tables_okD [OF ok]
  have le: "(ids_of p |` A) k = Some i \<Longrightarrow> ids_of p k = Some i" for k i by (auto simp: restrict_map_def split: if_splits)
  have "ids_ok (ids_of p |` A) (pj_entries p)" using T(3) le unfolding ids_ok_def by blast
  moreover have "names_ok (ids_of p |` A) (pj_entries p) (pj_namePool p)"
    using T(4) le unfolding names_ok_def live_slot_def by blast
  ultimately show "tables_ok (p\<lparr>pj_idToIndex := ids\<rparr>)" using T ids by (simp add: tables_ok_def)
  show "rows (p\<lparr>pj_idToIndex := ids\<rparr>) = rows p |` A" by (auto simp: rows_recs ids(2) recs_of_def restrict_map_def fun_eq_iff)
qed

lemma Remove_keys_fold:
  "proj_ok cso p \<Longrightarrow> proj_ok cso (fold (\<lambda>key. Remove cso (ek_volumeRowId key) (ek_frn key)) keys p)
     \<and> rows (fold (\<lambda>key. Remove cso (ek_volumeRowId key) (ek_frn key)) keys p) = rows p |` (- set keys)"
proof (induction keys arbitrary: p)
  case (Cons k ks)
  have kk: "key_of (ek_volumeRowId k) (ek_frn k) = k" by simp
  note R = Remove_spec(1,2) [OF Cons.prems, of "ek_volumeRowId k" "ek_frn k", unfolded kk]
  then show ?case using Cons.IH [OF R(1)] unfolding R(2) by (auto simp: restrict_map_def fun_eq_iff)
qed (simp add: restrict_map_def)

lemma Remove_settings: "settings (Remove cso vol frn p) = settings p" "pj_evictedVolumes (Remove cso vol frn p) = pj_evictedVolumes p"
  by (auto simp: Remove_def settings_def Let_def split: option.split)

lemma Remove_keys_settings:
  "settings (fold (\<lambda>key. Remove cso (ek_volumeRowId key) (ek_frn key)) keys p) = settings p
   \<and> pj_evictedVolumes (fold (\<lambda>key. Remove cso (ek_volumeRowId key) (ek_frn key)) keys p) = pj_evictedVolumes p"
  by (induction keys arbitrary: p) (simp_all add: Remove_settings)

lemma Remove_times:
  assumes ok: "proj_ok cso p"
  shows "times_of (Remove cso vol frn p) = (times_of p)(key_of vol frn := None)"
proof
  fix k
  note D = proj_okD [OF ok]
  show "times_of (Remove cso vol frn p) k = ((times_of p)(key_of vol frn := None)) k"
  proof (cases "ids_of p (key_of vol frn)")
    case None
    then show ?thesis by (simp add: Remove_absent [OF ok] times_of_def)
  next
    case (Some i)
    have "access_time (Remove cso vol frn p) j = access_time p j" if "ids_of p k = Some j" "k \<noteq> key_of vol frn" for j
    proof -
      have "i \<noteq> j" using ids_okD(2) [OF D(3) Some] ids_okD(2) [OF D(3) that(1)] that(2) by auto
      then show ?thesis by (simp add: Remove_def id_find_rows [OF ok] Some access_time_def nth_list_update Let_def word_unat_eq_iff)
    qed
    then show ?thesis using Remove_spec(3) [OF ok, of vol frn] by (cases "ids_of p k") (auto simp: times_of_def)
  qed
qed

lemma Remove_keys_times:
  "proj_ok cso p \<Longrightarrow> times_of (fold (\<lambda>key. Remove cso (ek_volumeRowId key) (ek_frn key)) keys p) = times_of p |` (- set keys)"
proof (induction keys arbitrary: p)
  case (Cons k ks)
  have kk: "key_of (ek_volumeRowId k) (ek_frn k) = k" by simp
  show ?case
    using Cons.IH [OF Remove_spec(1) [OF Cons.prems, of "ek_volumeRowId k" "ek_frn k"]]
    unfolding Remove_times [OF Cons.prems] kk by (auto simp: restrict_map_def fun_eq_iff)
qed (simp add: restrict_map_def)

lemma stats_ok [simp]:
  "times_of (p\<lparr>pj_evictedVolumes := E, pj_subtreeEvictionCount := c\<rparr>) = times_of p"
  "tables_ok (p\<lparr>pj_evictedVolumes := E, pj_subtreeEvictionCount := c\<rparr>) = tables_ok p"
  "proj_ok cso (p\<lparr>pj_evictedVolumes := E, pj_subtreeEvictionCount := c\<rparr>) = proj_ok cso p"
  "rows (p\<lparr>pj_evictedVolumes := E, pj_subtreeEvictionCount := c\<rparr>) = rows p"
  "proj_ok cso (note_eviction est b p) = proj_ok cso p" "rows (note_eviction est b p) = rows p"
  "settings (note_eviction est b p) = settings p" "pj_evictedVolumes (note_eviction est b p) = pj_evictedVolumes p"
  "pj_lastEvictionBytesBefore (note_eviction est b p) = b"
  by (simp_all add: tables_ok_def proj_ok_def rows_recs note_eviction_def settings_def times_of_def access_time_def [abs_def] fun_eq_iff cong: if_cong)

lemma EvictSubtree_spec:
  assumes ok: "proj_ok cso p" and root: "root \<in> dom (rows p)"
  shows "\<exists>p'. EvictSubtree cso root p = Some p' \<and> tables_ok p' \<and> \<not> fx_building (pj_filenameIndex p')
    \<and> rows p' = rows p |` (- subtree (rows p) root) \<and> times_of p' = times_of p |` (- subtree (rows p) root) \<and> settings p' = settings p
    \<and> pj_evictedVolumes p' = insert (ek_volumeRowId root) (pj_evictedVolumes p)"
proof -
  have r: "root \<in> subtree (rows p) root" using root by (auto intro: subtree.root)
  then have "walk_inv p root [root] {} []" by (simp add: walk_inv_def)
  from walk_spec [OF ok this] obtain order where order: "subtree_walk p [root] {} [] = Some order" "set order = subtree (rows p) root" by blast
  note D = proj_okD [OF ok] and E = erase_fold [OF proj_okD(2) [OF ok], of order] and F = Remove_keys_fold [OF ok, of "rev order"]
  have nb: "\<not> fx_building (pj_filenameIndex q)" if "proj_ok cso q" for q using proj_okD(9) [OF that] by (simp add: index_ok_def)
  let ?big = "(invalidate_filenames p)\<lparr>pj_denseIterationOrderValid := False, pj_idToIndex := fold (\<lambda>key ids. id_erase ids key) order (pj_idToIndex p)\<rparr>"
  let ?q = "(invalidate_filenames p)\<lparr>pj_denseIterationOrderValid := False\<rparr>"
  have q: "tables_ok ?q" "rows ?q = rows p" using D(10) by (simp_all add: tables_ok_def rows_recs)
  have "tables_ok ?big" "rows ?big = rows p |` (- set order)"
    using erase_rows [OF q(1), of "fold (\<lambda>key ids. id_erase ids key) order (pj_idToIndex p)" "- set order"] E q(2) by simp_all
  moreover have "times_of ?big = times_of p |` (- set order)"
    using E by (auto simp: times_of_def access_time_def [abs_def] restrict_map_def fun_eq_iff cong: if_cong)
  moreover have "\<not> fx_building (pj_filenameIndex ?big)" using nb [OF ok] by (simp add: InvalidateFilenameIndex_def)
  ultimately show ?thesis
    using order F root nb [OF conjunct1 [OF F]] proj_okD(10) [OF conjunct1 [OF F]] Remove_keys_settings [of cso "rev order" p]
      Remove_keys_times [OF ok, of "rev order"]
    by (auto simp: EvictSubtree_def id_find_rows [OF ok] dom_rows Let_def settings_def)
qed

lemma volume_keys:
  assumes "fm_inv EntryKeyHash (pj_idToIndex p)"
  shows "set (map fst (filter (\<lambda>(key, index). ek_volumeRowId key = vol) (fm_entries (pj_idToIndex p)))) =
    {k \<in> dom (rows p). ek_volumeRowId k = vol}"
  using fm_entries_iff [OF assms] by (force simp: dom_rows)

text \<open>
  What enforcement may do: drop rows, with every volume that loses a row marked cold, and nothing else.
\<close>

definition shrunk :: "ordinal \<Rightarrow> Projection \<Rightarrow> Projection \<Rightarrow> bool" where
  "shrunk cso p p' \<longleftrightarrow> proj_ok cso p' \<and> names_fit p' \<and> settings p' = settings p \<and> pj_evictedVolumes p \<subseteq> pj_evictedVolumes p'
     \<and> (\<forall>k. rows p' k = rows p k \<or> rows p' k = None \<and> ek_volumeRowId k \<in> pj_evictedVolumes p')"

lemma shrunk_refl: "proj_ok cso p \<Longrightarrow> names_fit p \<Longrightarrow> shrunk cso p p"
  by (simp add: shrunk_def)

lemma shrunk_trans: "shrunk cso p q \<Longrightarrow> shrunk cso q r \<Longrightarrow> shrunk cso p r"
  unfolding shrunk_def by (metis subset_iff)

lemma shrunk_note: "shrunk cso p (note_eviction est b q) = shrunk cso p q"
  by (simp add: shrunk_def names_fit_def)

lemma shrunk_compact:
  assumes "tables_ok q" "\<not> fx_building (pj_filenameIndex q)" "names_fit p" "finite (dom (rows p))"
    "rows q = rows p |` A" "\<forall>k. k \<in> dom (rows p) \<longrightarrow> k \<notin> A \<longrightarrow> ek_volumeRowId k \<in> pj_evictedVolumes q"
    "settings q = settings p" "pj_evictedVolumes p \<subseteq> pj_evictedVolumes q"
  shows "case CompactStorage q of Inl e \<Rightarrow> e \<noteq> out_of_range | Inr p' \<Rightarrow> shrunk cso p p' \<and> rows p' = rows p |` A"
proof -
  have fit: "names_fit q" using name_total_mono [OF assms(4), of A] assms(3,5) by (simp add: names_fit_def)
  have part: "rows q k = rows p k \<or> rows q k = None \<and> ek_volumeRowId k \<in> pj_evictedVolumes q" for k
    using assms(6) domIff [of k "rows p"] unfolding assms(5) restrict_map_def by metis
  show ?thesis
  proof (cases "CompactStorage q")
    case (Inr p')
    then show ?thesis
      using CompactStorage_spec [OF assms(1,2) fit, of cso] fit part assms(5,7,8) by (simp add: shrunk_def names_fit_def)
  qed (use CompactStorage_spec [OF assms(1,2) fit, of cso] in simp)
qed

lemma EvictVolume_spec:
  assumes ok: "proj_ok cso p" and fit: "names_fit p"
  shows "case EvictVolume vol p of Inl e \<Rightarrow> e \<noteq> out_of_range
    | Inr p' \<Rightarrow> shrunk cso p p' \<and> rows p' = rows p |` {k. ek_volumeRowId k \<noteq> vol}"
proof -
  let ?keys = "map fst (filter (\<lambda>(key, index). ek_volumeRowId key = vol) (fm_entries (pj_idToIndex p)))"
  note D = proj_okD [OF ok] and K = volume_keys [OF proj_okD(2) [OF ok], of vol]
  have A: "rows p |` (- set ?keys) = rows p |` {k. ek_volumeRowId k \<noteq> vol}"
    unfolding K by (auto simp: fun_eq_iff restrict_map_def domIff)
  show ?thesis
  proof (cases "?keys = []")
    case True
    have "m |` (- {}) = m" for m :: "EntryKey \<rightharpoonup> EntryRecord" by (simp add: restrict_map_def)
    then have "rows p |` {k. ek_volumeRowId k \<noteq> vol} = rows p" using A unfolding True by simp
    then show ?thesis unfolding EvictVolume_def Let_def using True ok fit by (simp add: shrunk_refl)
  next
    case False
    let ?ids = "fold (\<lambda>key ids. id_erase ids key) ?keys (pj_idToIndex p)"
    let ?q = "(invalidate_filenames p)\<lparr>pj_denseIterationOrderValid := False, pj_idToIndex := ?ids,
        pj_evictedVolumes := insert vol (pj_evictedVolumes p), pj_subtreeEvictionCount := pj_subtreeEvictionCount p + 1\<rparr>"
    let ?p = "(invalidate_filenames p)\<lparr>pj_denseIterationOrderValid := False\<rparr>"
    have p: "tables_ok ?p" "rows ?p = rows p" "ids_of ?p = ids_of p" using D(10) by (simp_all add: tables_ok_def rows_recs)
    note E = erase_fold [OF D(2), of ?keys] and R = erase_rows [OF p(1), of ?ids "- set ?keys", unfolded p(2,3)]
    have q: "tables_ok ?q" "rows ?q = rows p |` {k. ek_volumeRowId k \<noteq> vol}" using R E unfolding A by simp_all
    have "\<not> fx_building (pj_filenameIndex ?q)" using D(9) by (simp add: index_ok_def InvalidateFilenameIndex_def)
    from shrunk_compact [OF q(1) this fit finite_rows [OF D(2)] q(2), of cso] False show ?thesis
      by (auto simp: EvictVolume_def Let_def settings_def)
  qed
qed

lemma evict_victim_spec:
  assumes ok: "proj_ok cso p" and fit: "names_fit p" and v: "victim \<in> dom (rows p)"
  shows "\<exists>r. evict_victim cso est victim p = Some r \<and> (case r of Inl e \<Rightarrow> e \<noteq> out_of_range
    | Inr p' \<Rightarrow> shrunk cso p p' \<and> rows p' = rows p |` (- subtree (rows p) victim))"
proof -
  obtain q where q: "EvictSubtree cso victim p = Some q" "tables_ok q" "\<not> fx_building (pj_filenameIndex q)"
    "rows q = rows p |` (- subtree (rows p) victim)" "settings q = settings p"
    "pj_evictedVolumes q = insert (ek_volumeRowId victim) (pj_evictedVolumes p)"
    using EvictSubtree_spec [OF ok v] by blast
  have "case CompactStorage q of Inl e \<Rightarrow> e \<noteq> out_of_range | Inr p' \<Rightarrow> shrunk cso p p' \<and> rows p' = rows p |` (- subtree (rows p) victim)"
    using shrunk_compact [OF q(2,3) fit finite_rows [OF proj_okD(2) [OF ok]] q(4)] q(5,6) subtree_volume by auto
  then show ?thesis using q(1) by (cases "CompactStorage q") (auto simp: evict_victim_def shrunk_note)
qed

section \<open>The least recently used entry\<close>

definition best_of :: "(EntryKey \<times> u64) list \<Rightarrow> (EntryKey \<times> u64) option \<Rightarrow> (EntryKey \<times> u64) option" where
  "best_of xs = fold (\<lambda>(key, t). older key t) xs"

lemma best_of_Some: "best_of xs (Some (k, t)) = Some (k', t') \<Longrightarrow>
    (k', t') \<in> insert (k, t) (set xs) \<and> t' \<le> t \<and> (\<forall>(k'', t'') \<in> set xs. t' \<le> t'')"
proof (induction xs arbitrary: k t)
  case (Cons x xs)
  obtain kx tx where x: "x = (kx, tx)" by (cases x)
  show ?case
  proof (cases "tx < t")
    case True
    then have "best_of xs (Some (kx, tx)) = Some (k', t')" using Cons.prems by (simp add: best_of_def x older_def)
    from Cons.IH [OF this] show ?thesis using True x by (auto simp: less_imp_le)
  next
    case False
    then have "best_of xs (Some (k, t)) = Some (k', t')" using Cons.prems by (simp add: best_of_def x older_def)
    from Cons.IH [OF this] show ?thesis using False x by (auto simp: not_less)
  qed
qed (simp add: best_of_def)

lemma best_of_total: "best_of xs (Some kt) \<noteq> None"
  by (induction xs arbitrary: kt) (auto simp: best_of_def older_def split: prod.split)

lemma best_of_None: "best_of xs None = None \<longleftrightarrow> xs = []"
  using best_of_total by (cases xs) (auto simp: best_of_def older_def)

lemma best_of_least: "best_of xs None = Some (k, t) \<Longrightarrow> (k, t) \<in> set xs \<and> (\<forall>(k', t') \<in> set xs. t \<le> t')"
proof (cases xs)
  case (Cons x ys)
  assume "best_of xs None = Some (k, t)"
  then have "best_of ys (Some (fst x, snd x)) = Some (k, t)" by (simp add: Cons best_of_def older_def case_prod_unfold)
  from best_of_Some [OF this] show ?thesis using Cons by (auto simp: case_prod_unfold)
qed (simp add: best_of_def)

text \<open>Directories go first, then files, then volume roots. The visit keeps the best of each class.\<close>

definition victim_class :: "Projection \<Rightarrow> u32 \<Rightarrow> nat" where
  "victim_class p i =
     (if pe_parentFrn (EntryAt p i) = pe_frn (EntryAt p i) then 2 else if is_directory (EntryAt p i) then 0 else 1)"

definition timed :: "Projection \<Rightarrow> nat \<Rightarrow> (EntryKey \<times> u32) list \<Rightarrow> (EntryKey \<times> u64) list" where
  "timed p n kvs = map (\<lambda>(k, i). (k, access_time p i)) (filter (\<lambda>(k, i). victim_class p i = n) kvs)"

lemma timed_Cons: "timed p n ((k, i) # kvs) = (if victim_class p i = n then [(k, access_time p i)] else []) @ timed p n kvs"
  by (simp add: timed_def)

lemma best_of_simps: "best_of [] b = b" "best_of ((k, t) # xs) b = best_of xs (older k t b)"
  by (simp_all add: best_of_def)

lemma lru_visit_eq: "lru_visit p (k, i) s =
   (if victim_class p i = 2 then s\<lparr>lru_rootFallback := older k (access_time p i) (lru_rootFallback s)\<rparr>
    else if victim_class p i = 0 then s\<lparr>lru_oldestDirectory := older k (access_time p i) (lru_oldestDirectory s)\<rparr>
    else s\<lparr>lru_oldest := older k (access_time p i) (lru_oldest s)\<rparr>)"
  by (simp add: lru_visit_def victim_class_def Let_def)

lemma class_bound: "victim_class p i = 0 \<or> victim_class p i = 1 \<or> victim_class p i = 2"
  by (simp add: victim_class_def)

lemma lru_fold:
  "lru_oldestDirectory (fold (lru_visit p) kvs s) = best_of (timed p 0 kvs) (lru_oldestDirectory s)
   \<and> lru_oldest (fold (lru_visit p) kvs s) = best_of (timed p 1 kvs) (lru_oldest s)
   \<and> lru_rootFallback (fold (lru_visit p) kvs s) = best_of (timed p 2 kvs) (lru_rootFallback s)"
proof (induction kvs arbitrary: s)
  case (Cons kv kvs)
  obtain k i where kv: "kv = (k, i)" by (cases kv)
  show ?case using class_bound [of p i] by (elim disjE) (simp_all add: kv lru_visit_eq timed_Cons best_of_simps Cons.IH)
qed (simp add: best_of_def timed_def)

lemma LRU_eq:
  defines "best \<equiv> \<lambda>p n. best_of (timed p n (fm_entries (pj_idToIndex p))) None"
  shows "LeastRecentlyUsedEntry p =
    map_option fst (if best p 0 \<noteq> None then best p 0 else if best p 1 \<noteq> None then best p 1 else best p 2)"
  unfolding LeastRecentlyUsedEntry_def Let_def best_def by (simp add: lru_fold)

lemma timed_Nil: "timed p n kvs = [] \<longleftrightarrow> (\<forall>(k, i) \<in> set kvs. victim_class p i \<noteq> n)"
  by (auto simp: timed_def filter_empty_conv)

lemma LRU_None:
  assumes "fm_inv EntryKeyHash (pj_idToIndex p)"
  shows "LeastRecentlyUsedEntry p = None \<longleftrightarrow> rows p = Map.empty"
proof -
  have "LeastRecentlyUsedEntry p = None \<longleftrightarrow> (\<forall>n \<in> {0, 1, 2}. timed p n (fm_entries (pj_idToIndex p)) = [])"
    by (auto simp: LRU_eq best_of_None)
  also have "\<dots> \<longleftrightarrow> fm_entries (pj_idToIndex p) = []"
  proof (cases "fm_entries (pj_idToIndex p)")
    case (Cons kv kvs)
    then show ?thesis using class_bound [of p "snd kv"] by (cases kv) (auto simp: timed_Cons)
  qed (simp add: timed_def)
  also have "\<dots> \<longleftrightarrow> ids_of p = Map.empty" by (simp add: fm_map_def)
  also have "\<dots> \<longleftrightarrow> rows p = Map.empty" by (auto simp: fun_eq_iff rows_def)
  finally show ?thesis .
qed

lemma LRU_Some:
  assumes inv: "fm_inv EntryKeyHash (pj_idToIndex p)" and v: "LeastRecentlyUsedEntry p = Some victim"
  obtains i where "ids_of p victim = Some i"
    "\<And>k j. ids_of p k = Some j \<Longrightarrow> victim_class p i \<le> victim_class p j
       \<and> (victim_class p j = victim_class p i \<longrightarrow> access_time p i \<le> access_time p j)"
proof -
  let ?kvs = "fm_entries (pj_idToIndex p)"
  note iff = fm_entries_iff [OF inv]
  obtain n t where n: "best_of (timed p n ?kvs) None = Some (victim, t)" "\<forall>m < n. timed p m ?kvs = []"
  proof -
    let ?b = "\<lambda>n. best_of (timed p n ?kvs) None"
    have none: "?b n = None \<Longrightarrow> timed p n ?kvs = []" for n by (simp add: best_of_None)
    consider t where "?b 0 = Some (victim, t)" | t where "?b 0 = None" "?b 1 = Some (victim, t)"
      | t where "?b 0 = None" "?b 1 = None" "?b 2 = Some (victim, t)"
      using v unfolding LRU_eq by (cases "?b 0"; cases "?b 1"; cases "?b 2") auto
    then show thesis
    proof cases
      case (1 t)
      then show thesis using that by blast
    next
      case (2 t)
      then show thesis using that [of 1 t] none by simp
    next
      case (3 t)
      have "timed p m ?kvs = []" if "m < 2" for m using that none [OF 3(1)] none [OF 3(2)] by (auto dest: less_2_cases)
      then show thesis using that 3(3) by blast
    qed
  qed
  from best_of_least [OF n(1)] obtain i where i: "(victim, i) \<in> set ?kvs" "victim_class p i = n" "t = access_time p i"
    and least: "\<And>k j. (k, j) \<in> set ?kvs \<Longrightarrow> victim_class p j = n \<Longrightarrow> t \<le> access_time p j"
    by (auto simp: timed_def)
  have "n \<le> victim_class p j" if "(k, j) \<in> set ?kvs" for k j
    using n(2) that by (fastforce simp: timed_Nil not_less [symmetric])
  then show thesis using that [of i] i least by (auto simp: iff)
qed

section \<open>Enforcement ends and only shrinks\<close>

lemma LRU_row: "proj_ok cso p \<Longrightarrow> LeastRecentlyUsedEntry p = Some victim \<Longrightarrow> victim \<in> dom (rows p)"
  using LRU_Some [OF proj_okD(2)] by (metis dom_rows domI)

lemma victim_progress:
  assumes "proj_ok cso p" "victim \<in> dom (rows p)" "rows p' = rows p |` (- subtree (rows p) victim)"
  shows "card (dom (rows p')) < card (dom (rows p))"
proof -
  have "victim \<in> subtree (rows p) victim" using assms(2) by (auto intro: subtree.root)
  then have "dom (rows p') \<subset> dom (rows p)" using assms(2,3) by auto
  then show ?thesis using finite_rows [OF proj_okD(2) [OF assms(1)]] by (rule psubset_card_mono [rotated])
qed

lemma enforce_to_spec:
  assumes "proj_ok cso p" "names_fit p"
  shows "\<exists>r. enforce_to cso est targetBytes evictedAny p = Some r \<and> (case r of Inl e \<Rightarrow> e \<noteq> out_of_range
    | Inr (b, p') \<Rightarrow> shrunk cso p p' \<and> (est p' \<le> targetBytes \<or> rows p' = Map.empty))"
  using assms
proof (induction "card (dom (rows p))" arbitrary: p evictedAny rule: less_induct)
  case less
  note ok = less.prems(1) and fit = less.prems(2) and inv = proj_okD(2) [OF less.prems(1)]
  note step = enforce_to.simps [of cso est targetBytes evictedAny p]
  consider "est p \<le> targetBytes" | "est p > targetBytes" "LeastRecentlyUsedEntry p = None"
    | v where "est p > targetBytes" "LeastRecentlyUsedEntry p = Some v" by fastforce
  then show ?case
  proof cases
    case (3 v)
    have v: "v \<in> dom (rows p)" by (rule LRU_row [OF ok 3(2)])
    obtain r where r: "evict_victim cso est v p = Some r" "case r of Inl e \<Rightarrow> e \<noteq> out_of_range
        | Inr p' \<Rightarrow> shrunk cso p p' \<and> rows p' = rows p |` (- subtree (rows p) v)" using evict_victim_spec [OF ok fit v] by blast
    show ?thesis
    proof (cases r)
      case (Inr p1)
      then have p1: "shrunk cso p p1" "rows p1 = rows p |` (- subtree (rows p) v)" using r(2) by simp_all
      then have ok1: "proj_ok cso p1" "names_fit p1" by (simp_all add: shrunk_def)
      show ?thesis
      proof (cases "est p1 \<ge> est p \<and> fm_count (pj_idToIndex p1) = 0")
        case True
        then have "card (dom (rows p1)) = 0" using fm_map_dom_count [OF proj_okD(2) [OF ok1(1)]] by (simp add: dom_rows)
        then have "rows p1 = Map.empty" using finite_rows [OF proj_okD(2) [OF ok1(1)]] by simp
        then show ?thesis using step 3 r(1) Inr True p1(1) by simp
      next
        case False
        from less.hyps [OF victim_progress [OF ok v p1(2)] ok1, of True] obtain r' where
          "enforce_to cso est targetBytes True p1 = Some r'" "case r' of Inl e \<Rightarrow> e \<noteq> out_of_range
            | Inr (b, p') \<Rightarrow> shrunk cso p1 p' \<and> (est p' \<le> targetBytes \<or> rows p' = Map.empty)" by blast
        then show ?thesis using step 3 r(1) Inr False shrunk_trans [OF p1(1)] by (auto split: sum.splits)
      qed
    qed (use step 3 r in simp)
  next
    case 2
    then have "rows p = Map.empty" using LRU_None [OF inv] by blast
    then show ?thesis using step 2 shrunk_refl [OF ok fit] by simp
  qed (use step shrunk_refl [OF ok fit] in simp)
qed

lemma once_spec:
  assumes ok: "proj_ok cso p" and fit: "names_fit p"
  shows "\<exists>r. EnforceMemoryLimitOnceTo cso est targetBytes p = Some r \<and> (case r of Inl e \<Rightarrow> e \<noteq> out_of_range | Inr (b, p') \<Rightarrow> shrunk cso p p')"
proof -
  consider "\<not> pj_enforcingMemoryLimit p \<or> est p \<le> targetBytes" | "LeastRecentlyUsedEntry p = None"
    | v where "pj_enforcingMemoryLimit p" "est p > targetBytes" "LeastRecentlyUsedEntry p = Some v" by fastforce
  then show ?thesis
  proof cases
    case (3 v)
    obtain r where r: "evict_victim cso est v p = Some r" "case r of Inl e \<Rightarrow> e \<noteq> out_of_range
        | Inr p' \<Rightarrow> shrunk cso p p' \<and> rows p' = rows p |` (- subtree (rows p) v)"
      using evict_victim_spec [OF ok fit LRU_row [OF ok 3(3)], of est] by blast
    then show ?thesis using 3 by (cases r) (simp_all add: EnforceMemoryLimitOnceTo_def)
  qed (use shrunk_refl [OF ok fit] in \<open>simp_all add: EnforceMemoryLimitOnceTo_def\<close>)
qed

lemma passes_spec:
  "proj_ok cso p \<Longrightarrow> names_fit p \<Longrightarrow> \<exists>r. enforce_passes cso est low n evictedAny p = Some r
     \<and> (case r of Inl e \<Rightarrow> e \<noteq> out_of_range | Inr (b, p') \<Rightarrow> shrunk cso p p')"
proof (induction n arbitrary: p evictedAny)
  case (Suc n)
  show ?case
  proof (cases "est p \<le> low")
    case False
    obtain r where r: "EnforceMemoryLimitOnceTo cso est low p = Some r"
      "case r of Inl e \<Rightarrow> e \<noteq> out_of_range | Inr (b, p') \<Rightarrow> shrunk cso p p'" using once_spec [OF Suc.prems] by blast
    consider e where "r = Inl e" | p1 where "r = Inr (False, p1)" | p1 where "r = Inr (True, p1)" by (metis (full_types) sum.exhaust surj_pair)
    then show ?thesis
    proof cases
      case (3 p1)
      then have p1: "shrunk cso p p1" using r(2) by simp
      then obtain r' where "enforce_passes cso est low n True p1 = Some r'"
        "case r' of Inl e \<Rightarrow> e \<noteq> out_of_range | Inr (b, p') \<Rightarrow> shrunk cso p1 p'" using Suc.IH [of p1 True] by (auto simp: shrunk_def)
      then show ?thesis using False r(1) 3 p1 shrunk_trans [OF p1] by (auto split: sum.splits)
    qed (use False r in simp_all)
  qed (use shrunk_refl [OF Suc.prems] in simp)
qed (simp add: shrunk_refl)

definition enough :: "Estimate \<Rightarrow> nat \<Rightarrow> Projection \<Rightarrow> bool" where
  "enough est low p \<longleftrightarrow> est p \<le> low \<or> rows p = Map.empty \<or> pj_lastEvictionBytesAfter p \<ge> pj_lastEvictionBytesBefore p"

lemma volumes_spec:
  assumes "proj_ok cso p" "names_fit p"
  shows "\<exists>r. enforce_volumes est low evictedAny p = Some r \<and> (case r of Inl e \<Rightarrow> e \<noteq> out_of_range
    | Inr (b, p') \<Rightarrow> shrunk cso p p' \<and> enough est low p')"
  using assms
proof (induction "card (dom (rows p))" arbitrary: p evictedAny rule: less_induct)
  case less
  note ok = less.prems(1) and fit = less.prems(2)
  note step = enforce_volumes.simps [of est low evictedAny p]
  consider "est p \<le> low" | "est p > low" "LeastRecentlyUsedEntry p = None"
    | v where "est p > low" "LeastRecentlyUsedEntry p = Some v" by fastforce
  then show ?case
  proof cases
    case (3 v)
    let ?vol = "ek_volumeRowId v"
    have v: "v \<in> dom (rows p)" by (rule LRU_row [OF ok 3(2)])
    show ?thesis
    proof (cases "EvictVolume ?vol p")
      case (Inr p1)
      let ?p2 = "note_eviction est (est p) p1"
      have p1: "shrunk cso p p1" "rows p1 = rows p |` {k. ek_volumeRowId k \<noteq> ?vol}" using EvictVolume_spec [OF ok fit, of ?vol] Inr by simp_all
      then have p2: "shrunk cso p ?p2" "proj_ok cso ?p2" "names_fit ?p2" by (simp_all add: shrunk_note) (simp_all add: shrunk_def names_fit_def)
      have "dom (rows p1) \<subset> dom (rows p)" using v p1(2) by auto
      then have "card (dom (rows ?p2)) < card (dom (rows p))" using finite_rows [OF proj_okD(2) [OF ok]] by (simp add: psubset_card_mono)
      from less.hyps [OF this p2(2,3), of True] obtain r where r: "enforce_volumes est low True ?p2 = Some r"
        "case r of Inl e \<Rightarrow> e \<noteq> out_of_range | Inr (b, p') \<Rightarrow> shrunk cso ?p2 p' \<and> enough est low p'" by blast
      show ?thesis
      proof (cases "pj_lastEvictionBytesAfter ?p2 \<ge> est p")
        case True
        then have "enforce_volumes est low evictedAny p = Some (Inr (True, ?p2))" using step 3 Inr by (simp add: Let_def)
        then show ?thesis using p2(1) True by (simp add: enough_def)
      next
        case False
        then have "enforce_volumes est low evictedAny p = Some r" using step 3 Inr r(1) by (simp add: Let_def)
        then show ?thesis using r(2) shrunk_trans [OF p2(1)] by (auto split: sum.splits)
      qed
    qed (use step 3 EvictVolume_spec [OF ok fit, of ?vol] in simp)
  next
    case 2
    then have "rows p = Map.empty" using LRU_None [OF proj_okD(2) [OF ok]] by blast
    then show ?thesis using step 2 shrunk_refl [OF ok fit] by (simp add: enough_def)
  qed (use step shrunk_refl [OF ok fit] in \<open>simp add: enough_def\<close>)
qed

lemma Enforce_spec:
  assumes ok: "proj_ok cso p" and fit: "names_fit p"
  shows "\<exists>r. EnforceMemoryLimit cso est p = Some r \<and> (case r of Inl e \<Rightarrow> e \<noteq> out_of_range
    | Inr (b, p') \<Rightarrow> shrunk cso p p' \<and> (pj_enforcingMemoryLimit p \<longrightarrow>
        enough est (pj_maximumMemoryBytes p - pj_maximumMemoryBytes p div 5) p'))"
proof (cases "pj_enforcingMemoryLimit p")
  case True
  let ?low = "pj_maximumMemoryBytes p - pj_maximumMemoryBytes p div 5"
  obtain r where r: "enforce_passes cso est ?low kMaxEnforcementPasses False p = Some r"
    "case r of Inl e \<Rightarrow> e \<noteq> out_of_range | Inr (b, p') \<Rightarrow> shrunk cso p p'" using passes_spec [OF ok fit] by blast
  consider e where "r = Inl e" | b p1 where "r = Inr (b, p1)" by (metis sum.exhaust surj_pair)
  then show ?thesis
  proof cases
    case (2 b p1)
    then have p1: "shrunk cso p p1" using r(2) by simp
    then obtain r' where "enforce_volumes est ?low b p1 = Some r'" "case r' of Inl e \<Rightarrow> e \<noteq> out_of_range
        | Inr (b, p') \<Rightarrow> shrunk cso p1 p' \<and> enough est ?low p'" using volumes_spec [of cso p1 est ?low b] by (auto simp: shrunk_def)
    then show ?thesis using True r(1) 2 shrunk_trans [OF p1] by (auto simp: EnforceMemoryLimit_def Let_def split: sum.splits)
  qed (use True r in \<open>simp add: EnforceMemoryLimit_def\<close>)
qed (use shrunk_refl [OF ok fit] in \<open>simp add: EnforceMemoryLimit_def\<close>)

section \<open>Properties\<close>

text \<open>
  C9. Eviction removes exactly a subtree. For a row of a projection that satisfies the invariant, evicting it and compacting
  always returns; unless a hash table throws, the rows that are gone are the row and, below every directory among
  them, the rows that name it as parent, cycles of parents included; every other row keeps its
  record and its access time, the invariant holds again, and the volume is marked cold. It is stated for projections
  whose row names, counted with repetitions, have fewer than 2^32 characters in all (\<open>names_fit\<close>), so that the
  32 bit offsets of the rebuilt name arena do not wrap.
\<close>

theorem EvictSubtree_exact:
  assumes "proj_ok cso p" "names_fit p" "victim \<in> dom (rows p)"
  shows "\<exists>p1. EvictSubtree cso victim p = Some p1 \<and> (case CompactStorage p1 of Inl e \<Rightarrow> e \<noteq> out_of_range
    | Inr p' \<Rightarrow> proj_ok cso p' \<and> rows p' = rows p |` (- subtree (rows p) victim) \<and> times_of p' = times_of p |` (- subtree (rows p) victim)
        \<and> pj_freeList p' = [] \<and> pj_evictedVolumes p' = insert (ek_volumeRowId victim) (pj_evictedVolumes p))"
proof -
  obtain q where q: "EvictSubtree cso victim p = Some q" "tables_ok q" "\<not> fx_building (pj_filenameIndex q)"
    "rows q = rows p |` (- subtree (rows p) victim)" "times_of q = times_of p |` (- subtree (rows p) victim)"
    "pj_evictedVolumes q = insert (ek_volumeRowId victim) (pj_evictedVolumes p)"
    using EvictSubtree_spec [OF assms(1,3)] by blast
  have fit: "names_fit q"
    using name_total_mono [OF finite_rows [OF proj_okD(2) [OF assms(1)]], of "- subtree (rows p) victim"] assms(2) q(4) by (simp add: names_fit_def)
  have "pj_freeList p' = []" if "CompactStorage q = Inr p'" for p'
    using that by (auto simp: CompactStorage_def bind_res_def Let_def split: sum.splits)
  then show ?thesis using CompactStorage_spec [OF q(2,3) fit, of cso] q by (cases "CompactStorage q") auto
qed

theorem EvictSubtree_exact_witness:
  "\<exists>p p1. apply_changes fold_ordinal sample_changes new_projection = Inr p \<and> EvictSubtree fold_ordinal (key_of 1 default_FileId) p = Some p1
     \<and> CompactStorage p1 \<noteq> Inl out_of_range"
proof -
  obtain p where run: "apply_changes fold_ordinal sample_changes new_projection = Inr p" using sample_run by blast
  then have p: "proj_ok fold_ordinal p" "rows p = [key_of 1 default_FileId \<mapsto> sample_record]"
    using apply_changes_spec [OF sample_fits, of fold_ordinal] by (simp_all add: sample_rows)
  then have "names_fit p" "key_of 1 default_FileId \<in> dom (rows p)" by (simp_all add: names_fit_def name_total_def sample_record_def)
  from EvictSubtree_exact [OF p(1) this] obtain p1 where "EvictSubtree fold_ordinal (key_of 1 default_FileId) p = Some p1"
    and c: "case CompactStorage p1 of Inl e \<Rightarrow> e \<noteq> out_of_range | Inr p' \<Rightarrow> proj_ok fold_ordinal p'
      \<and> rows p' = rows p |` (- subtree (rows p) (key_of 1 default_FileId))
      \<and> times_of p' = times_of p |` (- subtree (rows p) (key_of 1 default_FileId)) \<and> pj_freeList p' = []
      \<and> pj_evictedVolumes p' = insert (ek_volumeRowId (key_of 1 default_FileId)) (pj_evictedVolumes p)" by blast
  then show ?thesis using run by (cases "CompactStorage p1") auto
qed

text \<open>
  C22. The eviction victim is the least recently used one. There is a victim exactly when the projection has rows. A
  victim is a live row; directories are preferred to files and files to volume roots, and no row of the victim's class
  has an older access time.
\<close>

theorem LeastRecentlyUsedEntry_oldest:
  assumes "proj_ok cso p"
  shows "case LeastRecentlyUsedEntry p of None \<Rightarrow> rows p = Map.empty
    | Some victim \<Rightarrow> \<exists>i. ids_of p victim = Some i \<and> (\<forall>k j. ids_of p k = Some j \<longrightarrow> victim_class p i \<le> victim_class p j
        \<and> (victim_class p j = victim_class p i \<longrightarrow> access_time p i \<le> access_time p j))"
proof (cases "LeastRecentlyUsedEntry p")
  case None
  then show ?thesis using LRU_None [OF proj_okD(2) [OF assms]] by simp
next
  case (Some victim)
  show ?thesis unfolding Some option.case by (rule LRU_Some [OF proj_okD(2) [OF assms] Some]) blast
qed

theorem LeastRecentlyUsedEntry_oldest_witness:
  "\<exists>p. apply_changes fold_ordinal sample_changes new_projection = Inr p \<and> LeastRecentlyUsedEntry p = Some (key_of 1 default_FileId)"
proof -
  obtain p where run: "apply_changes fold_ordinal sample_changes new_projection = Inr p" using sample_run by blast
  then have p: "proj_ok fold_ordinal p" "rows p = [key_of 1 default_FileId \<mapsto> sample_record]"
    using apply_changes_spec [OF sample_fits, of fold_ordinal] by (simp_all add: sample_rows)
  show ?thesis
  proof (cases "LeastRecentlyUsedEntry p")
    case None
    then show ?thesis using LeastRecentlyUsedEntry_oldest [OF p(1)] p(2) by simp
  next
    case (Some v)
    then have "v \<in> dom (rows p)" using LeastRecentlyUsedEntry_oldest [OF p(1)] by (auto simp: dom_rows)
    then show ?thesis using run Some p(2) by (auto split: if_splits)
  qed
qed

text \<open>
  C8. Enforcing the memory limit ends and loses nothing silently. From a projection that satisfies the invariant, setting
  an explicit limit and the watermark enforcement after a batch both return, whatever the memory estimate says. Unless a hash
  table throws, the invariant holds again, every row is unchanged or gone, a volume that lost a row is
  marked cold, and an explicit limit is met or the projection is empty. As for eviction, the row names are taken
  to have fewer than 2^32 characters in all (\<open>names_fit\<close>).
\<close>

theorem Enforcement_safe:
  assumes "proj_ok cso p" "names_fit p"
  shows "(\<exists>r. SetMaximumMemoryBytes cso est maximumBytes p = Some r \<and> (case r of Inl e \<Rightarrow> e \<noteq> out_of_range
      | Inr p' \<Rightarrow> proj_ok cso p' \<and> (\<forall>k. rows p' k = rows p k \<or> rows p' k = None \<and> NeedsReload p' (ek_volumeRowId k))
          \<and> (\<exists>q. p' = q\<lparr>pj_enforcingMemoryLimit := pj_enforcingMemoryLimit p\<rparr>
               \<and> (est q \<le> (if maximumBytes = 0 then kDefaultMaximumMemoryBytes else maximumBytes) \<or> rows q = Map.empty))))
    \<and> (\<exists>r. EnforceMemoryLimit cso est p = Some r \<and> (case r of Inl e \<Rightarrow> e \<noteq> out_of_range
      | Inr (evicted, p') \<Rightarrow> proj_ok cso p' \<and> (\<forall>k. rows p' k = rows p k \<or> rows p' k = None \<and> NeedsReload p' (ek_volumeRowId k))))"
proof -
  let ?limit = "if maximumBytes = 0 then kDefaultMaximumMemoryBytes else maximumBytes"
  let ?p = "p\<lparr>pj_maximumMemoryBytes := ?limit, pj_enforcingMemoryLimit := True\<rparr>"
  have p: "proj_ok cso ?p" "names_fit ?p" "rows ?p = rows p"
    using assms by (simp_all add: proj_ok_def tables_ok_def names_fit_def rows_recs)
  obtain r where r: "enforce_to cso est ?limit False ?p = Some r" "case r of Inl e \<Rightarrow> e \<noteq> out_of_range
      | Inr (b, p') \<Rightarrow> shrunk cso ?p p' \<and> (est p' \<le> ?limit \<or> rows p' = Map.empty)" using enforce_to_spec [OF p(1,2)] by blast
  have flag: "proj_ok cso (q\<lparr>pj_enforcingMemoryLimit := b\<rparr>) = proj_ok cso q" "rows (q\<lparr>pj_enforcingMemoryLimit := b\<rparr>) = rows q"
    "NeedsReload (q\<lparr>pj_enforcingMemoryLimit := b\<rparr>) = NeedsReload q" for q b
    by (simp_all add: proj_ok_def tables_ok_def rows_recs NeedsReload_def fun_eq_iff)
  have set_max: "SetMaximumMemoryBytes cso est maximumBytes p =
      Some (bind_res r (\<lambda>(evicted, p1). Inr (p1\<lparr>pj_enforcingMemoryLimit := pj_enforcingMemoryLimit p\<rparr>)))"
    using r(1) by (simp add: SetMaximumMemoryBytes_def EnforceMemoryLimitTo_def Let_def)
  have first: "case bind_res r (\<lambda>(evicted, p1). Inr (p1\<lparr>pj_enforcingMemoryLimit := pj_enforcingMemoryLimit p\<rparr>)) of Inl e \<Rightarrow> e \<noteq> out_of_range
      | Inr p' \<Rightarrow> proj_ok cso p' \<and> (\<forall>k. rows p' k = rows p k \<or> rows p' k = None \<and> NeedsReload p' (ek_volumeRowId k))
          \<and> (\<exists>q. p' = q\<lparr>pj_enforcingMemoryLimit := pj_enforcingMemoryLimit p\<rparr> \<and> (est q \<le> ?limit \<or> rows q = Map.empty))"
  proof (cases r)
    case (Inr bp)
    then obtain b q where bq: "r = Inr (b, q)" by (cases bp) auto
    then show ?thesis using r(2) p(3) by (simp add: flag shrunk_def) (auto simp: NeedsReload_def)
  qed (use r(2) in simp)
  obtain r' where r': "EnforceMemoryLimit cso est p = Some r'" "case r' of Inl e \<Rightarrow> e \<noteq> out_of_range | Inr (b, p') \<Rightarrow> shrunk cso p p'
      \<and> (pj_enforcingMemoryLimit p \<longrightarrow> enough est (pj_maximumMemoryBytes p - pj_maximumMemoryBytes p div 5) p')"
    using Enforce_spec [OF assms, of est] by blast
  have "case r' of Inl e \<Rightarrow> e \<noteq> out_of_range
      | Inr (evicted, p') \<Rightarrow> proj_ok cso p' \<and> (\<forall>k. rows p' k = rows p k \<or> rows p' k = None \<and> NeedsReload p' (ek_volumeRowId k))"
    using r'(2) by (cases r') (auto simp: shrunk_def NeedsReload_def)
  then show ?thesis using first r'(1) unfolding set_max by blast
qed

theorem Enforcement_safe_witness:
  "\<exists>p r. apply_changes fold_ordinal sample_changes new_projection = Inr p
     \<and> EnforceMemoryLimit fold_ordinal (\<lambda>p. length (pj_entries p)) p = Some r \<and> r \<noteq> Inl out_of_range"
proof -
  obtain p where run: "apply_changes fold_ordinal sample_changes new_projection = Inr p" using sample_run by blast
  then have p: "proj_ok fold_ordinal p" "rows p = [key_of 1 default_FileId \<mapsto> sample_record]"
    using apply_changes_spec [OF sample_fits, of fold_ordinal] by (simp_all add: sample_rows)
  then have "names_fit p" by (simp add: names_fit_def name_total_def sample_record_def)
  from conjunct2 [OF Enforcement_safe [OF p(1) this, of "\<lambda>p. length (pj_entries p)"]] obtain r where
    "EnforceMemoryLimit fold_ordinal (\<lambda>p. length (pj_entries p)) p = Some r" "case r of Inl e \<Rightarrow> e \<noteq> out_of_range
      | Inr (evicted, p') \<Rightarrow> proj_ok fold_ordinal p' \<and> (\<forall>k. rows p' k = rows p k \<or> rows p' k = None \<and> NeedsReload p' (ek_volumeRowId k))" by blast
  then show ?thesis using run by (cases r) auto
qed

end
