(* ===== verification/Browse.thy ===== *)
theory Browse
  imports Residency
begin

text \<open>
  Reading the projection (\<open>indexstore/src/Projection.cpp\<close> and \<open>Projection.h\<close>): iteration over all rows, by callback or
  by a cursor that survives between bounded chunks, the aggregate of a folder, and the path of a row.

  The traversal of \<open>GetFolderAggregate\<close> has no bound, so it is a partial function: \<open>None\<close> is running forever. A
  cancellation callback is the function from the number of its calls so far to its answer; an empty
  \<open>std::function\<close> is the one that never cancels. A cursor keeps the address of the entry array as a value of any type.
\<close>

section \<open>Iteration\<close>

definition entry_values :: "Projection \<Rightarrow> ProjectionEntry list" where
  "entry_values p = (if pj_denseIterationOrderValid p then pj_entries p
     else map (\<lambda>(key, index). EntryAt p index) (fm_entries (pj_idToIndex p)))"

text \<open>\<open>ForEachEntryValueUntil\<close>: the entries its visitor sees and whether it reached the end.\<close>

fun visit_until :: "(nat \<Rightarrow> bool) \<Rightarrow> nat \<Rightarrow> 'a list \<Rightarrow> 'a list \<times> bool" where
  "visit_until cancelled n [] = ([], True)"
| "visit_until cancelled n (e # es) =
     (if cancelled n then ([], False)
      else let (seen, finished) = visit_until cancelled (n + 1) es in (e # seen, finished))"

definition ForEachEntryValueUntil :: "(nat \<Rightarrow> bool) \<Rightarrow> Projection \<Rightarrow> ProjectionEntry list \<times> bool" where
  "ForEachEntryValueUntil cancelled p = visit_until cancelled 0 (entry_values p)"

text \<open>The table iterator: an index that skips the slots that are not live.\<close>

function skip_dead :: "('k, 'v) FlatHashMap \<Rightarrow> nat \<Rightarrow> nat" where
  "skip_dead m index = (if index < length (fm_keys m) \<and> fm_states m ! index \<noteq> 1 then skip_dead m (index + 1) else index)"
  by pat_completeness auto
termination
  by (relation "measure (\<lambda>(m, index). length (fm_keys m) - index)") auto

declare skip_dead.simps [simp del]

definition fm_begin :: "('k, 'v) FlatHashMap \<Rightarrow> nat" where
  "fm_begin m = skip_dead m 0"

definition fm_next :: "('k, 'v) FlatHashMap \<Rightarrow> nat \<Rightarrow> nat" where
  "fm_next m index = skip_dead m (index + 1)"

text \<open>A cursor made by default has no projection and yields nothing.\<close>

record 'a ProjectionEntryCursor =
  cu_attached :: bool
  cu_dense :: bool
  cu_denseIndex :: nat
  cu_iterator :: nat
  cu_entriesData :: 'a
  cu_mapBuckets :: nat

definition BeginEntryCursor :: "'a \<Rightarrow> Projection \<Rightarrow> 'a ProjectionEntryCursor" where
  "BeginEntryCursor entriesData p =
     \<lparr>cu_attached = True, cu_dense = pj_denseIterationOrderValid p, cu_denseIndex = 0,
      cu_iterator = (if pj_denseIterationOrderValid p then 0 else fm_begin (pj_idToIndex p)),
      cu_entriesData = entriesData, cu_mapBuckets = length (fm_keys (pj_idToIndex p))\<rparr>"

definition Stale :: "'a \<Rightarrow> Projection \<Rightarrow> 'a ProjectionEntryCursor \<Rightarrow> bool" where
  "Stale entriesData p c \<longleftrightarrow> cu_attached c \<and> (entriesData \<noteq> cu_entriesData c \<or> length (fm_keys (pj_idToIndex p)) \<noteq> cu_mapBuckets c)"

definition Next :: "'a \<Rightarrow> Projection \<Rightarrow> 'a ProjectionEntryCursor \<Rightarrow> ProjectionEntry option \<times> 'a ProjectionEntryCursor" where
  "Next entriesData p c =
     (if \<not> cu_attached c then (None, c)
      else if Stale entriesData p c then (None, c)
      else if cu_dense c then
        if cu_denseIndex c \<ge> length (pj_entries p) then (None, c)
        else (Some (pj_entries p ! cu_denseIndex c), c\<lparr>cu_denseIndex := cu_denseIndex c + 1\<rparr>)
      else if cu_iterator c = length (fm_keys (pj_idToIndex p)) then (None, c)
      else (Some (EntryAt p (fm_values (pj_idToIndex p) ! cu_iterator c)),
            c\<lparr>cu_iterator := fm_next (pj_idToIndex p) (cu_iterator c)\<rparr>))"

text \<open>Up to \<open>n\<close> calls of \<open>Next\<close>, stopped by the first that returns false: the entries and the cursor they leave.\<close>

fun drain :: "nat \<Rightarrow> 'a \<Rightarrow> Projection \<Rightarrow> 'a ProjectionEntryCursor \<Rightarrow> ProjectionEntry list \<times> 'a ProjectionEntryCursor" where
  "drain 0 entriesData p c = ([], c)"
| "drain (Suc n) entriesData p c =
     (case Next entriesData p c of
        (None, c1) \<Rightarrow> ([], c1)
      | (Some e, c1) \<Rightarrow> let (es, c2) = drain n entriesData p c1 in (e # es, c2))"

section \<open>Folder aggregates\<close>

record FolderAggregate =
  fa_itemCount :: u64
  fa_totalSizeBytes :: u64
  fa_totalAllocatedSizeBytes :: u64
  fa_allocatedBytesKnownCount :: u64
  fa_allocatedBytesTotalCount :: u64
  fa_complete :: bool

definition empty_aggregate :: FolderAggregate where
  "empty_aggregate = \<lparr>fa_itemCount = 0, fa_totalSizeBytes = 0, fa_totalAllocatedSizeBytes = 0, fa_allocatedBytesKnownCount = 0,
     fa_allocatedBytesTotalCount = 0, fa_complete = True\<rparr>"

definition saturatingAdd :: "u64 \<Rightarrow> u64 \<Rightarrow> bool \<Rightarrow> u64 \<times> bool" where
  "saturatingAdd destination v overflowed =
     (if - 1 - destination < v then (- 1, True) else (destination + v, overflowed))"

definition count_child :: "ProjectionEntry \<Rightarrow> FolderAggregate \<times> bool \<Rightarrow> FolderAggregate \<times> bool" where
  "count_child child s =
     (let (result, overflowed) = s;
          (sizeTotal, overflowed1) = saturatingAdd (fa_totalSizeBytes result) (pe_sizeBytes child) overflowed;
          result1 = result\<lparr>fa_itemCount := fa_itemCount result + 1, fa_totalSizeBytes := sizeTotal,
                           fa_allocatedBytesTotalCount := fa_allocatedBytesTotalCount result + 1\<rparr>
      in if pe_allocatedSizeKnown child
         then let (allocated, overflowed2) = saturatingAdd (fa_totalAllocatedSizeBytes result1) (pe_allocatedSizeBytes child) overflowed1
              in (result1\<lparr>fa_totalAllocatedSizeBytes := allocated,
                          fa_allocatedBytesKnownCount := fa_allocatedBytesKnownCount result1 + 1\<rparr>, overflowed2)
         else (result1, overflowed1))"

text \<open>The head of \<open>stack\<close> is the back of the vector.\<close>

partial_function (option) aggregate_walk ::
  "VolumeRowId \<Rightarrow> FileId list \<Rightarrow> FolderAggregate \<times> bool \<Rightarrow> Projection \<Rightarrow> ((FolderAggregate \<times> bool) \<times> Projection) option" where
  "aggregate_walk vol stack s p =
     (case stack of
        [] \<Rightarrow> Some (s, p)
      | current # rest \<Rightarrow>
          let (children, p1) = ChildIndices vol current p in
          aggregate_walk vol
            (rev (map (\<lambda>i. pe_frn (EntryAt p1 i)) (filter (\<lambda>i. is_directory (EntryAt p1 i)) children)) @ rest)
            (fold (\<lambda>i. count_child (EntryAt p1 i)) children s) p1)"

definition finish_aggregate :: "FolderAggregate \<Rightarrow> bool \<Rightarrow> FolderAggregate" where
  "finish_aggregate result overflowed = result\<lparr>fa_complete := \<not> overflowed
     \<and> fa_allocatedBytesKnownCount result = fa_allocatedBytesTotalCount result\<rparr>"

definition GetFolderAggregate :: "VolumeRowId \<Rightarrow> FileId \<Rightarrow> Projection \<Rightarrow> (FolderAggregate option \<times> Projection) option" where
  "GetFolderAggregate vol parentFrn p =
     (let (root, p1) = Find vol parentFrn p in
      case root of
        None \<Rightarrow> Some (None, p1)
      | Some _ \<Rightarrow>
          map_option (\<lambda>((result, overflowed), p2). (Some (finish_aggregate result overflowed), p2))
            (aggregate_walk vol [parentFrn] (empty_aggregate, False) p1))"

section \<open>Paths\<close>

record PathResult =
  pr_path :: u16string
  pr_reachedRoot :: bool

text \<open>The parent walk: the names from the leaf upwards, whether a root was met, the number of cancellation checks.\<close>

fun path_walk :: "nat \<Rightarrow> VolumeRowId \<Rightarrow> (nat \<Rightarrow> bool) \<Rightarrow> nat \<Rightarrow> FileId \<Rightarrow> EntryKey set \<Rightarrow> u32 list \<Rightarrow> Projection
    \<Rightarrow> (u32 list \<times> bool \<times> nat) \<times> Projection" where
  "path_walk 0 vol cancelled n current visited partsReversed p = ((partsReversed, False, n), p)"
| "path_walk (Suc depth) vol cancelled n current visited partsReversed p =
     (if cancelled n then ((partsReversed, False, n + 1), p)
      else if key_of vol current \<in> visited then ((partsReversed, False, n + 1), p)
      else case Find vol current p of
          (None, p1) \<Rightarrow> ((partsReversed, False, n + 1), p1)
        | (Some entry, p1) \<Rightarrow>
            if pe_parentFrn entry = current then ((partsReversed @ [pe_nameId entry], True, n + 1), p1)
            else path_walk depth vol cancelled (n + 1) (pe_parentFrn entry) (insert (key_of vol current) visited)
                   (partsReversed @ [pe_nameId entry]) p1)"

fun join_parts :: "NamePool \<Rightarrow> (nat \<Rightarrow> bool) \<Rightarrow> nat \<Rightarrow> u32 list \<Rightarrow> PathResult \<Rightarrow> PathResult" where
  "join_parts names cancelled n [] result = result"
| "join_parts names cancelled n (part # parts) result =
     (if cancelled n then result\<lparr>pr_reachedRoot := False\<rparr>
      else join_parts names cancelled (n + 1) parts
             (result\<lparr>pr_path := (if pr_path result \<noteq> [] then pr_path result @ [0x5C] else pr_path result) @ Get names part\<rparr>))"

definition ReconstructPathUntil :: "VolumeRowId \<Rightarrow> FileId \<Rightarrow> (nat \<Rightarrow> bool) \<Rightarrow> Projection \<Rightarrow> PathResult \<times> Projection" where
  "ReconstructPathUntil vol frn cancelled p =
     (let ((partsReversed, reachedRoot, n), p1) = path_walk kMaxProjectionPathDepth vol cancelled 0 frn {} [] p
      in (join_parts (pj_namePool p1) cancelled n (rev partsReversed) \<lparr>pr_path = [], pr_reachedRoot = reachedRoot\<rparr>, p1))"

definition Projection_ReconstructPath :: "VolumeRowId \<Rightarrow> FileId \<Rightarrow> Projection \<Rightarrow> PathResult \<times> Projection" where
  "Projection_ReconstructPath vol frn p = ReconstructPathUntil vol frn (\<lambda>n. False) p"

section \<open>Iteration visits every row once\<close>

lemma rows_id: "proj_ok cso p \<Longrightarrow> rows p k = Some r \<Longrightarrow> er_id r = ek_frn k"
  using ids_okD(2) [OF proj_okD(3)] by (fastforce simp: rows_def to_record_def entry_key_def EntryAt_def)

text \<open>Every row is stored under its own identity.\<close>

definition keyed :: "(EntryKey \<rightharpoonup> EntryRecord) \<Rightarrow> bool" where
  "keyed m \<longleftrightarrow> (\<forall>k r. m k = Some r \<longrightarrow> er_id r = ek_frn k)"

lemma rows_keyed: "proj_ok cso p \<Longrightarrow> keyed (rows p)"
  by (simp add: keyed_def rows_id)

lemma dense_slots:
  assumes ok: "proj_ok cso p" and dense: "pj_denseIterationOrderValid p" and i: "i < length (pj_entries p)"
  shows "ids_of p (entry_key (pj_entries p ! i)) = Some (of_nat i)"
proof -
  note D = proj_okD [OF ok]
  have "pj_freeList p = []" using ok dense by (simp add: proj_ok_def)
  then have all: "live_slot (ids_of p) (pj_entries p) j" if "unat j < length (pj_entries p)" for j
    using D(7) that by (auto simp: free_ok_def)
  have "length (pj_entries p) \<le> 2 ^ 32" using D(3) by (simp add: ids_ok_def)
  then have "unat (of_nat i :: u32) = i" using i by (simp add: unat_of_nat take_bit_nat_eq_self_iff)
  then show ?thesis using all [of "of_nat i"] i by (simp add: live_slot_def)
qed

lemma entry_values_dense:
  assumes ok: "proj_ok cso p" and dense: "pj_denseIterationOrderValid p"
  shows "distinct (map entry_key (pj_entries p))"
    "set (pj_entries p) = {EntryAt p i | k i. ids_of p k = Some i}"
proof -
  note S = dense_slots [OF ok dense] and L = proj_okD(3) [OF ok]
  have len: "length (pj_entries p) \<le> 2 ^ 32" using L by (simp add: ids_ok_def)
  show "distinct (map entry_key (pj_entries p))" unfolding distinct_conv_nth length_map
  proof (intro allI impI)
    fix i j assume i: "i < length (pj_entries p)" and j: "j < length (pj_entries p)" and ne: "i \<noteq> j"
    show "map entry_key (pj_entries p) ! i \<noteq> map entry_key (pj_entries p) ! j"
    proof
      assume "map entry_key (pj_entries p) ! i = map entry_key (pj_entries p) ! j"
      then have "entry_key (pj_entries p ! i) = entry_key (pj_entries p ! j)" using i j by simp
      then have "(of_nat i :: u32) = of_nat j" using S [OF i] S [OF j] by simp
      then show False using i j ne len by (simp add: word_unat_eq_iff unat_of_nat take_bit_nat_eq_self)
    qed
  qed
  show "set (pj_entries p) = {EntryAt p i | k i. ids_of p k = Some i}"
  proof (intro set_eqI iffI)
    fix e assume "e \<in> set (pj_entries p)"
    then obtain i where i: "i < length (pj_entries p)" "e = pj_entries p ! i" by (auto simp: in_set_conv_nth)
    have "unat (of_nat i :: u32) = i" using i len by (simp add: unat_of_nat take_bit_nat_eq_self)
    then have "e = EntryAt p (of_nat i)" using i by (simp add: EntryAt_def)
    then show "e \<in> {EntryAt p i | k i. ids_of p k = Some i}" using S [OF i(1)] by blast
  next
    fix e assume "e \<in> {EntryAt p i | k i. ids_of p k = Some i}"
    then show "e \<in> set (pj_entries p)" using ids_okD(1) [OF L] by (auto simp: EntryAt_def)
  qed
qed

lemma entry_values_spec:
  assumes ok: "proj_ok cso p"
  shows "distinct (map entry_key (entry_values p))"
    "set (entry_values p) = {EntryAt p i | k i. ids_of p k = Some i}"
proof -
  note D = proj_okD [OF ok] and iff = fm_entries_iff [OF proj_okD(2) [OF ok]]
  have key: "entry_key (EntryAt p i) = k" if "(k, i) \<in> set (fm_entries (pj_idToIndex p))" for k i
    using that ids_okD(2) [OF D(3)] iff by (simp add: EntryAt_def)
  have e: "map entry_key (map (\<lambda>(key, index). EntryAt p index) (fm_entries (pj_idToIndex p))) = map fst (fm_entries (pj_idToIndex p))"
    using key by auto
  show "distinct (map entry_key (entry_values p))"
    using distinct_fm_entries [OF D(2)] entry_values_dense(1) [OF ok]
    by (cases "pj_denseIterationOrderValid p") (simp_all only: entry_values_def if_True if_False e)
  show "set (entry_values p) = {EntryAt p i | k i. ids_of p k = Some i}"
    using entry_values_dense(2) [OF ok] iff by (auto simp: entry_values_def) blast+
qed

lemma entry_values_rows:
  assumes ok: "proj_ok cso p"
  shows "(\<lambda>e. (entry_key e, to_record (pj_namePool p) e)) ` set (entry_values p) = {(k, r). rows p k = Some r}"
  unfolding entry_values_spec(2) [OF ok] using ids_okD(2) [OF proj_okD(3) [OF ok]]
  by (force simp: rows_def EntryAt_def image_iff)

lemma visit_until_spec:
  "visit_until cancelled n es = (seen, finished) \<Longrightarrow> seen = take (length seen) es \<and> (finished \<longleftrightarrow> seen = es)"
  by (induction es arbitrary: n seen finished) (auto split: if_splits prod.splits)

section \<open>The cursor\<close>

definition live_from :: "('k, 'v) FlatHashMap \<Rightarrow> nat \<Rightarrow> nat list" where
  "live_from m i = filter (\<lambda>j. fm_states m ! j = 1) [i..<length (fm_keys m)]"

lemma skip_dead_live:
  "i \<le> length (fm_keys m) \<Longrightarrow> skip_dead m i \<le> length (fm_keys m) \<and> live_from m (skip_dead m i) = live_from m i
     \<and> (skip_dead m i < length (fm_keys m) \<longrightarrow> fm_states m ! skip_dead m i = 1)"
proof (induction m i rule: skip_dead.induct)
  case (1 m i)
  show ?case
  proof (cases "i < length (fm_keys m) \<and> fm_states m ! i \<noteq> 1")
    case True
    then have "live_from m i = live_from m (i + 1)" by (simp add: live_from_def upt_conv_Cons)
    then show ?thesis using "1.IH" [OF True] True by (simp add: skip_dead.simps [of m i])
  qed (use "1.prems" in \<open>auto simp: skip_dead.simps [of m i]\<close>)
qed

text \<open>What a cursor still has to yield.\<close>

definition remaining :: "Projection \<Rightarrow> 'a ProjectionEntryCursor \<Rightarrow> ProjectionEntry list" where
  "remaining p c = (if cu_dense c then drop (cu_denseIndex c) (pj_entries p)
     else map (\<lambda>j. EntryAt p (fm_values (pj_idToIndex p) ! j)) (live_from (pj_idToIndex p) (cu_iterator c)))"

definition cursor_ok :: "'a \<Rightarrow> Projection \<Rightarrow> 'a ProjectionEntryCursor \<Rightarrow> bool" where
  "cursor_ok data p c \<longleftrightarrow> cu_attached c \<and> \<not> Stale data p c \<and> (\<not> cu_dense c \<longrightarrow> cu_iterator c \<le> length (fm_keys (pj_idToIndex p))
     \<and> (cu_iterator c < length (fm_keys (pj_idToIndex p)) \<longrightarrow> fm_states (pj_idToIndex p) ! cu_iterator c = 1))"

lemma Next_spec:
  assumes "cursor_ok data p c"
  shows "case remaining p c of [] \<Rightarrow> Next data p c = (None, c)
    | e # es \<Rightarrow> \<exists>c'. Next data p c = (Some e, c') \<and> cursor_ok data p c' \<and> remaining p c' = es"
proof (cases "cu_dense c")
  case True
  show ?thesis
  proof (cases "cu_denseIndex c < length (pj_entries p)")
    case lt: True
    then have "remaining p c = pj_entries p ! cu_denseIndex c # drop (Suc (cu_denseIndex c)) (pj_entries p)"
      using True by (simp add: remaining_def Cons_nth_drop_Suc)
    then show ?thesis using assms True lt by (simp add: Next_def cursor_ok_def remaining_def Stale_def)
  qed (use assms True in \<open>simp add: Next_def cursor_ok_def remaining_def\<close>)
next
  case False
  let ?m = "pj_idToIndex p"
  show ?thesis
  proof (cases "cu_iterator c < length (fm_keys ?m)")
    case lt: True
    then have "live_from ?m (cu_iterator c) = cu_iterator c # live_from ?m (fm_next ?m (cu_iterator c))"
      "fm_next ?m (cu_iterator c) \<le> length (fm_keys ?m)"
      "fm_next ?m (cu_iterator c) < length (fm_keys ?m) \<Longrightarrow> fm_states ?m ! fm_next ?m (cu_iterator c) = 1"
      using assms False skip_dead_live [of "cu_iterator c + 1" ?m]
      by (simp_all add: fm_next_def cursor_ok_def) (simp add: live_from_def upt_conv_Cons)
    then show ?thesis using assms False lt by (simp add: Next_def cursor_ok_def remaining_def Stale_def)
  qed (use assms False in \<open>simp add: Next_def cursor_ok_def remaining_def live_from_def\<close>)
qed

lemma drain_spec:
  "cursor_ok data p c \<Longrightarrow> \<exists>c'. drain n data p c = (take n (remaining p c), c') \<and> cursor_ok data p c'
     \<and> remaining p c' = drop n (remaining p c)"
proof (induction n arbitrary: c)
  case (Suc n)
  show ?case
  proof (cases "remaining p c")
    case Nil
    then show ?thesis using Next_spec [OF Suc.prems] Suc.prems by simp
  next
    case (Cons e es)
    then obtain c' where c': "Next data p c = (Some e, c')" "cursor_ok data p c'" "remaining p c' = es"
      using Next_spec [OF Suc.prems] by auto
    from Suc.IH [OF c'(2)] show ?thesis using c' Cons by auto
  qed
qed simp

lemma begin_spec:
  assumes ok: "proj_ok cso p"
  shows "cursor_ok data p (BeginEntryCursor data p)" "remaining p (BeginEntryCursor data p) = entry_values p"
proof -
  note F = skip_dead_live [of 0 "pj_idToIndex p"] fm_invD(2) [OF proj_okD(2) [OF ok]]
  show "cursor_ok data p (BeginEntryCursor data p)"
    using F(1) by (simp add: cursor_ok_def BeginEntryCursor_def Stale_def fm_begin_def)
  show "remaining p (BeginEntryCursor data p) = entry_values p"
    using F by (simp add: remaining_def BeginEntryCursor_def entry_values_def fm_begin_def fm_entries_def live_from_def comp_def)
qed

section \<open>Descendants\<close>

definition children_in :: "(EntryKey \<rightharpoonup> EntryRecord) \<Rightarrow> EntryKey \<Rightarrow> EntryKey set" where
  "children_in m k = {c. \<exists>r. m c = Some r \<and> ek_volumeRowId c = ek_volumeRowId k \<and> er_parentId r = ek_frn k \<and> er_id r \<noteq> ek_frn k}"

definition dir_row :: "(EntryKey \<rightharpoonup> EntryRecord) \<Rightarrow> EntryKey \<Rightarrow> bool" where
  "dir_row m k \<longleftrightarrow> (\<exists>r. m k = Some r \<and> er_attributes r AND kFileAttributeDirectory \<noteq> 0)"

inductive_set below :: "(EntryKey \<rightharpoonup> EntryRecord) \<Rightarrow> EntryKey \<Rightarrow> EntryKey set" for m root where
  direct: "c \<in> children_in m root \<Longrightarrow> c \<in> below m root"
| deeper: "k \<in> below m root \<Longrightarrow> dir_row m k \<Longrightarrow> c \<in> children_in m k \<Longrightarrow> c \<in> below m root"

text \<open>A directory that is among its own descendants.\<close>

definition cyclic_dir :: "(EntryKey \<rightharpoonup> EntryRecord) \<Rightarrow> EntryKey \<Rightarrow> bool" where
  "cyclic_dir m k \<longleftrightarrow> k \<in> below m k \<and> dir_row m k"

lemma one_parent: "x \<in> children_in m q \<Longrightarrow> x \<in> children_in m q' \<Longrightarrow> q = q'"
  by (cases q, cases q') (auto simp: children_in_def)

lemma below_dom: "k \<in> below m root \<Longrightarrow> k \<in> dom m"
  by (induction rule: below.induct) (auto simp: children_in_def)

lemma below_first:
  "x \<in> below m s \<Longrightarrow> x \<in> children_in m s \<or> (\<exists>c \<in> children_in m s. dir_row m c \<and> x \<in> below m c)"
  by (induction rule: below.induct) (blast intro: below.intros)+

lemma below_above: "x \<in> below m c \<Longrightarrow> c \<in> children_in m s \<Longrightarrow> dir_row m c \<Longrightarrow> x \<in> below m s"
  by (induction rule: below.induct) (blast intro: below.intros)+

lemma cyclic_child:
  assumes id: "keyed m" and cyc: "cyclic_dir m s"
  shows "\<exists>c \<in> children_in m s. cyclic_dir m c"
proof -
  have "s \<notin> children_in m s" using id by (auto simp: children_in_def keyed_def)
  then obtain c where c: "c \<in> children_in m s" "dir_row m c" "s \<in> below m c"
    using below_first [of s m s] cyc by (auto simp: cyclic_dir_def)
  then have "c \<in> below m c" using cyc by (auto simp: cyclic_dir_def intro: below.deeper)
  then show ?thesis using c by (auto simp: cyclic_dir_def)
qed

text \<open>
  The loop invariant: \<open>counted\<close> are the rows counted so far; the stack holds the directories whose children are still
  to be counted.
\<close>

definition agg_inv :: "(EntryKey \<rightharpoonup> EntryRecord) \<Rightarrow> EntryKey \<Rightarrow> EntryKey list \<Rightarrow> EntryKey set \<Rightarrow> bool" where
  "agg_inv m root stack counted \<longleftrightarrow> distinct stack \<and> set stack \<subseteq> insert root counted \<and> counted \<subseteq> below m root
     \<and> (\<forall>s \<in> set stack. s = root \<or> dir_row m s)
     \<and> (\<forall>x \<in> counted. \<exists>q \<in> insert root counted - set stack. x \<in> children_in m q)
     \<and> (\<forall>q \<in> insert root counted - set stack. q = root \<or> dir_row m q \<longrightarrow> children_in m q \<subseteq> counted)"

lemma agg_invD:
  assumes "agg_inv m root stack counted"
  shows "distinct stack" "set stack \<subseteq> insert root counted" "counted \<subseteq> below m root"
    "s \<in> set stack \<Longrightarrow> s = root \<or> dir_row m s"
    "x \<in> counted \<Longrightarrow> \<exists>q \<in> insert root counted - set stack. x \<in> children_in m q"
    "q \<in> insert root counted - set stack \<Longrightarrow> q = root \<or> dir_row m q \<Longrightarrow> children_in m q \<subseteq> counted"
  using assms unfolding agg_inv_def by (elim conjE, (assumption | blast))+

lemma agg_step:
  assumes id: "keyed m" and acyclic: "\<not> cyclic_dir m root"
    and inv: "agg_inv m root (s # rest) counted"
    and ds: "distinct ds" "set ds = {c \<in> children_in m s. dir_row m c}"
  shows "children_in m s \<inter> counted = {} \<and> agg_inv m root (ds @ rest) (counted \<union> children_in m s)"
proof -
  note I = agg_invD(1-3,5,6) [OF inv]
  have top: "s = root \<or> dir_row m s" using agg_invD(4) [OF inv] by simp
  have fresh: "children_in m s \<inter> counted = {}"
  proof (rule ccontr)
    assume "children_in m s \<inter> counted \<noteq> {}"
    then obtain x where x: "x \<in> children_in m s" "x \<in> counted" by blast
    from I(4) [OF x(2)] obtain q where "q \<in> insert root counted - set (s # rest)" "x \<in> children_in m q" by blast
    moreover from this(2) x(1) have "q = s" by (rule one_parent)
    ultimately show False by simp
  qed
  have below: "children_in m s \<subseteq> below m root" using I(2,3) top by (auto intro: below.intros)
  have self: "s \<notin> children_in m s" using id by (auto simp: children_in_def keyed_def)
  have new: "c \<notin> insert root counted" if "c \<in> set ds" for c
    using that ds(2) fresh below acyclic by (auto simp: cyclic_dir_def)
  have dst: "distinct (ds @ rest)" using I(1,2) ds(1) new by auto
  have parents: "\<exists>q \<in> insert root (counted \<union> children_in m s) - set (ds @ rest). x \<in> children_in m q"
    if x: "x \<in> counted \<union> children_in m s" for x
  proof (cases "x \<in> counted")
    case True
    then obtain q where "q \<in> insert root counted - set (s # rest)" "x \<in> children_in m q" using I(4) by blast
    then show ?thesis using new by auto
  next
    case False
    then have "x \<in> children_in m s" "s \<in> insert root counted - set (ds @ rest)" using x I(1,2) ds(2) self by auto
    then show ?thesis by blast
  qed
  have closed: "children_in m q \<subseteq> counted \<union> children_in m s"
    if "q \<in> insert root (counted \<union> children_in m s) - set (ds @ rest)" "q = root \<or> dir_row m q" for q
    using that I(5) [of q] ds(2) by (cases "q = s") auto
  have dirs: "q = root \<or> dir_row m q" if "q \<in> set (ds @ rest)" for q
    using that agg_invD(4) [OF inv, of q] ds(2) by auto
  have sub: "set (ds @ rest) \<subseteq> insert root (counted \<union> children_in m s)" using I(2) ds(2) by auto
  have "\<forall>q \<in> set (ds @ rest). q = root \<or> dir_row m q" using dirs by blast
  moreover have "\<forall>x \<in> counted \<union> children_in m s. \<exists>q \<in> insert root (counted \<union> children_in m s) - set (ds @ rest). x \<in> children_in m q"
    using parents by (rule ballI)
  moreover have "\<forall>q \<in> insert root (counted \<union> children_in m s) - set (ds @ rest). q = root \<or> dir_row m q \<longrightarrow>
      children_in m q \<subseteq> counted \<union> children_in m s" using closed by (intro ballI impI)
  moreover have "counted \<union> children_in m s \<subseteq> below m root" using I(3) below by simp
  ultimately have "agg_inv m root (ds @ rest) (counted \<union> children_in m s)"
    unfolding agg_inv_def using dst sub by (intro conjI)
  then show ?thesis using fresh by simp
qed

lemma agg_end: "agg_inv m root [] counted \<Longrightarrow> counted = below m root"
proof (intro equalityI subsetI)
  fix x assume "agg_inv m root [] counted" "x \<in> below m root"
  from this(2,1) show "x \<in> counted" by (induction rule: below.induct) (auto simp: agg_inv_def)
qed (auto simp: agg_inv_def)

section \<open>The sums\<close>

definition size_sum :: "(EntryKey \<rightharpoonup> EntryRecord) \<Rightarrow> EntryKey set \<Rightarrow> nat" where
  "size_sum m S = (\<Sum>k\<in>S. unat (er_sizeBytes (the (m k))))"

definition known_rows :: "(EntryKey \<rightharpoonup> EntryRecord) \<Rightarrow> EntryKey set \<Rightarrow> EntryKey set" where
  "known_rows m S = {k \<in> S. er_allocatedSizeKnown (the (m k))}"

definition allocated_sum :: "(EntryKey \<rightharpoonup> EntryRecord) \<Rightarrow> EntryKey set \<Rightarrow> nat" where
  "allocated_sum m S = (\<Sum>k\<in>known_rows m S. unat (er_allocatedSizeBytes (the (m k))))"

abbreviation max64 :: nat where "max64 \<equiv> 2 ^ 64 - 1"

lemma unat_u64_max: "unat (x :: u64) \<le> max64"
proof -
  have "unat x < 2 ^ 64" using unsigned_less [of x, where 'a = nat] by simp
  then show ?thesis by linarith
qed

lemma saturatingAdd_spec:
  assumes "saturatingAdd d v ov = (d', ov')" "unat d = min t max64" "t > max64 \<Longrightarrow> ov"
  shows "unat d' = min (t + unat v) max64" "ov' \<longleftrightarrow> ov \<or> t + unat v > max64"
proof -
  have top: "unat (- 1 :: u64) = max64" by (simp add: unsigned_minus_1_eq_mask mask_eq_exp_minus_1)
  have d: "unat (- 1 - d) = max64 - unat d" unfolding top [symmetric] by (rule unat_sub) simp
  have lt: "- 1 - d < v \<longleftrightarrow> max64 - unat d < unat v" by (simp add: word_less_nat_alt d)
  have bounds: "unat d \<le> max64" "unat v \<le> max64" using unat_u64_max by blast+
  have add: "unat (d + v) = unat d + unat v" if "\<not> max64 - unat d < unat v"
    using that bounds iffD1 [OF unat_add_lem, of d v] by simp
  show "unat d' = min (t + unat v) max64" "ov' \<longleftrightarrow> ov \<or> t + unat v > max64"
    using assms lt add top bounds by (auto simp: saturatingAdd_def min_def split: if_splits)
qed

definition agg_of :: "(EntryKey \<rightharpoonup> EntryRecord) \<Rightarrow> EntryKey set \<Rightarrow> FolderAggregate \<times> bool \<Rightarrow> bool" where
  "agg_of m S s \<longleftrightarrow> unat (fa_itemCount (fst s)) = card S \<and> unat (fa_totalSizeBytes (fst s)) = min (size_sum m S) max64
     \<and> unat (fa_totalAllocatedSizeBytes (fst s)) = min (allocated_sum m S) max64
     \<and> unat (fa_allocatedBytesKnownCount (fst s)) = card (known_rows m S) \<and> unat (fa_allocatedBytesTotalCount (fst s)) = card S
     \<and> (snd s \<longleftrightarrow> size_sum m S > max64 \<or> allocated_sum m S > max64)"

lemma unat_plus_one: "unat x < n \<Longrightarrow> n \<le> max64 \<Longrightarrow> unat (x + 1 :: u64) = unat x + 1"
  using unat_add_lem [of x 1] by simp

lemma sums_insert:
  assumes "finite S" "k \<notin> S" "m k = Some r"
  shows "size_sum m (insert k S) = size_sum m S + unat (er_sizeBytes r)"
    "known_rows m (insert k S) = (if er_allocatedSizeKnown r then insert k (known_rows m S) else known_rows m S)"
    "k \<notin> known_rows m S" "finite (known_rows m S)" "card (known_rows m S) \<le> card S"
    "allocated_sum m (insert k S) = allocated_sum m S + (if er_allocatedSizeKnown r then unat (er_allocatedSizeBytes r) else 0)"
proof -
  show known: "known_rows m (insert k S) = (if er_allocatedSizeKnown r then insert k (known_rows m S) else known_rows m S)"
    "k \<notin> known_rows m S" "finite (known_rows m S)" using assms by (auto simp: known_rows_def)
  show "size_sum m (insert k S) = size_sum m S + unat (er_sizeBytes r)" using assms by (simp add: size_sum_def)
  show "card (known_rows m S) \<le> card S" using assms(1) by (auto simp: known_rows_def intro: card_mono)
  show "allocated_sum m (insert k S) = allocated_sum m S + (if er_allocatedSizeKnown r then unat (er_allocatedSizeBytes r) else 0)"
    unfolding allocated_sum_def known(1) using known(2,3) assms(3) by simp
qed

lemma count_child_spec:
  assumes agg: "agg_of m S s" and S: "finite S" "k \<notin> S" "card S < max64" and r: "m k = Some (to_record names e)"
  shows "agg_of m (insert k S) (count_child e s)"
proof -
  obtain a ov where s: "s = (a, ov)" by fastforce
  note I = sums_insert [where m = m and k = k, OF S(1,2) r]
  have A: "unat (fa_itemCount a) = card S" "unat (fa_totalSizeBytes a) = min (size_sum m S) max64"
    "unat (fa_totalAllocatedSizeBytes a) = min (allocated_sum m S) max64" "unat (fa_allocatedBytesKnownCount a) = card (known_rows m S)"
    "unat (fa_allocatedBytesTotalCount a) = card S" "ov \<longleftrightarrow> size_sum m S > max64 \<or> allocated_sum m S > max64"
    using agg unfolding s agg_of_def fst_conv snd_conv by blast+
  have f [simp]: "er_sizeBytes (to_record names e) = pe_sizeBytes e" "er_allocatedSizeKnown (to_record names e) = pe_allocatedSizeKnown e"
    "er_allocatedSizeBytes (to_record names e) = pe_allocatedSizeBytes e" by (simp_all add: to_record_def)
  obtain t1 ov1 where t: "saturatingAdd (fa_totalSizeBytes a) (pe_sizeBytes e) ov = (t1, ov1)" by fastforce
  have T: "unat t1 = min (size_sum m (insert k S)) max64" "ov1 \<longleftrightarrow> size_sum m (insert k S) > max64 \<or> allocated_sum m S > max64"
    using saturatingAdd_spec [OF t A(2)] A(6) unfolding I(1) f by linarith+
  obtain t2 ov2 where u: "saturatingAdd (fa_totalAllocatedSizeBytes a) (pe_allocatedSizeBytes e) ov1 = (t2, ov2)" by fastforce
  have U: "unat t2 = min (allocated_sum m (insert k S)) max64"
    "ov2 \<longleftrightarrow> size_sum m (insert k S) > max64 \<or> allocated_sum m (insert k S) > max64" if "pe_allocatedSizeKnown e"
    using saturatingAdd_spec [OF u A(3)] T(2) that unfolding I(6) f by (simp_all only: if_True, linarith+)
  have one: "unat (fa_itemCount a + 1) = card (insert k S)" "unat (fa_allocatedBytesTotalCount a + 1) = card (insert k S)"
    "unat (fa_allocatedBytesKnownCount a + 1) = card (insert k (known_rows m S))"
    using S(3) I(3,4,5) A(1,4,5) S(1,2) unat_plus_one [of "fa_itemCount a" max64] unat_plus_one [of "fa_allocatedBytesTotalCount a" max64]
      unat_plus_one [of "fa_allocatedBytesKnownCount a" max64] by simp_all
  show ?thesis
  proof (cases "pe_allocatedSizeKnown e")
    case True
    then have "count_child e s = (a\<lparr>fa_itemCount := fa_itemCount a + 1, fa_totalSizeBytes := t1,
        fa_allocatedBytesTotalCount := fa_allocatedBytesTotalCount a + 1, fa_totalAllocatedSizeBytes := t2,
        fa_allocatedBytesKnownCount := fa_allocatedBytesKnownCount a + 1\<rparr>, ov2)" by (simp add: count_child_def s t u)
    then show ?thesis unfolding agg_of_def using T(1) U [OF True] one I(2) True by simp
  next
    case False
    then have "count_child e s = (a\<lparr>fa_itemCount := fa_itemCount a + 1, fa_totalSizeBytes := t1,
        fa_allocatedBytesTotalCount := fa_allocatedBytesTotalCount a + 1\<rparr>, ov1)" by (simp add: count_child_def s t)
    then show ?thesis unfolding agg_of_def using T A(3,4) one I(2,6) False by simp
  qed
qed

lemma count_children_spec:
  assumes "agg_of m S s" "finite S" "distinct (map key idx)" "key ` set idx \<inter> S = {}" "card S + length idx \<le> max64"
    "\<And>i. i \<in> set idx \<Longrightarrow> m (key i) = Some (to_record names (e i))"
  shows "agg_of m (S \<union> key ` set idx) (fold (\<lambda>i. count_child (e i)) idx s)"
  using assms
proof (induction idx arbitrary: S s)
  case (Cons i js)
  have "agg_of m (insert (key i) S) (count_child (e i) s)"
    using Cons.prems by (intro count_child_spec [where names = names]) auto
  moreover have "card (insert (key i) S) + length js \<le> max64" using Cons.prems by (simp add: card_insert_if)
  ultimately have "agg_of m (insert (key i) S \<union> key ` set js) (fold (\<lambda>i. count_child (e i)) js (count_child (e i) s))"
    using Cons.prems by (intro Cons.IH) auto
  then show ?case by simp
qed simp

section \<open>The traversal\<close>

lemma child_slots:
  assumes ok: "proj_ok cso p" and ch: "ChildIndices vol frn p = (children, p1)"
  shows "proj_ok cso p1" "rows p1 = rows p" "pj_namePool p1 = pj_namePool p" "EntryAt p1 = EntryAt p"
    "distinct (map (\<lambda>i. entry_key (EntryAt p i)) children)"
    "(\<lambda>i. entry_key (EntryAt p i)) ` set children = children_in (rows p) (key_of vol frn)"
    "\<And>i. i \<in> set children \<Longrightarrow> rows p (entry_key (EntryAt p i)) = Some (to_record (pj_namePool p) (EntryAt p i))
       \<and> entry_key (EntryAt p i) = key_of vol (pe_frn (EntryAt p i))"
proof -
  note D = proj_okD [OF ok]
  show "proj_ok cso p1" "rows p1 = rows p" "pj_namePool p1 = pj_namePool p" "EntryAt p1 = EntryAt p"
    using ch ok by (auto simp: ChildIndices_def Let_def fun_eq_iff split: option.splits)
  have c: "children = cm_children (pj_parentToChildren p) (key_of vol frn)"
    using ch cm_find_eq [OF D(6), of "key_of vol frn"] by (auto simp: ChildIndices_def Let_def split: option.splits)
  have live: "ids_of p (entry_key (EntryAt p i)) = Some i \<and> child_of (EntryAt p i) (key_of vol frn)" if "i \<in> set children" for i
    using that links_okD(2) [OF D(8), of "key_of vol frn"] unfolding c by (auto simp: live_slot_def EntryAt_def)
  show "rows p (entry_key (EntryAt p i)) = Some (to_record (pj_namePool p) (EntryAt p i))
       \<and> entry_key (EntryAt p i) = key_of vol (pe_frn (EntryAt p i))" if "i \<in> set children" for i
    using live [OF that] by (simp add: rows_def child_of_def entry_key_def)
  have "inj_on (\<lambda>i. entry_key (EntryAt p i)) (set children)" using live by (intro inj_onI) (metis option.inject)
  then show "distinct (map (\<lambda>i. entry_key (EntryAt p i)) children)"
    using Child_rows(1) [OF ok, of vol frn] ch by (simp add: distinct_map)
  show "(\<lambda>i. entry_key (EntryAt p i)) ` set children = children_in (rows p) (key_of vol frn)"
    using Child_rows(2) [OF ok, of vol frn] ch by (simp add: children_in_def)
qed

lemma card_rows: "proj_ok cso p \<Longrightarrow> card (dom (rows p)) \<le> 2 ^ 32"
proof -
  assume ok: "proj_ok cso p"
  note D = proj_okD [OF ok]
  have "length (fm_entries (pj_idToIndex p)) \<le> length (pj_entries p)"
    using live_row_count [OF D(3) distinct_fm_entries [OF D(2)]] fm_entries_iff [OF D(2)] by auto
  also have "\<dots> \<le> 2 ^ 32" using D(3) by (simp add: ids_ok_def)
  finally show ?thesis using fm_map_dom_count [OF D(2)] length_fm_entries [OF D(2)] by (simp add: dom_rows)
qed

lemma dir_child: "rows p (entry_key e) = Some (to_record names e) \<Longrightarrow> dir_row (rows p) (entry_key e) \<longleftrightarrow> is_directory e"
  by (simp add: dir_row_def is_directory_def to_record_def)

lemma pushed_dirs:
  assumes ok: "proj_ok cso p" and ch: "ChildIndices vol frn p = (children, p1)"
  defines "ds \<equiv> map (key_of vol) (rev (map (\<lambda>i. pe_frn (EntryAt p i)) (filter (\<lambda>i. is_directory (EntryAt p i)) children)))"
  shows "distinct ds" "set ds = {c \<in> children_in (rows p) (key_of vol frn). dir_row (rows p) c}"
proof -
  note C = child_slots [OF ok ch]
  have ds: "ds = rev (map (\<lambda>i. entry_key (EntryAt p i)) (filter (\<lambda>i. is_directory (EntryAt p i)) children))"
    unfolding ds_def rev_map map_map using C(7) by (intro map_cong) auto
  show "distinct ds" unfolding ds distinct_rev using C(5) by (rule distinct_map_filter)
  show "set ds = {c \<in> children_in (rows p) (key_of vol frn). dir_row (rows p) c}"
    unfolding ds C(6) [symmetric] using dir_child [OF conjunct1 [OF C(7)]] by auto
qed

lemma aggregate_total:
  assumes "proj_ok cso p" "\<not> cyclic_dir (rows p) root" "agg_inv (rows p) root (map (key_of vol) stack) counted"
    "agg_of (rows p) counted s"
  shows "\<exists>s' p'. aggregate_walk vol stack s p = Some (s', p') \<and> agg_of (rows p) (below (rows p) root) s'
    \<and> proj_ok cso p' \<and> rows p' = rows p"
  using assms
proof (induction "2 * card (dom (rows p) - counted) + length stack" arbitrary: stack counted s p rule: less_induct)
  case less
  note ok = less.prems(1) and inv = less.prems(3)
  show ?case
  proof (cases stack)
    case Nil
    then show ?thesis using less.prems agg_end [of "rows p" root counted] by (simp add: aggregate_walk.simps [of vol "[]"])
  next
    case (Cons frn rest)
    obtain children p1 where ch: "ChildIndices vol frn p = (children, p1)" by fastforce
    note C = child_slots [OF ok ch] and P = pushed_dirs [OF ok ch]
    let ?C = "children_in (rows p) (key_of vol frn)"
    let ?new = "rev (map (\<lambda>i. pe_frn (EntryAt p i)) (filter (\<lambda>i. is_directory (EntryAt p i)) children)) @ rest"
    let ?s = "fold (\<lambda>i. count_child (EntryAt p i)) children s"
    have step: "?C \<inter> counted = {}" "agg_inv (rows p) root (map (key_of vol) ?new) (counted \<union> ?C)"
      using agg_step [OF rows_keyed [OF ok] less.prems(2) inv [unfolded Cons list.map] P] by simp_all
    have fin: "finite (dom (rows p))" by (rule finite_rows [OF proj_okD(2) [OF ok]])
    have sub: "counted \<union> ?C \<subseteq> dom (rows p)" using agg_invD(3) [OF step(2)] below_dom by blast
    then have fins: "finite counted" "finite ?C" using fin finite_subset by auto
    have len: "length children = card ?C" using C(5) unfolding C(6) [symmetric] by (metis distinct_card length_map set_map)
    then have "card counted + length children = card (counted \<union> ?C)" using card_Un_disjoint [OF fins] step(1) by (simp add: Int_commute)
    also have "\<dots> \<le> card (dom (rows p))" by (rule card_mono [OF fin sub])
    finally have "card counted + length children \<le> max64" using card_rows [OF ok] order_trans [of _ "2 ^ 32" max64] by force
    then have agg: "agg_of (rows p) (counted \<union> ?C) ?s"
      using count_children_spec [OF less.prems(4) fins(1) C(5)] step(1) C(7) unfolding C(6) by blast
    have "card (dom (rows p) - counted) = card (dom (rows p) - (counted \<union> ?C)) + card ?C"
      using sub step(1) fin fins by (subst card_Un_disjoint [symmetric]) (auto intro!: arg_cong [where f = card])
    moreover have "length ?new \<le> card ?C + length rest" using len length_filter_le [of _ children] by simp
    moreover have "0 < card ?C \<or> length ?new = length rest" using len by (cases children) auto
    ultimately have "2 * card (dom (rows p1) - (counted \<union> ?C)) + length ?new < 2 * card (dom (rows p) - counted) + length stack"
      unfolding C(2) Cons by simp
    from less.hyps [OF this C(1)] show ?thesis
      using less.prems(2) step(2) agg unfolding C(2) by (simp add: Cons aggregate_walk.simps [of vol "frn # rest"] ch C(4))
  qed
qed

lemma aggregate_diverges:
  assumes "aggregate_walk vol stack s p = Some r"
  shows "proj_ok cso p \<Longrightarrow> frn \<in> set stack \<Longrightarrow> \<not> cyclic_dir (rows p) (key_of vol frn)"
proof (induction arbitrary: frn rule: aggregate_walk.raw_induct [OF _ assms])
  case (1 walk vol stack s p r)
  then obtain top rest where stack: "stack = top # rest" by (cases stack) auto
  obtain children p1 where ch: "ChildIndices vol top p = (children, p1)" by fastforce
  note C = child_slots [OF "1.prems"(1) ch] and P = pushed_dirs(2) [OF "1.prems"(1) ch]
  let ?new = "rev (map (\<lambda>i. pe_frn (EntryAt p i)) (filter (\<lambda>i. is_directory (EntryAt p i)) children)) @ rest"
  have rec: "walk vol ?new (fold (\<lambda>i. count_child (EntryAt p i)) children s) p1 = Some r"
    using "1.hyps" by (simp add: stack ch C(4))
  have no: "\<not> cyclic_dir (rows p) (key_of vol f)" if "f \<in> set ?new" for f
    using "1.IH" [OF rec C(1) that] unfolding C(2) .
  show ?case
  proof
    assume cyc: "cyclic_dir (rows p) (key_of vol frn)"
    then have "frn = top" using "1.prems"(2) no [of frn] stack by auto
    then obtain c where c: "c \<in> children_in (rows p) (key_of vol top)" "cyclic_dir (rows p) c"
      using cyclic_child [OF rows_keyed [OF "1.prems"(1)] cyc] by blast
    then have "c \<in> key_of vol ` set (rev (map (\<lambda>i. pe_frn (EntryAt p i)) (filter (\<lambda>i. is_directory (EntryAt p i)) children)))"
      using P unfolding set_map by (auto simp: cyclic_dir_def)
    then show False using no c(2) by auto
  qed
qed

section \<open>Ancestors\<close>

text \<open>
  The records met on the way up from a row: \<open>linked\<close> for any number of steps, \<open>ancestry\<close> when the last one is a volume
  root, a row that is its own parent.
\<close>

fun linked :: "(EntryKey \<rightharpoonup> EntryRecord) \<Rightarrow> VolumeRowId \<Rightarrow> FileId \<Rightarrow> EntryRecord list \<Rightarrow> bool" where
  "linked m vol frn [] \<longleftrightarrow> True"
| "linked m vol frn (r # rs) \<longleftrightarrow> m (key_of vol frn) = Some r \<and> (rs \<noteq> [] \<longrightarrow> er_parentId r \<noteq> frn) \<and> linked m vol (er_parentId r) rs"

definition ancestry :: "(EntryKey \<rightharpoonup> EntryRecord) \<Rightarrow> VolumeRowId \<Rightarrow> FileId \<Rightarrow> EntryRecord list \<Rightarrow> bool" where
  "ancestry m vol frn rs \<longleftrightarrow> rs \<noteq> [] \<and> linked m vol frn rs \<and> er_parentId (last rs) = er_id (last rs)"

lemma ancestry_Cons:
  assumes "keyed m"
  shows "ancestry m vol frn (r # rs) \<longleftrightarrow> m (key_of vol frn) = Some r
    \<and> (if er_parentId r = frn then rs = [] else ancestry m vol (er_parentId r) rs)"
  using assms by (cases rs) (auto simp: ancestry_def keyed_def)

lemma ancestry_unique:
  assumes "keyed m"
  shows "ancestry m vol frn rs \<Longrightarrow> ancestry m vol frn rs' \<Longrightarrow> rs = rs'"
proof (induction rs arbitrary: frn rs')
  case (Cons r rs)
  from Cons.prems(2) obtain r' ss where rs': "rs' = r' # ss" by (cases rs') (auto simp: ancestry_def)
  show ?case using Cons.prems Cons.IH unfolding rs' ancestry_Cons [OF assms] by (auto split: if_splits)
qed (simp add: ancestry_def)

lemma ancestry_suffix:
  assumes id: "keyed m"
  shows "ancestry m vol frn rs \<Longrightarrow> r \<in> set rs \<Longrightarrow> \<exists>ss. ancestry m vol (er_id r) ss \<and> length ss \<le> length rs"
proof (induction rs arbitrary: frn)
  case (Cons x rs)
  note A = Cons.prems(1) [unfolded ancestry_Cons [OF id]]
  show ?case
  proof (cases "r = x")
    case True
    then have "er_id r = frn" using A id by (force simp: keyed_def)
    then show ?thesis using Cons.prems(1) by blast
  next
    case False
    then have "r \<in> set rs" "er_parentId x \<noteq> frn" using Cons.prems(2) A by (auto split: if_splits)
    then obtain ss where "ancestry m vol (er_id r) ss" "length ss \<le> length rs" using Cons.IH A by auto
    then show ?thesis by auto
  qed
qed simp

lemma ancestry_no_repeat:
  assumes id: "keyed m" and a: "ancestry m vol frn (r # rs)"
  shows "frn \<notin> er_id ` set rs"
proof
  assume "frn \<in> er_id ` set rs"
  then obtain x where x: "x \<in> set rs" "er_id x = frn" by auto
  then have "ancestry m vol (er_parentId r) rs" using a unfolding ancestry_Cons [OF id] by (auto split: if_splits)
  from ancestry_suffix [OF id this x(1)] obtain ss where "ancestry m vol frn ss" "length ss \<le> length rs" unfolding x(2) by blast
  with ancestry_unique [OF id a] show False by fastforce
qed

lemma path_walk_sound:
  assumes "proj_ok cso p" "path_walk depth vol cancelled n frn visited parts p = ((parts', reached, n'), p')"
  shows "proj_ok cso p' \<and> rows p' = rows p \<and> pj_namePool p' = pj_namePool p
    \<and> (\<exists>rs. linked (rows p) vol frn rs \<and> length rs \<le> depth \<and> (reached \<longrightarrow> ancestry (rows p) vol frn rs)
        \<and> map (Get (pj_namePool p)) parts' = map (Get (pj_namePool p)) parts @ map er_name rs)"
  using assms
proof (induction depth arbitrary: n frn visited parts p)
  case (Suc depth)
  note ok = Suc.prems(1)
  obtain e p1 where f: "Find vol frn p = (e, p1)" by fastforce
  note F = Find_rows [OF ok f]
  have stop: ?case if "parts' = parts" "\<not> reached" "p' = p \<or> p' = p1"
    using that ok F(2-4) by (intro conjI exI [of _ "[]"]) auto
  show ?case
  proof (cases "cancelled n \<or> key_of vol frn \<in> visited \<or> e = None")
    case True
    then show ?thesis using Suc.prems(2) f by (intro stop) (auto split: if_splits)
  next
    case False
    then obtain x where x: "e = Some x" by blast
    let ?r = "to_record (pj_namePool p) x"
    have row: "rows p (key_of vol frn) = Some ?r" using F(1) x by simp
    have r: "er_id ?r = frn" "er_parentId ?r = pe_parentFrn x" "er_name ?r = Get (pj_namePool p) (pe_nameId x)"
      using rows_id [OF ok row] by (simp_all add: to_record_def entry_name_def)
    show ?thesis
    proof (cases "pe_parentFrn x = frn")
      case True
      then have "parts' = parts @ [pe_nameId x]" "p' = p1" using Suc.prems(2) False f x by auto
      then show ?thesis using F row r True by (intro conjI exI [of _ "[?r]"]) (auto simp: ancestry_def)
    next
      case up: False
      then have "path_walk depth vol cancelled (n + 1) (pe_parentFrn x) (insert (key_of vol frn) visited)
          (parts @ [pe_nameId x]) p1 = ((parts', reached, n'), p')" using Suc.prems(2) False f x by simp
      from Suc.IH [OF F(2) this] obtain rs where rs: "linked (rows p) vol (pe_parentFrn x) rs" "length rs \<le> depth"
        "reached \<longrightarrow> ancestry (rows p) vol (pe_parentFrn x) rs"
        "map (Get (pj_namePool p)) parts' = map (Get (pj_namePool p)) (parts @ [pe_nameId x]) @ map er_name rs"
        "proj_ok cso p'" "rows p' = rows p" "pj_namePool p' = pj_namePool p" unfolding F(3,4) by blast
      have "reached \<longrightarrow> ancestry (rows p) vol frn (?r # rs)"
        unfolding ancestry_Cons [OF rows_keyed [OF ok]] using rs(3) row r(2) up by simp
      then show ?thesis using rs row r up by (intro conjI exI [of _ "?r # rs"]) auto
    qed
  qed
qed simp

lemma path_walk_complete:
  assumes "proj_ok cso p" "ancestry (rows p) vol frn rs" "length rs \<le> depth" "key_of vol ` er_id ` set rs \<inter> visited = {}"
  shows "\<exists>parts' n' p'. path_walk depth vol (\<lambda>n. False) n frn visited parts p = ((parts', True, n'), p')"
  using assms
proof (induction rs arbitrary: depth n frn visited parts p)
  case (Cons r rs)
  note ok = Cons.prems(1)
  note A = Cons.prems(2) [unfolded ancestry_Cons [OF rows_keyed [OF ok]]]
  obtain d where d: "depth = Suc d" "length rs \<le> d" using Cons.prems(3) by (cases depth) auto
  obtain e p1 where f: "Find vol frn p = (e, p1)" by fastforce
  note F = Find_rows [OF ok f]
  obtain x where x: "e = Some x" "to_record (pj_namePool p) x = r" using F(1) A by (cases e) auto
  then have parent: "pe_parentFrn x = er_parentId r" by (auto simp: to_record_def)
  have id: "er_id r = frn" using rows_id [OF ok conjunct1 [OF A]] by simp
  then have fresh: "key_of vol frn \<notin> visited" using Cons.prems(4) by auto
  show ?case
  proof (cases "er_parentId r = frn")
    case True
    then show ?thesis using d f x parent fresh by simp
  next
    case False
    have "key_of vol ` er_id ` set rs \<inter> insert (key_of vol frn) visited = {}"
      using Cons.prems(4) ancestry_no_repeat [OF rows_keyed [OF ok] Cons.prems(2)] by auto
    from Cons.IH [OF F(2) _ d(2) this, unfolded F(3), of "er_parentId r"] show ?thesis
      using d f x parent fresh False A by simp
  qed
qed (simp add: ancestry_def)

abbreviation descendants :: "Projection \<Rightarrow> VolumeRowId \<Rightarrow> FileId \<Rightarrow> EntryKey set" where
  "descendants p vol frn \<equiv> below (rows p) (key_of vol frn)"

text \<open>What a finished aggregate says about the rows it covers.\<close>

definition sums_of :: "(EntryKey \<rightharpoonup> EntryRecord) \<Rightarrow> EntryKey set \<Rightarrow> FolderAggregate \<Rightarrow> bool" where
  "sums_of m S a \<longleftrightarrow> unat (fa_itemCount a) = card S \<and> unat (fa_totalSizeBytes a) = min (size_sum m S) max64
     \<and> unat (fa_totalAllocatedSizeBytes a) = min (allocated_sum m S) max64
     \<and> (fa_complete a \<longleftrightarrow> known_rows m S = S \<and> size_sum m S \<le> max64 \<and> allocated_sum m S \<le> max64)"

lemma finish_sums:
  assumes "agg_of m S (a, overflowed)" "finite S"
  shows "sums_of m S (finish_aggregate a overflowed)"
proof -
  have "card (known_rows m S) = card S \<longleftrightarrow> known_rows m S = S"
    using card_subset_eq [OF assms(2), of "known_rows m S"] by (auto simp: known_rows_def)
  moreover have "fa_allocatedBytesKnownCount a = fa_allocatedBytesTotalCount a \<longleftrightarrow> card (known_rows m S) = card S"
    using assms(1) by (simp add: agg_of_def word_unat_eq_iff)
  moreover have "overflowed \<longleftrightarrow> \<not> (size_sum m S \<le> max64 \<and> allocated_sum m S \<le> max64)"
    using assms(1) unfolding agg_of_def snd_conv by linarith
  ultimately have "fa_complete (finish_aggregate a overflowed) \<longleftrightarrow>
      known_rows m S = S \<and> size_sum m S \<le> max64 \<and> allocated_sum m S \<le> max64" by (auto simp: finish_aggregate_def)
  moreover have "fa_itemCount (finish_aggregate a overflowed) = fa_itemCount a"
    "fa_totalSizeBytes (finish_aggregate a overflowed) = fa_totalSizeBytes a"
    "fa_totalAllocatedSizeBytes (finish_aggregate a overflowed) = fa_totalAllocatedSizeBytes a" by (simp_all add: finish_aggregate_def)
  ultimately show ?thesis using assms(1) unfolding sums_of_def agg_of_def fst_conv by metis
qed

lemma aggregate_absent:
  assumes "proj_ok cso p" "rows p (key_of vol frn) = None"
  shows "\<exists>p'. GetFolderAggregate vol frn p = Some (None, p')"
proof -
  obtain e p1 where f: "Find vol frn p = (e, p1)" by fastforce
  then have "e = None" using Find_rows(1) [OF assms(1) f] assms(2) by simp
  then show ?thesis using f by (simp add: GetFolderAggregate_def)
qed

lemma aggregate_present:
  assumes "proj_ok cso p" "rows p (key_of vol frn) = Some r"
  obtains p1 where "GetFolderAggregate vol frn p =
      map_option (\<lambda>((a, ov), p2). (Some (finish_aggregate a ov), p2)) (aggregate_walk vol [frn] (empty_aggregate, False) p1)"
    "proj_ok cso p1" "rows p1 = rows p"
proof -
  obtain e p1 where f: "Find vol frn p = (e, p1)" by fastforce
  note F = Find_rows [OF assms(1) f]
  obtain x where "e = Some x" using F(1) assms(2) by (cases e) auto
  then show ?thesis using that [of p1] f F(2,3) by (simp add: GetFolderAggregate_def)
qed

lemma aggregate_cyclic:
  assumes "proj_ok cso p" and cyc: "cyclic_dir (rows p) (key_of vol frn)"
  shows "GetFolderAggregate vol frn p = None"
proof -
  obtain r where "rows p (key_of vol frn) = Some r" using cyc by (auto simp: cyclic_dir_def dir_row_def)
  from aggregate_present [OF assms(1) this] obtain p1 where g: "GetFolderAggregate vol frn p =
      map_option (\<lambda>((a, ov), p2). (Some (finish_aggregate a ov), p2)) (aggregate_walk vol [frn] (empty_aggregate, False) p1)"
    "proj_ok cso p1" "rows p1 = rows p" by blast
  show ?thesis
  proof (cases "aggregate_walk vol [frn] (empty_aggregate, False) p1")
    case (Some y)
    from aggregate_diverges [OF Some g(2), of frn] cyc g(3) show ?thesis by simp
  qed (use g(1) in simp)
qed

lemma aggregate_acyclic:
  assumes ok: "proj_ok cso p" and "rows p (key_of vol frn) = Some r" and no: "\<not> cyclic_dir (rows p) (key_of vol frn)"
  shows "\<exists>a p'. GetFolderAggregate vol frn p = Some (Some a, p') \<and> proj_ok cso p' \<and> rows p' = rows p
    \<and> sums_of (rows p) (descendants p vol frn) a"
proof -
  let ?k = "key_of vol frn"
  from aggregate_present [OF assms(1,2)] obtain p1 where g: "GetFolderAggregate vol frn p =
      map_option (\<lambda>((a, ov), p2). (Some (finish_aggregate a ov), p2)) (aggregate_walk vol [frn] (empty_aggregate, False) p1)"
    "proj_ok cso p1" "rows p1 = rows p" by blast
  have no1: "\<not> cyclic_dir (rows p1) ?k" using no g(3) by simp
  have inv: "agg_inv (rows p1) ?k (map (key_of vol) [frn]) {}" by (simp add: agg_inv_def)
  have agg: "agg_of (rows p1) {} (empty_aggregate, False)"
    by (simp add: agg_of_def empty_aggregate_def size_sum_def allocated_sum_def known_rows_def)
  obtain s p2 where w: "aggregate_walk vol [frn] (empty_aggregate, False) p1 = Some (s, p2)"
    "agg_of (rows p) (descendants p vol frn) s" "proj_ok cso p2" "rows p2 = rows p"
    using aggregate_total [OF g(2) no1 inv agg] unfolding g(3) by blast
  obtain a ov where s: "s = (a, ov)" by fastforce
  have "finite (descendants p vol frn)"
    using below_dom by (intro finite_subset [OF _ finite_rows [OF proj_okD(2) [OF ok]]]) blast
  from finish_sums [OF w(2) [unfolded s] this] show ?thesis using g(1) w unfolding s by simp
qed

section \<open>Joining names\<close>

text \<open>Names joined by backslashes; empty names in front leave no separator.\<close>

definition backslash_join :: "u16string list \<Rightarrow> u16string" where
  "backslash_join ns = (case dropWhile (\<lambda>n. n = []) ns of [] \<Rightarrow> [] | n # rest \<Rightarrow> n @ concat (map (\<lambda>n. 0x5C # n) rest))"

lemma join_tail:
  "pr_path res \<noteq> [] \<Longrightarrow> join_parts names (\<lambda>n. False) n parts res =
     res\<lparr>pr_path := pr_path res @ concat (map (\<lambda>n. 0x5C # n) (map (Get names) parts))\<rparr>"
  by (induction parts arbitrary: n res) simp_all

lemma join_spec:
  "join_parts names (\<lambda>n. False) n parts \<lparr>pr_path = [], pr_reachedRoot = b\<rparr> =
     \<lparr>pr_path = backslash_join (map (Get names) parts), pr_reachedRoot = b\<rparr>"
proof (induction parts arbitrary: n)
  case (Cons part parts)
  show ?case
  proof (cases "Get names part = []")
    case True
    then show ?thesis using Cons.IH [of "n + 1"] by (simp add: backslash_join_def)
  next
    case False
    then show ?thesis using join_tail [of "\<lparr>pr_path = Get names part, pr_reachedRoot = b\<rparr>" names "n + 1" parts] by (simp add: backslash_join_def)
  qed
qed (simp add: backslash_join_def)

lemma join_cancel:
  "pr_reachedRoot (join_parts names cancelled n parts res) \<Longrightarrow>
     join_parts names cancelled n parts res = join_parts names (\<lambda>n. False) n' parts res"
proof (induction parts arbitrary: n n' res)
  case (Cons part parts)
  have "\<not> cancelled n" using Cons.prems by auto
  then show ?case using Cons.IH [of "n + 1" _ "n' + 1"] Cons.prems by simp
qed simp

lemma join_reached: "pr_reachedRoot (join_parts names cancelled n parts res) \<Longrightarrow> pr_reachedRoot res"
proof (induction parts arbitrary: n res)
  case (Cons part parts)
  have "\<not> cancelled n" using Cons.prems by auto
  then show ?case using Cons.IH [of "n + 1" "res\<lparr>pr_path := (if pr_path res \<noteq> [] then pr_path res @ [0x5C] else pr_path res) @ Get names part\<rparr>"]
    Cons.prems by simp
qed simp

lemma path_walk_cancel:
  "path_walk depth vol cancelled n frn visited parts p = ((parts', True, n'), p') \<Longrightarrow>
     \<exists>n''. path_walk depth vol (\<lambda>n. False) m frn visited parts p = ((parts', True, n''), p')"
  by (induction depth arbitrary: n m frn visited parts p) (auto split: if_splits prod.splits option.splits)

section \<open>Properties\<close>

text \<open>
  C24. Iteration is exact. The callback iteration and a cursor that is called until it returns false both yield the record
  of every row exactly once, in whichever of the two layouts; pausing the cursor after any number of calls loses
  nothing; a cancelled iteration has seen a prefix and says so; and a cursor whose entry array moved or whose table
  was resized yields nothing more.
\<close>

theorem Iteration_exact:
  fixes data :: 'a
  assumes "proj_ok cso p"
  shows "distinct (map entry_key (entry_values p))
    \<and> (\<lambda>e. (entry_key e, to_record (pj_namePool p) e)) ` set (entry_values p) = {(k, r). rows p k = Some r}
    \<and> (\<forall>n n'. let (first, c) = drain n data p (BeginEntryCursor data p); (next, c') = drain n' data p c in
         first @ next = take (n + n') (entry_values p) \<and> (n + n' > length (entry_values p) \<longrightarrow> Next data p c' = (None, c')))
    \<and> (\<forall>cancelled seen finished. ForEachEntryValueUntil cancelled p = (seen, finished) \<longrightarrow>
         seen = take (length seen) (entry_values p) \<and> (finished \<longleftrightarrow> seen = entry_values p))
    \<and> (\<forall>(data' :: 'a) p' c. Stale data' p' c \<longrightarrow> Next data' p' c = (None, c))"
proof -
  note B = begin_spec [OF assms, of data]
  have "let (first, c) = drain n data p (BeginEntryCursor data p); (next, c') = drain n' data p c in
         first @ next = take (n + n') (entry_values p) \<and> (n + n' > length (entry_values p) \<longrightarrow> Next data p c' = (None, c'))" for n n'
  proof -
    obtain c where c: "drain n data p (BeginEntryCursor data p) = (take n (entry_values p), c)" "cursor_ok data p c"
      "remaining p c = drop n (entry_values p)" using drain_spec [OF B(1), of n] unfolding B(2) by blast
    obtain c' where c': "drain n' data p c = (take n' (drop n (entry_values p)), c')" "cursor_ok data p c'"
      "remaining p c' = drop n' (drop n (entry_values p))" using drain_spec [OF c(2), of n'] unfolding c(3) by blast
    have "Next data p c' = (None, c')" if "n + n' > length (entry_values p)" using Next_spec [OF c'(2)] c'(3) that by simp
    then show ?thesis using c(1) c'(1) by (simp add: take_add)
  qed
  moreover have "Next data' p' c = (None, c)" if "Stale data' p' c" for data' :: 'a and p' c
    using that by (simp add: Next_def)
  ultimately show ?thesis
    using entry_values_spec(1) [OF assms] entry_values_rows [OF assms] visit_until_spec unfolding ForEachEntryValueUntil_def by blast
qed

text \<open>
  C10. The aggregate of a folder. For a row that is indexed and is not a directory below itself, \<open>GetFolderAggregate\<close>
  returns: the number of descendants, the sums of their sizes and of the known allocated sizes, each cut at the
  largest 64 bit value, and \<open>complete\<close> exactly when every descendant's allocated size is known and no sum was cut.
  For an identity that is not indexed it returns no aggregate. On a directory that is below itself, which a chain of parent
  references can produce, it does not return.
\<close>

theorem GetFolderAggregate_exact:
  assumes ok: "proj_ok cso p"
  shows "(GetFolderAggregate vol frn p = None \<longleftrightarrow> cyclic_dir (rows p) (key_of vol frn))
    \<and> (rows p (key_of vol frn) = None \<longrightarrow> (\<exists>p'. GetFolderAggregate vol frn p = Some (None, p')))
    \<and> (rows p (key_of vol frn) \<noteq> None \<and> \<not> cyclic_dir (rows p) (key_of vol frn) \<longrightarrow>
        (\<exists>a p'. GetFolderAggregate vol frn p = Some (Some a, p') \<and> proj_ok cso p' \<and> rows p' = rows p
          \<and> unat (fa_itemCount a) = card (descendants p vol frn) \<and> unat (fa_totalSizeBytes a) = min (size_sum (rows p) (descendants p vol frn)) max64
          \<and> unat (fa_totalAllocatedSizeBytes a) = min (allocated_sum (rows p) (descendants p vol frn)) max64
          \<and> (fa_complete a \<longleftrightarrow> known_rows (rows p) (descendants p vol frn) = descendants p vol frn \<and> size_sum (rows p) (descendants p vol frn) \<le> max64 \<and> allocated_sum (rows p) (descendants p vol frn) \<le> max64)))"
proof (cases "rows p (key_of vol frn)")
  case None
  then show ?thesis using aggregate_absent [OF ok None] by (auto simp: cyclic_dir_def dir_row_def)
next
  case (Some r)
  show ?thesis
  proof (cases "cyclic_dir (rows p) (key_of vol frn)")
    case True
    then show ?thesis using aggregate_cyclic [OF ok True] Some by simp
  next
    case False
    obtain a p' where "GetFolderAggregate vol frn p = Some (Some a, p')" "proj_ok cso p'" "rows p' = rows p"
      "sums_of (rows p) (descendants p vol frn) a" using aggregate_acyclic [OF ok Some False] by blast
    then show ?thesis using Some False unfolding sums_of_def by auto
  qed
qed

text \<open>
  C23. The path of a row. \<open>ReconstructPath\<close> reports that it reached the root exactly when the parent chain of the row ends in
  a volume root within the depth bound, and then its path is the names of that chain from the root to the row, joined
  by backslashes. In every other case, a missing parent or a cycle included, it returns, and its path is made of the
  part of the chain next to the row. A cancelled walk that still reports the root has the same path.
\<close>

theorem ReconstructPath_exact:
  assumes "proj_ok cso p"
  shows "let (result, p') = Projection_ReconstructPath vol frn p in proj_ok cso p' \<and> rows p' = rows p
    \<and> (pr_reachedRoot result \<longleftrightarrow> (\<exists>rs. ancestry (rows p) vol frn rs \<and> length rs \<le> kMaxProjectionPathDepth))
    \<and> (\<exists>rs. linked (rows p) vol frn rs \<and> pr_path result = backslash_join (rev (map er_name rs))
         \<and> (pr_reachedRoot result \<longrightarrow> ancestry (rows p) vol frn rs))
    \<and> (\<forall>cancelled. pr_reachedRoot (fst (ReconstructPathUntil vol frn cancelled p)) \<longrightarrow>
         fst (ReconstructPathUntil vol frn cancelled p) = result)"
proof -
  obtain parts reached n' p' where w: "path_walk kMaxProjectionPathDepth vol (\<lambda>n. False) 0 frn {} [] p = ((parts, reached, n'), p')"
    by (metis prod.collapse)
  obtain rs where rs: "linked (rows p) vol frn rs" "length rs \<le> kMaxProjectionPathDepth" "reached \<longrightarrow> ancestry (rows p) vol frn rs"
    "map (Get (pj_namePool p)) parts = map er_name rs" and p': "proj_ok cso p'" "rows p' = rows p" "pj_namePool p' = pj_namePool p"
    using path_walk_sound [OF assms w] by auto
  have res: "Projection_ReconstructPath vol frn p = (\<lparr>pr_path = backslash_join (rev (map er_name rs)), pr_reachedRoot = reached\<rparr>, p')"
    using rs(4) by (simp add: Projection_ReconstructPath_def ReconstructPathUntil_def w join_spec p'(3) rev_map [symmetric])
  have conv: reached if "ancestry (rows p) vol frn ss" "length ss \<le> kMaxProjectionPathDepth" for ss
    using path_walk_complete [OF assms that, of "{}" 0 "[]"] w by auto
  have "fst (ReconstructPathUntil vol frn cancelled p) = fst (Projection_ReconstructPath vol frn p)"
    if r: "pr_reachedRoot (fst (ReconstructPathUntil vol frn cancelled p))" for cancelled
  proof -
    obtain parts2 reached2 n2 p2 where w2: "path_walk kMaxProjectionPathDepth vol cancelled 0 frn {} [] p = ((parts2, reached2, n2), p2)"
      by (metis prod.collapse)
    let ?j = "\<lambda>c n. join_parts (pj_namePool p2) c n (rev parts2) \<lparr>pr_path = [], pr_reachedRoot = reached2\<rparr>"
    have j: "pr_reachedRoot (?j cancelled n2)" using r by (simp add: ReconstructPathUntil_def w2)
    then have "reached2" using join_reached by fastforce
    with path_walk_cancel [of kMaxProjectionPathDepth vol cancelled 0 frn "{}" "[]" p parts2 n2 p2 0] w2 w have
      "parts2 = parts" "p2 = p'" "reached" by auto
    then show ?thesis using join_cancel [OF j, of n'] \<open>reached2\<close>
      by (simp add: ReconstructPathUntil_def Projection_ReconstructPath_def w w2)
  qed
  then show ?thesis unfolding res using rs(1,2,3) conv p'(1,2) by auto
qed

section \<open>Witnesses\<close>

lemma sample_projection:
  obtains p where "apply_changes fold_ordinal sample_changes new_projection = Inr p" "proj_ok fold_ordinal p"
    "rows p = [key_of 1 default_FileId \<mapsto> sample_record]"
proof -
  obtain p where p: "apply_changes fold_ordinal sample_changes new_projection = Inr p" using sample_run by blast
  then show ?thesis using that [of p] apply_changes_spec [OF sample_fits, of fold_ordinal] by (simp add: sample_rows)
qed

lemma sample_record_simps [simp]:
  "er_id sample_record = default_FileId" "er_parentId sample_record = default_FileId" "er_name sample_record = [65, 98, 67, 100]"
  by (simp_all add: sample_record_def blank_record_def)

theorem Iteration_exact_witness:
  "\<exists>p. apply_changes fold_ordinal sample_changes new_projection = Inr p
     \<and> (\<lambda>e. (entry_key e, to_record (pj_namePool p) e)) ` set (entry_values p) = {(key_of 1 default_FileId, sample_record)}"
proof -
  obtain p where p: "apply_changes fold_ordinal sample_changes new_projection = Inr p" "proj_ok fold_ordinal p"
    "rows p = [key_of 1 default_FileId \<mapsto> sample_record]" by (rule sample_projection)
  have "{(k, r). rows p k = Some r} = {(key_of 1 default_FileId, sample_record)}" unfolding p(3) by (auto split: if_splits)
  then show ?thesis using Iteration_exact [OF p(2), of "0 :: nat"] p(1) by auto
qed

theorem GetFolderAggregate_exact_witness:
  "\<exists>p a p'. apply_changes fold_ordinal sample_changes new_projection = Inr p
     \<and> GetFolderAggregate 1 default_FileId p = Some (Some a, p') \<and> fa_itemCount a = 0 \<and> fa_complete a"
proof -
  obtain p where p: "apply_changes fold_ordinal sample_changes new_projection = Inr p" "proj_ok fold_ordinal p"
    "rows p = [key_of 1 default_FileId \<mapsto> sample_record]" by (rule sample_projection)
  have none: "children_in (rows p) (key_of 1 default_FileId) = {}" unfolding p(3) by (auto simp: children_in_def split: if_splits)
  have D: "descendants p 1 default_FileId = {}"
  proof -
    have "k \<in> descendants p 1 default_FileId \<Longrightarrow> False" for k by (induction rule: below.induct) (simp_all add: none)
    then show ?thesis by blast
  qed
  then have "\<not> cyclic_dir (rows p) (key_of 1 default_FileId)" by (simp add: cyclic_dir_def)
  then obtain a p' where "GetFolderAggregate 1 default_FileId p = Some (Some a, p')" "unat (fa_itemCount a) = 0" "fa_complete a"
    using conjunct2 [OF conjunct2 [OF GetFolderAggregate_exact [OF p(2), of 1 default_FileId]]] p(3) unfolding D
    by (auto simp: known_rows_def size_sum_def allocated_sum_def)
  then show ?thesis using p(1) by (auto simp: unat_eq_zero)
qed

theorem ReconstructPath_exact_witness:
  "\<exists>p result p'. apply_changes fold_ordinal sample_changes new_projection = Inr p
     \<and> Projection_ReconstructPath 1 default_FileId p = (result, p') \<and> pr_reachedRoot result \<and> pr_path result = [65, 98, 67, 100]"
proof -
  obtain p where p: "apply_changes fold_ordinal sample_changes new_projection = Inr p" "proj_ok fold_ordinal p"
    "rows p = [key_of 1 default_FileId \<mapsto> sample_record]" by (rule sample_projection)
  obtain result p' where r: "Projection_ReconstructPath 1 default_FileId p = (result, p')" by fastforce
  have chain: "ancestry (rows p) 1 default_FileId [sample_record]" by (simp add: ancestry_def p(3))
  note T = ReconstructPath_exact [OF p(2), of 1 default_FileId, unfolded r Let_def prod.case]
  have root: "pr_reachedRoot result" using T chain by (auto simp: kMaxProjectionPathDepth_def intro!: exI [of _ "[sample_record]"])
  then obtain rs where rs: "pr_path result = backslash_join (rev (map er_name rs))" "ancestry (rows p) 1 default_FileId rs" using T by blast
  then have "rs = [sample_record]" using ancestry_unique [OF rows_keyed [OF p(2)] rs(2) chain] by simp
  then show ?thesis using p(1) r root rs(1) by (auto simp: backslash_join_def)
qed

end
