(* ===== verification/Spec2Isabelle.thy ===== *)
theory Spec2Isabelle
  imports Records History Ntfs Snapshot Search Browse
begin

text \<open>
  FastFiles is a file manager for Windows in three processes. A privileged service (\<open>src/indexsvc\<close>) reads the
  master file table and the change journal of NTFS volumes and sends batches of records over a pipe. An engine
  (\<open>src/engine\<close>) keeps a durable store and an in-memory projection of all entries (\<open>src/indexstore\<close>), answers
  searches over it (\<open>src/search\<close>) and publishes directory snapshots. The user interface (\<open>src/ui\<close>) reads the
  snapshots and sends queries. The messages and file formats they share are in \<open>src/protocol\<close>. This library models
  the parts that decide what is stored, found and shown, in the order in which an entry passes through them.

  \<^bold>\<open>Conventions.\<close> A C++ struct is a record with prefixed fields, an enumeration a datatype, a fixed-width
  integer a word of that width, \<open>size_t\<close> a natural number where it counts elements of a container and a 64 bit
  word where the code computes with it. A UTF-16 string is a list of 16 bit words. A thrown exception is the left
  value of a sum (\<open>MapError\<close>); \<open>out_of_range\<close> marks an access the C++ code would perform out of bounds, and theorems
  show that it never appears. A loop with no evident end is a \<open>partial_function\<close> whose value \<open>None\<close> means that it does not
  return. State is passed explicitly; read operations that touch access times return the changed state.
  Windows functions (string comparison, case tables, time conversion) are parameters, collected in the record
  \<open>Host\<close> or passed as the comparison \<open>cso\<close>, with what the code relies on as named hypotheses: \<open>ordinal_total\<close>,
  \<open>ascii_ordinal\<close>, \<open>unitwise_ordinal\<close>. The comparison \<open>fold_ordinal\<close> shows that they can hold together.

  \<^bold>\<open>Theories, sources and results.\<close>

  \<^item> \<open>Prelude\<close>: byte and word encodings, the exception monad, shared lemmas.
  \<^item> \<open>Wire\<close> (\<open>protocol/src/Version.cpp\<close>, \<open>Commands.cpp\<close>, \<open>Frame.cpp\<close>, \<open>Dispatch.cpp\<close>): message types, limits and frame
    validation; a frame is accepted exactly under the documented conditions.
  \<^item> \<open>Records\<close> (\<open>protocol/src/Records.cpp\<close>): the five packed batch layouts behind the locale \<open>fixed_layout\<close>; parsing
    inverts serializing, accepted journal batches are canonical, version conversions round trip, and the records that the
    service selects for an older peer (\<open>indexsvc/src/UsnJournalReader.cpp\<close>) reach it with everything they say.
  \<^item> \<open>Ntfs\<close> (\<open>indexsvc/src/MftParser.cpp\<close>, \<open>UsnRecordParser.cpp\<close>): the parsers of raw disk records; no input makes
    them read outside the buffer, and well-formed records are decoded field by field.
  \<^item> \<open>Snapshot\<close> (\<open>protocol/src/SnapshotFormat.cpp\<close>): the snapshot file; round trip, refusal of every proper prefix and
    extension, and agreement of the pooled builder with the plain directory, over the locale \<open>part_codec\<close>.
  \<^item> \<open>FlatMap\<close> and \<open>ChildrenMap\<close> (\<open>indexstore/include/ffindexstore/FlatHashMap.h\<close>): the open-addressing tables with bounded
    probes, tombstones and growth; they refine a finite map and a map to lists of children (locale \<open>fallible_map\<close>).
  \<^item> \<open>Entries\<close> and \<open>NamePool\<close> (\<open>Identity.h\<close>, \<open>EntryRecord.h\<close>, \<open>FoldClassification.h\<close>, \<open>NamePool.cpp\<close>): identities, records
    and interned names; equal names share one id and an id keeps its name (locale \<open>interner\<close>).
  \<^item> \<open>Trigrams\<close>, \<open>Projection\<close>, \<open>Residency\<close>, \<open>Browse\<close> (\<open>indexstore/src/Projection.cpp\<close>, \<open>Projection.h\<close>): the projection, over the
    theories above. \<open>proj_ok\<close> is its invariant and \<open>rows\<close> its abstraction, a map from identities to records. Row operations
    refine that map (locale \<open>row_table\<close>); the filename accelerator offers a superset of the matching rows; eviction
    removes exactly a subtree and marks its volume cold, the victim is the least recently used of its class, and
    enforcement of the memory limit ends; iteration, the resumable cursor, folder aggregates and paths are exact.
  \<^item> \<open>Matcher\<close> and \<open>Query\<close> (\<open>search/src/Query.cpp\<close>): literal and glob matching, tokenizer, filters, parser; the
    prepared search agrees with the ordinal comparison, evaluation of a view agrees with evaluation of the record,
    and the pass without folder predicates is the query without its folder terms.
  \<^item> \<open>Paths\<close>, \<open>Heaps\<close>, \<open>Search\<close> (\<open>search/src/Path.cpp\<close>, \<open>Search.cpp\<close>): path functions, the standard heap operations
    (locale \<open>std_heap\<close>), ranking and the bounded result sets; a search returns the top of the ranking of all
    accepted candidates, whatever their order when their identities differ, the view search finds the same, and a row
    that the admission test skips would not have entered the results.
  \<^item> \<open>History\<close> (\<open>search/src/History.cpp\<close>): the list of past queries and its file format.

  \<^bold>\<open>How the parts meet.\<close> \<open>Projection\<close> runs on the tables, the name pool and the accelerator through their
  invariants only. \<open>Search\<close> reads candidates that carry the fields of a row; the accelerator of the projection and the
  matcher use the same ordinal comparison, which is what makes the candidate set complete for a search.

  \<^bold>\<open>Bounds.\<close> Slots, name ids and name offsets are 32 bit. Theorems about growing state assume that rows and interned
  characters fit (\<open>fits_new\<close>, \<open>room_for\<close>, \<open>names_fit\<close>); the source makes the same assumption. A table may still refuse an
  insertion with \<open>length_error\<close> or \<open>runtime_error\<close> when 64 probes do not suffice after eight doublings; theorems keep
  that case as a value, and \<open>fm_insert_succeeds\<close> excludes it below 64 entries. \<open>kMaxProjectionPathDepth\<close> (4096) bounds
  path reconstruction as in the source. The traversals of \<open>EvictSubtree\<close> and of the enforcement loops are shown to end
  by a measure on the rows left; \<open>GetFolderAggregate\<close> ends exactly when the folder is not below itself.

  \<^bold>\<open>Not modelled.\<close> The durable store (\<open>indexstore/src/Store.cpp\<close>) is SQL executed by SQLite, and the reload
  of an evicted volume streams from it. The service around the parsers and the selection of records, the pipe transport, the engine's threads,
  sessions and publisher, the installer and the setup library are sequences of Win32 calls. The windows, their
  rendering and accessibility providers are I/O with the operating system. Settings, diagnostics text and the codecs of
  the user interface protocol are not modelled; nor are byte counters, capacity shrinking and the optional search
  diagnostics, which no modelled decision reads, except for the memory estimate, a parameter of \<open>Residency\<close>.
\<close>

end
